(* ===== verification/Nats_Prelude.thy ===== *)
theory Nats_Prelude
  imports Main "HOL-Library.Word" "HOL-Library.Code_Target_Nat"
begin

text \<open>
  Shared vocabulary of the development: bytes and byte strings, the machine integers of the
  source, and the pieces of the Rust standard library that several components use
  (\<^verbatim>\<open>slice::split\<close>, \<^verbatim>\<open>Iterator::position\<close>, the ASCII predicates of \<^verbatim>\<open>u8\<close>, the decimal
  \<^verbatim>\<open>Display\<close> of an unsigned integer), together with their generic lemmas.

  A \<^verbatim>\<open>u8\<close> is a \<^typ>\<open>char\<close> (both have 256 values), a \<^verbatim>\<open>&[u8]\<close>, \<^verbatim>\<open>Bytes\<close> or \<^verbatim>\<open>Vec<u8>\<close> is a
  list of them. Lengths and positions inside one buffer are \<^typ>\<open>nat\<close>: a Rust allocation is
  at most \<^verbatim>\<open>isize::MAX\<close> bytes, so they never wrap. Counters that are only ever added to or
  subtracted from are kept at their width as \<^verbatim>\<open>64 word\<close>.
\<close>

section \<open>Types\<close>

type_synonym byte = char
type_synonym bytes = "char list"
type_synonym u64 = "64 word"

named_theorems byte_simps \<open>facts that evaluate the ASCII predicates\<close>

section \<open>Bytes\<close>

abbreviation CR :: byte where "CR \<equiv> CHR 0x0D"
abbreviation LF :: byte where "LF \<equiv> CHR 0x0A"
abbreviation SP :: byte where "SP \<equiv> CHR 0x20"
abbreviation TAB :: byte where "TAB \<equiv> CHR 0x09"

text \<open>\<^verbatim>\<open>u8::to_ascii_lowercase\<close>, \<^verbatim>\<open>u8::eq_ignore_ascii_case\<close>, \<^verbatim>\<open>u8::is_ascii_digit\<close>.\<close>

definition to_ascii_lowercase :: "byte \<Rightarrow> byte" where
  "to_ascii_lowercase c =
     (if 65 \<le> (of_char c :: nat) \<and> (of_char c :: nat) \<le> 90 then char_of ((of_char c :: nat) + 32) else c)"

definition eq_ignore_ascii_case :: "byte \<Rightarrow> byte \<Rightarrow> bool" where
  "eq_ignore_ascii_case a b \<longleftrightarrow> to_ascii_lowercase a = to_ascii_lowercase b"

definition is_ascii_digit :: "byte \<Rightarrow> bool" where
  "is_ascii_digit c \<longleftrightarrow> 48 \<le> (of_char c :: nat) \<and> (of_char c :: nat) \<le> 57"

definition digit_val :: "byte \<Rightarrow> nat" where
  "digit_val c = of_char c - 48"

definition digit_char :: "nat \<Rightarrow> byte" where
  "digit_char d = char_of (48 + d)"

section \<open>Slices\<close>

text \<open>\<^verbatim>\<open>slice::split\<close>: the pieces between the separators, always at least one piece.\<close>

fun split_on :: "('a \<Rightarrow> bool) \<Rightarrow> 'a list \<Rightarrow> 'a list list" where
  "split_on p [] = [[]]"
| "split_on p (x # xs) =
     (if p x then [] # split_on p xs
      else (case split_on p xs of [] \<Rightarrow> [[x]] | t # ts \<Rightarrow> (x # t) # ts))"

text \<open>\<^verbatim>\<open>Iterator::position\<close>.\<close>

fun position :: "('a \<Rightarrow> bool) \<Rightarrow> 'a list \<Rightarrow> nat option" where
  "position p [] = None"
| "position p (x # xs) = (if p x then Some 0 else map_option Suc (position p xs))"

text \<open>\<^verbatim>\<open>&s[a..b]\<close>.\<close>

definition slice :: "nat \<Rightarrow> nat \<Rightarrow> 'a list \<Rightarrow> 'a list" where
  "slice a b xs = take (b - a) (drop a xs)"

section \<open>Decimal\<close>

text \<open>The decimal \<^verbatim>\<open>Display\<close> of an unsigned integer.\<close>

fun show_nat :: "nat \<Rightarrow> bytes" where
  "show_nat n = (if n < 10 then [digit_char n] else show_nat (n div 10) @ [digit_char (n mod 10)])"

declare show_nat.simps [simp del]

section \<open>Lemmas on bytes\<close>

lemma of_char_digit_char [simp]: "d < 10 \<Longrightarrow> (of_char (digit_char d) :: nat) = 48 + d"
  by (simp add: digit_char_def)

lemma digit_val_digit_char [simp]: "d < 10 \<Longrightarrow> digit_val (digit_char d) = d"
  by (simp add: digit_val_def)

lemma is_ascii_digit_digit_char [simp]: "d < 10 \<Longrightarrow> is_ascii_digit (digit_char d)"
  by (simp add: is_ascii_digit_def)

lemma digit_not_ctl:
  assumes "is_ascii_digit c"
  shows "c \<noteq> SP" "c \<noteq> TAB" "c \<noteq> CR" "c \<noteq> LF"
  using assms by (auto simp: is_ascii_digit_def)

lemma digit_val_lt_10: "is_ascii_digit c \<Longrightarrow> digit_val c < 10"
  by (auto simp: is_ascii_digit_def digit_val_def)

lemma eq_ignore_ascii_case_refl [simp]: "eq_ignore_ascii_case c c"
  by (simp add: eq_ignore_ascii_case_def)

lemma eq_ignore_ascii_case_sym: "eq_ignore_ascii_case a b \<Longrightarrow> eq_ignore_ascii_case b a"
  by (simp add: eq_ignore_ascii_case_def)

section \<open>Lemmas on slices\<close>

lemma split_on_neq_Nil [simp]: "split_on p xs \<noteq> []"
  by (cases xs) (auto split: list.splits)

lemma split_on_no_sep: "\<forall>x\<in>set xs. \<not> p x \<Longrightarrow> split_on p xs = [xs]"
  by (induction xs) auto

lemma split_on_append_sep:
  "\<forall>x\<in>set xs. \<not> p x \<Longrightarrow> p s \<Longrightarrow> split_on p (xs @ s # ys) = xs # split_on p ys"
  by (induction xs) auto

lemma split_on_tokens_no_sep: "t \<in> set (split_on p xs) \<Longrightarrow> x \<in> set t \<Longrightarrow> \<not> p x"
proof (induction xs arbitrary: t x)
  case (Cons y ys)
  obtain u us where us: "split_on p ys = u # us"
    by (cases "split_on p ys") auto
  show ?case
    using Cons.prems Cons.IH [of u x] Cons.IH [of t x] by (auto simp: us split: if_splits)
qed simp

lemma length_split_on: "length (split_on p xs) = length (filter p xs) + 1"
proof (induction xs)
  case (Cons y ys)
  then show ?case by (cases "split_on p ys") auto
qed simp

text \<open>Splitting on one separator byte loses nothing.\<close>

fun join_sep :: "'a \<Rightarrow> 'a list list \<Rightarrow> 'a list" where
  "join_sep s [] = []"
| "join_sep s [t] = t"
| "join_sep s (t # u # us) = t @ s # join_sep s (u # us)"

lemma join_sep_Cons: "ts \<noteq> [] \<Longrightarrow> join_sep s (t # ts) = t @ s # join_sep s ts"
  by (cases ts) auto

lemma join_split_on: "join_sep s (split_on (\<lambda>b. b = s) xs) = xs"
proof (induction xs)
  case (Cons y ys)
  obtain t ts where ts: "split_on (\<lambda>b. b = s) ys = t # ts"
    by (cases "split_on (\<lambda>b. b = s) ys") auto
  show ?case
    using Cons by (cases ts) (auto simp: ts)
qed simp

lemma split_on_inj: "split_on (\<lambda>b. b = s) xs = split_on (\<lambda>b. b = s) ys \<longleftrightarrow> xs = ys"
  by (metis join_split_on)

lemma position_None_iff: "position p xs = None \<longleftrightarrow> (\<forall>x\<in>set xs. \<not> p x)"
  by (induction xs) auto

lemma position_append:
  "position p (xs @ ys) =
     (case position p xs of Some i \<Rightarrow> Some i | None \<Rightarrow> map_option (\<lambda>i. length xs + i) (position p ys))"
  by (induction xs; cases "position p ys") (auto split: option.splits)

lemma position_SomeD:
  "position p xs = Some i \<Longrightarrow> i < length xs \<and> p (xs ! i) \<and> (\<forall>j<i. \<not> p (xs ! j))"
proof (induction xs arbitrary: i)
  case (Cons x xs)
  then show ?case by (auto split: if_splits simp: nth_Cons split: nat.splits)
qed simp

lemma slice_append_mid [simp]: "slice (length xs) (length xs + length ys) (xs @ ys @ zs) = ys"
  by (simp add: slice_def)

section \<open>Lemmas on decimal\<close>

lemma show_nat_neq_Nil [simp]: "show_nat n \<noteq> []"
  by (subst show_nat.simps) simp

lemma show_nat_digits: "c \<in> set (show_nat n) \<Longrightarrow> is_ascii_digit c"
proof (induction n rule: show_nat.induct)
  case (1 n)
  then show ?case by (subst (asm) (2) show_nat.simps) (auto split: if_splits)
qed

lemma length_show_nat: "k > 0 \<Longrightarrow> n < 10 ^ k \<Longrightarrow> length (show_nat n) \<le> k"
proof (induction n arbitrary: k rule: show_nat.induct)
  case (1 n)
  show ?case
  proof (cases "n < 10")
    case True
    with 1 show ?thesis by (subst show_nat.simps) simp
  next
    case False
    with 1 obtain j where j: "k = Suc j" "j > 0"
      by (cases k; cases "k - 1") auto
    with False 1 have "length (show_nat (n div 10)) \<le> j" by auto
    with False j show ?thesis by (subst show_nat.simps) simp
  qed
qed

definition dec_val :: "bytes \<Rightarrow> nat" where
  "dec_val d = foldl (\<lambda>n b. n * 10 + digit_val b) 0 d"

text \<open>\<^verbatim>\<open>str::parse\<close> for \<^verbatim>\<open>usize\<close> and \<^verbatim>\<open>u64\<close>: an optional plus sign, at least one digit, below \<^verbatim>\<open>2^64\<close>.\<close>

definition parse_usize :: "bytes \<Rightarrow> nat option" where
  "parse_usize s =
     (let ds = (if s \<noteq> [] \<and> hd s = CHR ''+'' then tl s else s) in
      if ds \<noteq> [] \<and> list_all is_ascii_digit ds \<and> dec_val ds < 2 ^ 64 then Some (dec_val ds) else None)"

lemma dec_val_snoc [simp]: "dec_val (d @ [b]) = dec_val d * 10 + digit_val b"
  by (simp add: dec_val_def)

lemma dec_val_show_nat [simp]: "dec_val (show_nat n) = n"
proof (induction n rule: show_nat.induct)
  case (1 n)
  show ?case
  proof (cases "n < 10")
    case True
    then show ?thesis by (subst show_nat.simps) (simp add: dec_val_def)
  next
    case False
    with 1 show ?thesis by (subst show_nat.simps) simp
  qed
qed

end
