(* ===== verification/Proto.thy ===== *)
theory Proto
  imports Nats_Prelude
begin

text \<open>
  The control-line parser of \<^verbatim>\<open>crates/server/src/proto.rs\<close>: the error classes, the events, the
  argument splitter, one control line (\<open>parse_line\<close>) and the state machine over the byte
  stream (\<open>feed_into\<close>). A \<^verbatim>\<open>&mut\<close> argument is an argument that is returned updated; a
  \<^verbatim>\<open>Result\<close> is a sum with the error on the left. \<^verbatim>\<open>Bytes::slice\<close>, \<^verbatim>\<open>split_to\<close>, \<^verbatim>\<open>freeze\<close> and
  \<^verbatim>\<open>copy_from_slice\<close> all denote the bytes themselves: which of them share an allocation is not
  visible in a value.
\<close>

section \<open>Errors, limits, events\<close>

definition UNKNOWN_OP :: bytes where "UNKNOWN_OP = ''Unknown Protocol Operation''"
definition MAX_PAYLOAD_ERR :: bytes where "MAX_PAYLOAD_ERR = ''Maximum Payload Violation''"
definition MAX_CONTROL_LINE_ERR :: bytes where "MAX_CONTROL_LINE_ERR = ''maximum control line exceeded''"
definition INVALID_SUBJECT :: bytes where "INVALID_SUBJECT = ''Invalid Subject''"
definition INVALID_PUBLISH_SUBJECT :: bytes where "INVALID_PUBLISH_SUBJECT = ''Invalid Publish Subject''"
definition STALE_CONNECTION :: bytes where "STALE_CONNECTION = ''Stale Connection''"

datatype ProtoError = Fatal bytes | Soft bytes | Silent

fun err_line :: "ProtoError \<Rightarrow> bytes option" where
  "err_line (Fatal t) = Some t"
| "err_line (Soft t) = Some t"
| "err_line Silent = None"

fun closes :: "ProtoError \<Rightarrow> bool" where
  "closes (Soft _) = False"
| "closes _ = True"

record Limits =
  max_control_line :: nat
  max_payload :: nat

definition default_limits :: Limits where
  "default_limits = \<lparr>max_control_line = 4096, max_payload = 1024 * 1024\<rparr>"

datatype HpubOutcome = HOk | HArgs | HFrame bytes

datatype Event =
    Connect bytes
  | Subscribe bytes "bytes option" bytes
  | Unsubscribe bytes int
  | Publish bytes "bytes option" nat nat bytes bool
      \<comment> \<open>subject, reply, header length, total, body, \<^verbatim>\<open>HPUB\<close>?\<close>
  | Ping
  | Pong
  | Info bytes
  | HpubAttempt HpubOutcome
  | ClientErr
  | ClientOk

section \<open>The pieces of a publish body\<close>

record Parts =
  p_first :: "bytes option"
  p_rest :: "bytes list"
  p_got :: nat
  p_fresh :: bool

definition parts_new :: Parts where
  "parts_new = \<lparr>p_first = None, p_rest = [], p_got = 0, p_fresh = False\<rparr>"

definition parts_push :: "bytes \<Rightarrow> Parts \<Rightarrow> Parts" where
  "parts_push b p =
     (let p' = p\<lparr>p_got := p_got p + length b, p_fresh := True\<rparr> in
      case p_first p of
        None \<Rightarrow> p'\<lparr>p_first := Some b\<rparr>
      | Some f \<Rightarrow> p'\<lparr>p_first := None, p_rest := p_rest p @ [f] @ [b]\<rparr>)"

text \<open>\<^verbatim>\<open>own\<close>: the same bytes in an allocation of their own; an empty one stays as it is.\<close>

definition own :: "bytes \<Rightarrow> bytes" where
  "own b = (if b \<noteq> [] then map (\<lambda>x. x) b else b)"

definition parts_hoist :: "Parts \<Rightarrow> Parts" where
  "parts_hoist p =
     (if \<not> p_fresh p then p
      else let p' = p\<lparr>p_fresh := False\<rparr> in
        if p_rest p \<noteq> [] then p'\<lparr>p_rest := butlast (p_rest p) @ [own (last (p_rest p))]\<rparr>
        else p'\<lparr>p_first := map_option own (p_first p)\<rparr>)"

definition take_body :: "Parts \<Rightarrow> bytes \<times> Parts" where
  "take_body p =
     ((case (p_first p, length (p_rest p)) of
         (Some b, 0) \<Rightarrow> b
       | (None, 0) \<Rightarrow> []
       | (f, _) \<Rightarrow> (case f of Some b \<Rightarrow> b | None \<Rightarrow> []) @ concat (p_rest p)),
      p\<lparr>p_first := None, p_rest := []\<rparr>)"

datatype State =
    Line
  | Body bytes "bytes option" nat nat bool Parts
      \<comment> \<open>subject, reply, header length, need, \<^verbatim>\<open>HPUB\<close>?, parts\<close>

fun hoist :: "State \<Rightarrow> State" where
  "hoist (Body subject reply hdr need hpub parts) =
     Body (own subject) (map_option own reply) hdr need hpub (parts_hoist parts)"
| "hoist Line = Line"

section \<open>Arguments\<close>

definition MAX_ARGS :: nat where "MAX_ARGS = 5"

record Args =
  a_range :: "(nat \<times> nat) list"
  a_len :: nat
  a_base :: nat

definition is_blank :: "byte \<Rightarrow> bool" where
  "is_blank b \<longleftrightarrow> b = SP \<or> b = TAB"

definition args_push :: "nat \<Rightarrow> nat \<Rightarrow> Args \<Rightarrow> Args" where
  "args_push from to a =
     (let a' = (if a_len a < MAX_ARGS
                then a\<lparr>a_range := (a_range a)[a_len a := (a_base a + from, a_base a + to)]\<rparr> else a)
      in a'\<lparr>a_len := a_len a + 1\<rparr>)"

fun args_loop :: "nat \<Rightarrow> bytes \<Rightarrow> nat option \<Rightarrow> Args \<Rightarrow> nat option \<times> Args" where
  "args_loop i [] start a = (start, a)"
| "args_loop i (b # bs) start a =
     (if is_blank b then
        (case start of
           Some st \<Rightarrow> args_loop (i + 1) bs None (args_push st i a)
         | None \<Rightarrow> args_loop (i + 1) bs None a)
      else if start = None then args_loop (i + 1) bs (Some i) a
      else args_loop (i + 1) bs start a)"

definition args_of :: "bytes \<Rightarrow> nat \<Rightarrow> Args" where
  "args_of s base =
     (case args_loop 0 s None \<lparr>a_range = replicate MAX_ARGS (0, 0), a_len = 0, a_base = base\<rparr> of
        (Some st, a) \<Rightarrow> args_push st (length s) a
      | (None, a) \<Rightarrow> a)"

definition args_len :: "Args \<Rightarrow> nat" where
  "args_len a = min (a_len a) MAX_ARGS"

definition args_slice :: "Args \<Rightarrow> bytes \<Rightarrow> nat \<Rightarrow> bytes" where
  "args_slice a line i = (case a_range a ! i of (x, y) \<Rightarrow> slice x y line)"

section \<open>One control line\<close>

datatype Action =
    ActEvent Event
  | ActBody bytes "bytes option" nat nat bool
      \<comment> \<open>subject, reply, header length, need, \<^verbatim>\<open>HPUB\<close>?\<close>

fun parse_size_loop :: "int \<Rightarrow> bytes \<Rightarrow> int" where
  "parse_size_loop n [] = n"
| "parse_size_loop n (b # bs) =
     (if \<not> is_ascii_digit b then -1 else parse_size_loop (n * 10 + int (digit_val b)) bs)"

definition parse_size :: "bytes \<Rightarrow> int" where
  "parse_size d = (if d = [] \<or> length d > 9 then -1 else parse_size_loop 0 d)"

definition find_crlf :: "bytes \<Rightarrow> nat option" where
  "find_crlf buf =
     (if length buf < 2 then None
      else position (\<lambda>w. w = (CR, LF)) (zip buf (tl buf)))"

definition eq_ignore :: "bytes \<Rightarrow> bytes \<Rightarrow> bool" where
  "eq_ignore a b \<longleftrightarrow> length a = length b \<and> list_all (\<lambda>(x, y). eq_ignore_ascii_case x y) (zip a b)"

definition starts :: "bytes \<Rightarrow> bytes \<Rightarrow> bool" where
  "starts line prefix \<longleftrightarrow> length line \<ge> length prefix \<and> eq_ignore (take (length prefix) line) prefix"

definition arg_at :: "bytes \<Rightarrow> nat option" where
  "arg_at tail = position (\<lambda>b. \<not> is_blank b) tail"

definition subscribe :: "bytes \<Rightarrow> bytes option \<Rightarrow> bytes \<Rightarrow> Event" where
  "subscribe subject queue sid = Subscribe subject queue sid"

text \<open>The argument positions of a publish line: subject, reply, and the two sizes.\<close>

definition pub_shape :: "bool \<Rightarrow> nat \<Rightarrow> (nat \<times> nat option \<times> nat \<times> nat) option" where
  "pub_shape hpub n =
     (if \<not> hpub \<and> n = 2 then Some (0, None, 1, 1)
      else if \<not> hpub \<and> n = 3 then Some (0, Some 1, 2, 2)
      else if hpub \<and> n = 3 then Some (0, None, 1, 2)
      else if hpub \<and> n = 4 then Some (0, Some 1, 2, 3)
      else None)"

definition pub_line :: "bytes \<Rightarrow> bytes \<Rightarrow> bool \<Rightarrow> bool \<Rightarrow> Limits \<Rightarrow> ProtoError + Action" where
  "pub_line line rest has_args hpub lim =
     (if \<not> has_args then Inl (Fatal UNKNOWN_OP)
      else let args = args_of rest (length line - length rest) in
        case pub_shape hpub (args_len args) of
          None \<Rightarrow> if hpub then Inr (ActEvent (HpubAttempt HArgs)) else Inl Silent
        | Some (subject, reply, size0, size1) \<Rightarrow>
            let hdr = (if hpub then parse_size (args_slice args line size0) else 0);
                total = parse_size (args_slice args line size1)
            in if hdr < 0 \<or> total < 0 \<or> hdr > total then
                 (if hpub then Inr (ActEvent (HpubAttempt HArgs)) else Inl Silent)
               else if nat total > max_payload lim then Inl (Fatal MAX_PAYLOAD_ERR)
               else Inr (ActBody (args_slice args line subject)
                           (map_option (args_slice args line) reply) (nat hdr) (nat total) hpub))"

text \<open>The verb runs to the first space or tab.\<close>

definition verb_end :: "bytes \<Rightarrow> nat" where
  "verb_end line = (case position is_blank line of Some i \<Rightarrow> i | None \<Rightarrow> length line)"

definition parse_line :: "bytes \<Rightarrow> Limits \<Rightarrow> ProtoError + Action" where
  "parse_line line lim =
     (if line = [] then Inl (Fatal UNKNOWN_OP)
      else
        let vend = verb_end line;
            rest = drop vend line;
            has_args = (rest \<noteq> []);
            c = to_ascii_lowercase (line ! 0);
            args = args_of rest vend
        in
          if c = CHR ''p'' \<and> starts line ''PING'' then Inr (ActEvent Ping)
          else if c = CHR ''p'' \<and> starts line ''PONG'' then Inr (ActEvent Pong)
          else if c = CHR ''p'' \<and> vend = 3 \<and> eq_ignore (take 3 line) ''PUB'' then
            pub_line line rest has_args False lim
          else if c = CHR ''h'' \<and> vend = 4 \<and> eq_ignore (take 4 line) ''HPUB'' then
            pub_line line rest has_args True lim
          else if c = CHR ''c'' \<and> length line \<ge> 7 \<and> eq_ignore (take 7 line) ''CONNECT'' then
            (case arg_at (drop 7 line) of
               Some i \<Rightarrow> Inr (ActEvent (Connect (drop (7 + i) line)))
             | None \<Rightarrow> Inl Silent)
          else if c = CHR ''i'' \<and> length line \<ge> 4 \<and> eq_ignore (take 4 line) ''INFO'' then
            (case arg_at (drop 4 line) of
               Some i \<Rightarrow> Inr (ActEvent (Info (drop (4 + i) line)))
             | None \<Rightarrow> Inl Silent)
          else if c = CHR ''+'' \<and> vend = 3 \<and> eq_ignore (take 3 line) ''+OK'' then
            Inr (ActEvent ClientOk)
          else if c = CHR ''-'' \<and> vend = 4 \<and> eq_ignore (take 4 line) ''-ERR'' then
            (if \<not> has_args then Inl (Fatal UNKNOWN_OP) else Inr (ActEvent ClientErr))
          else if c = CHR ''s'' \<and> vend = 3 \<and> eq_ignore (take 3 line) ''SUB'' then
            (if \<not> has_args then Inl (Fatal UNKNOWN_OP)
             else if args_len args = 2 then
               Inr (ActEvent (subscribe (args_slice args line 0) None (args_slice args line 1)))
             else if args_len args = 3 then
               Inr (ActEvent (subscribe (args_slice args line 0) (Some (args_slice args line 1))
                                (args_slice args line 2)))
             else Inl Silent)
          else if c = CHR ''u'' \<and> vend = 5 \<and> eq_ignore (take 5 line) ''UNSUB'' then
            (if \<not> has_args then Inl (Fatal UNKNOWN_OP)
             else if args_len args = 1 then
               Inr (ActEvent (Unsubscribe (args_slice args line 0) (-1)))
             else if args_len args = 2 then
               Inr (ActEvent (Unsubscribe (args_slice args line 0) (parse_size (args_slice args line 1))))
             else Inl Silent)
          else Inl (Fatal UNKNOWN_OP))"

section \<open>The state machine over the stream\<close>

text \<open>
  One turn of the \<^verbatim>\<open>loop\<close> of \<^verbatim>\<open>feed_into\<close> on the parser state, the buffer and the batch: the
  left summand goes round again, the right one is what the call returns, with the state,
  buffer and batch it leaves behind. The guard on an unbounded line multiplies two \<^verbatim>\<open>usize\<close>
  values, which wraps in a release build.
\<close>

type_synonym feed_state = "State \<times> bytes \<times> Event list"
type_synonym feed_return = "State \<times> bytes \<times> Event list \<times> (ProtoError + unit)"

definition hpub_frame_error :: "bool \<Rightarrow> Event list \<Rightarrow> Event list \<times> (ProtoError + unit)" where
  "hpub_frame_error hpub out =
     (if hpub then (out @ [HpubAttempt (HFrame UNKNOWN_OP)], Inr ())
      else (out, Inl (Fatal UNKNOWN_OP)))"

text \<open>The arm \<^verbatim>\<open>State::Line\<close>, and what it does with the action of the line.\<close>

fun on_action :: "Action \<Rightarrow> bytes \<Rightarrow> Event list \<Rightarrow> feed_state + feed_return" where
  "on_action (ActEvent ev) src out =
     (if ev = HpubAttempt HArgs then Inr (Line, src, out @ [ev], Inr ())
      else Inl (Line, src, out @ [ev]))"
| "on_action (ActBody subject reply hdr need hpub) src out =
     Inl (Body subject reply hdr need hpub parts_new, src,
          if hpub then out @ [HpubAttempt HOk] else out)"

definition line_turn :: "Limits \<Rightarrow> bytes \<Rightarrow> Event list \<Rightarrow> feed_state + feed_return" where
  "line_turn lim src out =
     (if src \<noteq> [] \<and> hd src = LF then Inr (Line, src, out, Inl (Fatal UNKNOWN_OP))
      else case find_crlf src of
        None \<Rightarrow>
          if length src > (max_control_line lim * 16) mod 2 ^ 64
          then Inr (Line, src, out, Inl (Fatal MAX_CONTROL_LINE_ERR))
          else Inr (Line, src, out, Inr ())
      | Some at \<Rightarrow>
          if at > max_control_line lim
          then Inr (Line, src, out, Inl (Fatal MAX_CONTROL_LINE_ERR))
          else let line = take at src; src' = drop 2 (drop at src) in
            case parse_line line lim of
              Inl e \<Rightarrow> Inr (Line, src', out, Inl e)
            | Inr act \<Rightarrow> on_action act src' out)"

text \<open>The arm \<^verbatim>\<open>State::Body\<close>: take what is there, then look for the terminator.\<close>

definition body_end :: "State \<Rightarrow> bool \<Rightarrow> bytes \<Rightarrow> Event list \<Rightarrow> Event \<Rightarrow> feed_state + feed_return" where
  "body_end st hpub src out done =
     (case src of
        [] \<Rightarrow> Inr (hoist st, src, out, Inr ())
      | b # bs \<Rightarrow>
          if b = CR then
            (case bs of
               [] \<Rightarrow> Inr (hoist st, src, out, Inr ())
             | b2 # bs' \<Rightarrow>
                 if b2 \<noteq> LF
                 then (case hpub_frame_error hpub out of (out', r) \<Rightarrow> Inr (st, src, out', r))
                 else Inl (Line, bs', out @ [done]))
          else (case hpub_frame_error hpub out of (out', r) \<Rightarrow> Inr (st, src, out', r)))"

definition body_take :: "nat \<Rightarrow> Parts \<Rightarrow> bytes \<Rightarrow> Parts \<times> bytes" where
  "body_take need parts src =
     (let n = min (need - p_got parts) (length src) in
      (if n > 0 then parts_push (take n src) parts else parts, drop n src))"

fun feed_step :: "Limits \<Rightarrow> State \<Rightarrow> bytes \<Rightarrow> Event list \<Rightarrow> feed_state + feed_return" where
  "feed_step lim Line src out = line_turn lim src out"
| "feed_step lim (Body subject reply hdr need hpub parts) src out =
     (case body_take need parts src of
        (parts', src') \<Rightarrow>
          let st' = Body subject reply hdr need hpub parts'; body = fst (take_body parts') in
          if p_got parts' < need then Inr (hoist st', src', out, Inr ())
          else body_end st' hpub src' out (Publish subject reply hdr (length body) body hpub))"

lemma find_crlf_bound: "find_crlf buf = Some i \<Longrightarrow> i + 2 \<le> length buf"
  by (auto simp: find_crlf_def split: if_splits dest!: position_SomeD)

lemma on_action_src: "on_action act src out = Inl (st', src', out') \<Longrightarrow> src' = src"
  by (cases act) (auto split: if_splits)

lemma line_turn_shrinks: "line_turn lim src out = Inl (st', src', out') \<Longrightarrow> length src' < length src"
  by (auto simp: line_turn_def Let_def split: if_splits option.splits sum.splits
      dest!: find_crlf_bound on_action_src)

lemma body_end_shrinks: "body_end st hpub src out ev = Inl (st', src', out') \<Longrightarrow> length src' < length src"
  by (auto simp: body_end_def hpub_frame_error_def split: list.splits if_splits)

lemma feed_step_shrinks:
  "feed_step lim st src out = Inl (st', src', out') \<Longrightarrow> length src' < length src"
  by (cases st)
    (auto simp: line_turn_shrinks body_take_def Let_def split: if_splits dest!: body_end_shrinks)

function feed_into :: "Limits \<Rightarrow> State \<Rightarrow> bytes \<Rightarrow> Event list \<Rightarrow> feed_return" where
  "feed_into lim st src out =
     (case feed_step lim st src out of
        Inl (st', src', out') \<Rightarrow> feed_into lim st' src' out'
      | Inr r \<Rightarrow> r)"
  by pat_completeness auto
termination
  by (relation "measure (\<lambda>(lim, st, src, out). length src)") (auto dest: feed_step_shrinks)

declare feed_into.simps [simp del]

text \<open>\<^verbatim>\<open>feed\<close>: a fresh batch.\<close>

definition feed :: "Limits \<Rightarrow> State \<Rightarrow> bytes \<Rightarrow> State \<times> bytes \<times> (ProtoError + Event list)" where
  "feed lim st src =
     (case feed_into lim st src [] of
        (st', src', out, Inl e) \<Rightarrow> (st', src', Inl e)
      | (st', src', out, Inr _) \<Rightarrow> (st', src', Inr out))"

end
