(* ===== verification/Proto_Lines.thy ===== *)
theory Proto_Lines
  imports Proto
begin

text \<open>
  What one control line means: the argument splitter against a reference splitter, the size
  parser against the decimal value, case folding of the verbs, and the lines that
  well-formed clients send (\<^verbatim>\<open>PUB\<close>, \<^verbatim>\<open>HPUB\<close>, \<^verbatim>\<open>SUB\<close>, \<^verbatim>\<open>UNSUB\<close>) with the operation each of them
  is read as.
\<close>

section \<open>The argument splitter\<close>

text \<open>The reference splitter: the maximal runs of non-blank bytes.\<close>

definition words :: "bytes \<Rightarrow> bytes list" where
  "words s = filter (\<lambda>t. t \<noteq> []) (split_on is_blank s)"

definition no_blank :: "bytes \<Rightarrow> bool" where
  "no_blank t \<longleftrightarrow> (\<forall>b\<in>set t. \<not> is_blank b)"

lemma no_blank_simps [simp]:
  "no_blank []"
  "no_blank (x # xs) \<longleftrightarrow> \<not> is_blank x \<and> no_blank xs"
  "no_blank (xs @ ys) \<longleftrightarrow> no_blank xs \<and> no_blank ys"
  by (auto simp: no_blank_def)

lemma words_Nil [simp]: "words [] = []"
  by (simp add: words_def)

lemma words_blank [simp]: "is_blank b \<Longrightarrow> words (b # s) = words s"
  by (simp add: words_def)

lemma words_single: "no_blank t \<Longrightarrow> t \<noteq> [] \<Longrightarrow> words t = [t]"
  by (simp add: words_def no_blank_def split_on_no_sep)

lemma words_append_blank: "no_blank t \<Longrightarrow> t \<noteq> [] \<Longrightarrow> is_blank b \<Longrightarrow> words (t @ b # s) = t # words s"
  by (simp add: words_def no_blank_def split_on_append_sep)

text \<open>A list of ranges represents a list of words of the line.\<close>

definition args_rep :: "bytes \<Rightarrow> nat \<Rightarrow> Args \<Rightarrow> bytes list \<Rightarrow> bool" where
  "args_rep line base a ws \<longleftrightarrow>
     a_len a = length ws \<and> length (a_range a) = MAX_ARGS \<and> a_base a = base \<and>
     (\<forall>i < min (length ws) MAX_ARGS. args_slice a line i = ws ! i)"

lemma args_rep_push:
  assumes "args_rep line base a ws" and "slice (base + from) (base + to) line = w"
  shows "args_rep line base (args_push from to a) (ws @ [w])"
  using assms
  by (auto simp: args_rep_def args_push_def Let_def args_slice_def nth_append nth_list_update
      less_Suc_eq split: if_splits prod.splits)

definition args_fin :: "nat \<Rightarrow> nat option \<times> Args \<Rightarrow> Args" where
  "args_fin n r = (case r of (Some st, a) \<Rightarrow> args_push st n a | (None, a) \<Rightarrow> a)"

lemma args_of_fin:
  "args_of s base =
     args_fin (length s) (args_loop 0 s None \<lparr>a_range = replicate MAX_ARGS (0, 0), a_len = 0, a_base = base\<rparr>)"
  by (auto simp: args_of_def args_fin_def split: prod.splits option.splits)

lemma slice_word:
  assumes "line = pre @ seen @ bs" "st \<le> length seen"
  shows "slice (length pre + st) (length pre + length seen) line = drop st seen"
  using assms by (simp add: slice_def)

lemma args_loop_rep:
  assumes "args_rep line (length pre) a ws"
    and "line = pre @ seen @ bs"
    and "start = None \<Longrightarrow> cur = []"
    and "\<And>st. start = Some st \<Longrightarrow> st \<le> length seen \<and> cur = drop st seen \<and> cur \<noteq> [] \<and> no_blank cur"
  shows "args_rep line (length pre)
           (args_fin (length seen + length bs) (args_loop (length seen) bs start a))
           (ws @ words (cur @ bs))"
  using assms
proof (induction bs arbitrary: seen start a ws cur)
  case Nil
  then show ?case
    by (cases start)
      (auto simp: args_fin_def words_single slice_word intro!: args_rep_push)
next
  case (Cons b bs)
  note IH = Cons.IH [where seen = "seen @ [b]", simplified]
  show ?case
  proof (cases "is_blank b")
    case True
    show ?thesis
    proof (cases start)
      case None
      with Cons.prems True IH [of a ws None "[]"] show ?thesis by simp
    next
      case (Some st)
      with Cons.prems have cur: "st \<le> length seen" "cur = drop st seen" "cur \<noteq> []" "no_blank cur"
        by auto
      have "args_rep line (length pre) (args_push st (length seen) a) (ws @ [cur])"
        using Cons.prems cur by (auto intro!: args_rep_push slice_word)
      with Cons.prems True Some cur IH [of _ "ws @ [cur]" None "[]"] show ?thesis
        by (simp add: words_append_blank)
    qed
  next
    case False
    show ?thesis
    proof (cases start)
      case None
      with Cons.prems False IH [of a ws "Some (length seen)" "[b]"] show ?thesis by simp
    next
      case (Some st)
      with Cons.prems False IH [of a ws "Some st" "cur @ [b]"] show ?thesis by auto
    qed
  qed
qed

lemma args_of_rep: "args_rep (pre @ s) (length pre) (args_of s (length pre)) (words s)"
  using args_loop_rep [where seen = "[]" and bs = s and start = None and cur = "[]" and ws = "[]" and pre = pre]
  by (simp add: args_of_fin args_rep_def)

lemma args_len_words [simp]: "args_len (args_of s base) = min (length (words s)) MAX_ARGS"
  using args_of_rep [of "replicate base undefined" s] by (simp add: args_rep_def args_len_def)

lemma args_slice_words [simp]:
  "base = length pre \<Longrightarrow> i < length (words s) \<Longrightarrow> i < MAX_ARGS \<Longrightarrow>
     args_slice (args_of s base) (pre @ s) i = words s ! i"
  using args_of_rep [of pre s] by (simp add: args_rep_def)

section \<open>Sizes\<close>

lemma parse_size_loop_digits:
  "\<forall>b\<in>set d. is_ascii_digit b \<Longrightarrow>
     parse_size_loop (int n) d = int (foldl (\<lambda>n b. n * 10 + digit_val b) n d)"
proof (induction d arbitrary: n)
  case (Cons b d)
  then show ?case using Cons.IH [of "n * 10 + digit_val b"] by (simp add: algebra_simps)
qed simp

lemma parse_size_loop_bad: "\<not> (\<forall>b\<in>set d. is_ascii_digit b) \<Longrightarrow> parse_size_loop n d = -1"
  by (induction d arbitrary: n) auto

lemma parse_size_alt:
  "parse_size d =
     (if d \<noteq> [] \<and> length d \<le> 9 \<and> (\<forall>b\<in>set d. is_ascii_digit b) then int (dec_val d) else -1)"
  using parse_size_loop_digits [of d 0]
  by (auto simp: parse_size_def dec_val_def parse_size_loop_bad)

lemma dec_val_bound: "\<forall>b\<in>set d. is_ascii_digit b \<Longrightarrow> dec_val d < 10 ^ length d"
proof (induction d rule: rev_induct)
  case (snoc b d)
  then have "dec_val d < 10 ^ length d" "digit_val b < 10"
    by (auto simp: digit_val_lt_10)
  then show ?case by simp
qed (simp add: dec_val_def)

lemma parse_size_bound: "parse_size d < 10 ^ 9"
proof (cases "d \<noteq> [] \<and> length d \<le> 9 \<and> (\<forall>b\<in>set d. is_ascii_digit b)")
  case True
  then have "dec_val d < 10 ^ length d" by (simp add: dec_val_bound)
  also have "(10::nat) ^ length d \<le> 10 ^ 9" using True by (intro power_increasing) auto
  finally show ?thesis using True by (simp add: parse_size_alt)
qed (auto simp: parse_size_alt)

lemma parse_size_show: "n < 10 ^ 9 \<Longrightarrow> parse_size (show_nat n) = int n"
  using length_show_nat [of 9 n] show_nat_digits [of _ n] by (auto simp: parse_size_alt)

lemma parse_size_ge: "parse_size d \<ge> -1"
  by (auto simp: parse_size_alt)


section \<open>Lines a client sends\<close>

text \<open>A plain token: not empty, no blank, no line-end byte.\<close>

definition plain :: "bytes \<Rightarrow> bool" where
  "plain t \<longleftrightarrow> t \<noteq> [] \<and> (\<forall>b\<in>set t. b \<noteq> SP \<and> b \<noteq> TAB \<and> b \<noteq> CR \<and> b \<noteq> LF)"

lemma plain_no_blank: "plain t \<Longrightarrow> no_blank t \<and> t \<noteq> []"
  by (auto simp: plain_def no_blank_def is_blank_def)

lemma plain_show_nat [simp]: "plain (show_nat n)"
  using show_nat_digits [of _ n] digit_not_ctl by (auto simp: plain_def)

lemma words_plain [simp]:
  "plain t \<Longrightarrow> words t = [t]"
  "plain t \<Longrightarrow> words (t @ SP # s) = t # words s"
  using plain_no_blank [of t] by (auto simp: words_single words_append_blank is_blank_def)

lemma verb_end_simps [simp]:
  "is_blank b \<Longrightarrow> verb_end (b # s) = 0"
  "\<not> is_blank b \<Longrightarrow> verb_end (b # s) = Suc (verb_end s)"
  "verb_end [] = 0"
  by (auto simp: verb_end_def split: option.split)

lemma words_SP [simp]: "words (SP # s) = words s"
  by (simp add: is_blank_def)

lemma eq_ignore_Cons [simp]:
  "eq_ignore [] []"
  "eq_ignore (a # as) (b # bs) \<longleftrightarrow> eq_ignore_ascii_case a b \<and> eq_ignore as bs"
  "\<not> eq_ignore [] (b # bs)" "\<not> eq_ignore (a # as) []"
  by (auto simp: eq_ignore_def)

lemma eq_ignore_length: "eq_ignore v w \<Longrightarrow> length v = length w"
  by (simp add: eq_ignore_def)

lemma eq_ignore_Cons2: "eq_ignore v (b # bs) \<longleftrightarrow> (\<exists>a as. v = a # as \<and> eq_ignore_ascii_case a b \<and> eq_ignore as bs)"
  by (cases v) auto

lemma eq_ignore_Nil2: "eq_ignore v [] \<longleftrightarrow> v = []"
  by (cases v) auto

lemma fold_letter [byte_simps]:
  "to_ascii_lowercase (CHR ''A'') = CHR ''a''" "to_ascii_lowercase (CHR ''B'') = CHR ''b''"
  "to_ascii_lowercase (CHR ''C'') = CHR ''c''" "to_ascii_lowercase (CHR ''E'') = CHR ''e''"
  "to_ascii_lowercase (CHR ''F'') = CHR ''f''" "to_ascii_lowercase (CHR ''G'') = CHR ''g''"
  "to_ascii_lowercase (CHR ''H'') = CHR ''h''" "to_ascii_lowercase (CHR ''I'') = CHR ''i''"
  "to_ascii_lowercase (CHR ''K'') = CHR ''k''" "to_ascii_lowercase (CHR ''N'') = CHR ''n''"
  "to_ascii_lowercase (CHR ''O'') = CHR ''o''" "to_ascii_lowercase (CHR ''P'') = CHR ''p''"
  "to_ascii_lowercase (CHR ''R'') = CHR ''r''" "to_ascii_lowercase (CHR ''S'') = CHR ''s''"
  "to_ascii_lowercase (CHR ''T'') = CHR ''t''" "to_ascii_lowercase (CHR ''U'') = CHR ''u''"
  "to_ascii_lowercase (CHR ''+'') = CHR ''+''" "to_ascii_lowercase (CHR ''-'') = CHR ''-''"
  "to_ascii_lowercase SP = SP" "to_ascii_lowercase TAB = TAB"
  by (simp_all add: to_ascii_lowercase_def char_of_def bit_iff_odd)

lemma fold_not_blank: "to_ascii_lowercase a \<noteq> SP \<Longrightarrow> to_ascii_lowercase a \<noteq> TAB \<Longrightarrow> \<not> is_blank a"
  by (auto simp: is_blank_def byte_simps)

lemmas verb_simps = eq_ignore_Cons2 eq_ignore_Nil2 eq_ignore_ascii_case_def byte_simps starts_def

text \<open>What the words of a publish line mean, by arity.\<close>

definition bad_pub :: "bool \<Rightarrow> ProtoError + Action" where
  "bad_pub hpub = (if hpub then Inr (ActEvent (HpubAttempt HArgs)) else Inl Silent)"

definition pub_sized :: "Limits \<Rightarrow> bool \<Rightarrow> bytes \<Rightarrow> bytes option \<Rightarrow> int \<Rightarrow> int \<Rightarrow> ProtoError + Action" where
  "pub_sized lim hpub s r hdr n =
     (if hdr < 0 \<or> n < 0 \<or> hdr > n then bad_pub hpub
      else if nat n > max_payload lim then Inl (Fatal MAX_PAYLOAD_ERR)
      else Inr (ActBody s r (nat hdr) (nat n) hpub))"

fun pub_meaning :: "Limits \<Rightarrow> bool \<Rightarrow> bytes list \<Rightarrow> ProtoError + Action" where
  "pub_meaning lim False [s, n] = pub_sized lim False s None 0 (parse_size n)"
| "pub_meaning lim False [s, r, n] = pub_sized lim False s (Some r) 0 (parse_size n)"
| "pub_meaning lim True [s, h, n] = pub_sized lim True s None (parse_size h) (parse_size n)"
| "pub_meaning lim True [s, r, h, n] = pub_sized lim True s (Some r) (parse_size h) (parse_size n)"
| "pub_meaning lim hpub _ = bad_pub hpub"

lemma pub_meaning_cases:
  "length ws \<noteq> 2 \<Longrightarrow> length ws \<noteq> 3 \<Longrightarrow> pub_meaning lim False ws = bad_pub False"
  "length ws \<noteq> 3 \<Longrightarrow> length ws \<noteq> 4 \<Longrightarrow> pub_meaning lim True ws = bad_pub True"
  by (cases "(lim, False, ws)" rule: pub_meaning.cases; simp)
    (cases "(lim, True, ws)" rule: pub_meaning.cases; simp)

lemma pub_line_meaning:
  assumes line: "line = v @ rest"
  shows "pub_line line rest True hpub lim = pub_meaning lim hpub (words rest)"
proof -
  have len: "length line - length rest = length v" using line by simp
  have sl: "i < length (words rest) \<Longrightarrow> i < 5 \<Longrightarrow>
      args_slice (args_of rest (length v)) line i = words rest ! i" for i
    using line by (simp add: MAX_ARGS_def)
  note defs = pub_line_def len Let_def pub_sized_def bad_pub_def pub_shape_def MAX_ARGS_def
  consider (two) "length (words rest) = 2" | (three) "length (words rest) = 3"
    | (four) "length (words rest) = 4"
    | (other) "length (words rest) \<noteq> 2" "length (words rest) \<noteq> 3" "length (words rest) \<noteq> 4"
    by blast
  then show ?thesis
  proof cases
    case two
    then obtain a b where "words rest = [a, b]" by (auto simp: numeral_eq_Suc length_Suc_conv)
    with sl [of 0] sl [of 1] show ?thesis by (cases hpub) (simp_all add: defs)
  next
    case three
    then obtain a b c where "words rest = [a, b, c]" by (auto simp: numeral_eq_Suc length_Suc_conv)
    with sl [of 0] sl [of 1] sl [of 2] show ?thesis by (cases hpub) (simp_all add: defs)
  next
    case four
    then obtain a b c d where "words rest = [a, b, c, d]"
      by (auto simp: numeral_eq_Suc length_Suc_conv)
    with sl [of 0] sl [of 1] sl [of 2] sl [of 3] show ?thesis by (cases hpub) (simp_all add: defs)
  next
    case other
    then show ?thesis by (cases hpub) (auto simp: defs pub_meaning_cases min_def)
  qed
qed

fun sub_meaning :: "bytes list \<Rightarrow> ProtoError + Action" where
  "sub_meaning [s, i] = Inr (ActEvent (Subscribe s None i))"
| "sub_meaning [s, q, i] = Inr (ActEvent (Subscribe s (Some q) i))"
| "sub_meaning _ = Inl Silent"

fun unsub_meaning :: "bytes list \<Rightarrow> ProtoError + Action" where
  "unsub_meaning [i] = Inr (ActEvent (Unsubscribe i (-1)))"
| "unsub_meaning [i, n] = Inr (ActEvent (Unsubscribe i (parse_size n)))"
| "unsub_meaning _ = Inl Silent"

lemma verb_no_blank: "eq_ignore v w \<Longrightarrow> no_blank (map to_ascii_lowercase w) \<Longrightarrow> no_blank v"
proof (induction w arbitrary: v)
  case Nil
  then show ?case by (simp add: eq_ignore_Nil2)
next
  case (Cons b w)
  then show ?case
    by (auto simp: eq_ignore_Cons2 eq_ignore_ascii_case_def is_blank_def byte_simps)
qed

lemma is_blank_SP [simp]: "is_blank SP"
  by (simp add: is_blank_def)

lemma fold_nb:
  "to_ascii_lowercase a = c \<Longrightarrow> c \<noteq> SP \<Longrightarrow> c \<noteq> TAB \<Longrightarrow> \<not> is_blank a"
  using fold_not_blank by blast

lemma parse_line_PUB:
  assumes "eq_ignore v ''PUB''"
  shows "parse_line (v @ SP # s) lim = pub_meaning lim False (words s)"
proof -
  from assms obtain a b c where v: "v = [a, b, c]" and low: "to_ascii_lowercase a = CHR ''p''"
    "to_ascii_lowercase b = CHR ''u''" "to_ascii_lowercase c = CHR ''b''"
    by (auto simp: verb_simps)
  note nb = low [THEN fold_nb, simplified]
  show ?thesis
    using pub_line_meaning [of "v @ SP # s" v "SP # s" False lim]
    by (simp add: parse_line_def v nb low verb_simps Let_def)
qed

lemma parse_line_HPUB:
  assumes "eq_ignore v ''HPUB''"
  shows "parse_line (v @ SP # s) lim = pub_meaning lim True (words s)"
proof -
  from assms obtain a b c d where v: "v = [a, b, c, d]" and low: "to_ascii_lowercase a = CHR ''h''"
    "to_ascii_lowercase b = CHR ''p''" "to_ascii_lowercase c = CHR ''u''" "to_ascii_lowercase d = CHR ''b''"
    by (auto simp: verb_simps)
  note nb = low [THEN fold_nb, simplified]
  show ?thesis
    using pub_line_meaning [of "v @ SP # s" v "SP # s" True lim]
    by (simp add: parse_line_def v nb low verb_simps Let_def)
qed

lemma parse_line_SUB:
  assumes "eq_ignore v ''SUB''"
  shows "parse_line (v @ SP # s) lim = sub_meaning (words s)"
proof -
  from assms obtain a b c where v: "v = [a, b, c]" and low: "to_ascii_lowercase a = CHR ''s''"
    "to_ascii_lowercase b = CHR ''u''" "to_ascii_lowercase c = CHR ''b''"
    by (auto simp: verb_simps)
  note nb = low [THEN fold_nb, simplified]
  have sl: "i < length (words s) \<Longrightarrow> i < 5 \<Longrightarrow>
      args_slice (args_of (SP # s) (Suc (Suc (Suc 0)))) (a # b # c # SP # s) i = words s ! i" for i
    using args_slice_words [of "Suc (Suc (Suc 0))" v i "SP # s"] by (simp add: v MAX_ARGS_def)
  show ?thesis
    by (cases "words s" rule: sub_meaning.cases)
      (simp_all add: parse_line_def v nb low verb_simps Let_def sl MAX_ARGS_def subscribe_def)
qed

lemma parse_line_UNSUB:
  assumes "eq_ignore v ''UNSUB''"
  shows "parse_line (v @ SP # s) lim = unsub_meaning (words s)"
proof -
  from assms obtain a b c d e where v: "v = [a, b, c, d, e]" and low: "to_ascii_lowercase a = CHR ''u''"
    "to_ascii_lowercase b = CHR ''n''" "to_ascii_lowercase c = CHR ''s''"
    "to_ascii_lowercase d = CHR ''u''" "to_ascii_lowercase e = CHR ''b''"
    by (auto simp: verb_simps)
  note nb = low [THEN fold_nb, simplified]
  have sl: "i < length (words s) \<Longrightarrow> i < 5 \<Longrightarrow>
      args_slice (args_of (SP # s) (Suc (Suc (Suc (Suc (Suc 0)))))) (a # b # c # d # e # SP # s) i = words s ! i" for i
    using args_slice_words [of "Suc (Suc (Suc (Suc (Suc 0))))" v i "SP # s"] by (simp add: v MAX_ARGS_def)
  show ?thesis
    by (cases "words s" rule: unsub_meaning.cases)
      (simp_all add: parse_line_def v nb low verb_simps Let_def sl MAX_ARGS_def)
qed

text \<open>The prefix verbs: whatever follows the four letters of \<^verbatim>\<open>PING\<close> and \<^verbatim>\<open>PONG\<close> is skipped.\<close>

lemma parse_line_PING:
  assumes "eq_ignore v ''PING''"
  shows "parse_line (v @ s) lim = Inr (ActEvent Ping)"
proof -
  from assms obtain a b c d where v: "v = [a, b, c, d]" and low: "to_ascii_lowercase a = CHR ''p''"
    "to_ascii_lowercase b = CHR ''i''" "to_ascii_lowercase c = CHR ''n''" "to_ascii_lowercase d = CHR ''g''"
    by (auto simp: verb_simps)
  show ?thesis by (simp add: parse_line_def v low verb_simps)
qed

lemma parse_line_PONG:
  assumes "eq_ignore v ''PONG''"
  shows "parse_line (v @ s) lim = Inr (ActEvent Pong)"
proof -
  from assms obtain a b c d where v: "v = [a, b, c, d]" and low: "to_ascii_lowercase a = CHR ''p''"
    "to_ascii_lowercase b = CHR ''o''" "to_ascii_lowercase c = CHR ''n''" "to_ascii_lowercase d = CHR ''g''"
    by (auto simp: verb_simps)
  show ?thesis by (simp add: parse_line_def v low verb_simps)
qed

lemma arg_at_dropWhile:
  "(case arg_at s of Some i \<Rightarrow> f (drop i s) | None \<Rightarrow> e) =
     (case dropWhile is_blank s of [] \<Rightarrow> e | t # ts \<Rightarrow> f (t # ts))"
  by (induction s) (auto simp: arg_at_def option.case_distrib [of "case_option _ _"] split: option.splits)

lemma parse_line_CONNECT:
  assumes "eq_ignore v ''CONNECT''"
  shows "parse_line (v @ s) lim =
    (case dropWhile is_blank s of [] \<Rightarrow> Inl Silent | t # ts \<Rightarrow> Inr (ActEvent (Connect (t # ts))))"
proof -
  from assms obtain a b c d e f g where v: "v = [a, b, c, d, e, f, g]"
    and low: "to_ascii_lowercase a = CHR ''c''" "to_ascii_lowercase b = CHR ''o''"
    "to_ascii_lowercase c = CHR ''n''" "to_ascii_lowercase d = CHR ''n''" "to_ascii_lowercase e = CHR ''e''"
    "to_ascii_lowercase f = CHR ''c''" "to_ascii_lowercase g = CHR ''t''"
    by (auto simp: verb_simps)
  have "drop (7 + i) (v @ s) = drop i s" for i by (simp add: v numeral_eq_Suc)
  then show ?thesis
    using arg_at_dropWhile [where s = s and f = "\<lambda>t. Inr (ActEvent (Connect t))" and e = "Inl Silent"]
    by (simp add: parse_line_def v low verb_simps cong: option.case_cong)
qed

text \<open>A verb that needs arguments and has no separator after it is an unknown operation.\<close>

lemma parse_line_bare:
  "parse_line ''PUB'' lim = Inl (Fatal UNKNOWN_OP)"
  "parse_line ''HPUB'' lim = Inl (Fatal UNKNOWN_OP)"
  "parse_line ''SUB'' lim = Inl (Fatal UNKNOWN_OP)"
  "parse_line ''UNSUB'' lim = Inl (Fatal UNKNOWN_OP)"
  "parse_line ''-ERR'' lim = Inl (Fatal UNKNOWN_OP)"
  "parse_line [] lim = Inl (Fatal UNKNOWN_OP)"
  by (simp_all add: parse_line_def pub_line_def verb_simps Let_def is_blank_def)

section \<open>The classes a line can fail with\<close>

lemma pub_line_err: "pub_line line rest a h lim = Inl e \<Longrightarrow> closes e"
  by (auto simp: pub_line_def Let_def split: if_splits option.splits prod.splits)

lemma pub_line_body:
  "pub_line line rest a h lim = Inr (ActBody s r hdr need hpub) \<Longrightarrow>
     hdr \<le> need \<and> need \<le> max_payload lim \<and> need < 10 ^ 9 \<and> hpub = h \<and> (\<not> hpub \<longrightarrow> hdr = 0)"
  using parse_size_bound
  by (auto simp: pub_line_def Let_def nat_less_iff not_less
      split: if_splits option.splits prod.splits intro: nat_mono)

text \<open>Every outcome of a control line is a closing error, an event, or a publish line.\<close>

fun line_event :: "Event \<Rightarrow> bool" where
  "line_event (Publish s r hdr n body hpub) = False"
| "line_event (HpubAttempt w) = False"
| "line_event _ = True"

definition line_leaf :: "bytes \<Rightarrow> Limits \<Rightarrow> ProtoError + Action \<Rightarrow> bool" where
  "line_leaf line lim r \<longleftrightarrow>
     (\<exists>e. closes e \<and> r = Inl e) \<or> (\<exists>ev. r = Inr (ActEvent ev) \<and> line_event ev) \<or>
     (\<exists>rest a h. r = pub_line line rest a h lim)"

lemma line_leaf_intros:
  "line_leaf line lim (Inl (Fatal t))" "line_leaf line lim (Inl Silent)"
  "line_leaf line lim (Inr (ActEvent Ping))" "line_leaf line lim (Inr (ActEvent Pong))"
  "line_leaf line lim (Inr (ActEvent (Connect b)))" "line_leaf line lim (Inr (ActEvent (Info b)))"
  "line_leaf line lim (Inr (ActEvent ClientOk))" "line_leaf line lim (Inr (ActEvent ClientErr))"
  "line_leaf line lim (Inr (ActEvent (subscribe s q i)))"
  "line_leaf line lim (Inr (ActEvent (Unsubscribe i n)))"
  "line_leaf line lim x \<Longrightarrow> line_leaf line lim y \<Longrightarrow> line_leaf line lim (if c then x else y)"
  "(\<And>i. line_leaf line lim (f i)) \<Longrightarrow> line_leaf line lim y \<Longrightarrow>
     line_leaf line lim (case w of Some i \<Rightarrow> f i | None \<Rightarrow> y)"
  by (auto simp: line_leaf_def subscribe_def split: option.split)

lemma line_leaf_pub: "line_leaf line lim (pub_line line rest a h lim)"
  unfolding line_leaf_def by blast

lemma parse_line_leaf: "line_leaf line lim (parse_line line lim)"
  unfolding parse_line_def Let_def by (intro line_leaf_intros line_leaf_pub)

lemma parse_line_err: "parse_line line lim = Inl e \<Longrightarrow> closes e"
  using parse_line_leaf [of line lim] by (auto simp: line_leaf_def dest: pub_line_err sym)

lemma parse_line_body:
  "parse_line line lim = Inr (ActBody s r hdr need hpub) \<Longrightarrow>
     hdr \<le> need \<and> need \<le> max_payload lim \<and> need < 10 ^ 9 \<and> (\<not> hpub \<longrightarrow> hdr = 0)"
  using parse_line_leaf [of line lim] by (auto simp: line_leaf_def dest: pub_line_body [OF sym])

lemma parse_line_event:
  assumes "parse_line line lim = Inr (ActEvent ev)"
  shows "line_event ev \<or> ev = HpubAttempt HArgs"
proof -
  have "pub_line line rest a h lim = Inr (ActEvent ev) \<Longrightarrow> ev = HpubAttempt HArgs" for rest a h
    by (auto simp: pub_line_def Let_def split: if_splits option.splits prod.splits)
  with assms parse_line_leaf [of line lim] show ?thesis by (fastforce simp: line_leaf_def)
qed

section \<open>Properties\<close>

text \<open>The fixed-size argument table of \<^verbatim>\<open>Args\<close> holds the first five maximal runs of non-blank bytes
  of the argument text, as slices of the whole line.\<close>

theorem args_are_the_words:
  "map (args_slice (args_of s (length pre)) (pre @ s)) [0..<args_len (args_of s (length pre))] =
     take MAX_ARGS (words s)"
  by (rule nth_equalityI) simp_all

text \<open>\<^verbatim>\<open>parse_size\<close> accepts one to nine decimal digits and returns their value; everything else is -1.
  It is therefore below 10^9 and reads back every size the server prints.\<close>

theorem parse_size_correct:
  "parse_size d =
     (if d \<noteq> [] \<and> length d \<le> 9 \<and> list_all is_ascii_digit d then int (dec_val d) else -1) \<and>
   parse_size d < 10 ^ 9 \<and> parse_size (show_nat (n mod 10 ^ 9)) = int (n mod 10 ^ 9)"
  using parse_size_bound [of d] parse_size_show [of "n mod 10 ^ 9"]
  by (simp add: parse_size_alt list_all_iff)

text \<open>C20. In any mix of cases the four verbs with arguments mean what their words say, by arity: what
  is published or subscribed, with which sizes, and which error or outcome a wrong shape gives.\<close>

theorem verb_lines_meaning:
  "(eq_ignore v ''PUB'' \<longrightarrow> parse_line (v @ SP # s) lim = pub_meaning lim False (words s)) \<and>
   (eq_ignore v ''HPUB'' \<longrightarrow> parse_line (v @ SP # s) lim = pub_meaning lim True (words s)) \<and>
   (eq_ignore v ''SUB'' \<longrightarrow> parse_line (v @ SP # s) lim = sub_meaning (words s)) \<and>
   (eq_ignore v ''UNSUB'' \<longrightarrow> parse_line (v @ SP # s) lim = unsub_meaning (words s))"
  by (simp add: parse_line_PUB parse_line_HPUB parse_line_SUB parse_line_UNSUB)

theorem verb_lines_meaning_witness:
  "parse_line (''sUb'' @ SP # ''foo  q 1'') default_limits =
     Inr (ActEvent (Subscribe ''foo'' (Some ''q'') ''1'')) \<and>
   parse_line (''hpub'' @ SP # ''foo 4 2'') default_limits = Inr (ActEvent (HpubAttempt HArgs))"
proof -
  have "eq_ignore ''sUb'' ''SUB''" "words ''foo  q 1'' = [''foo'', ''q'', ''1'']"
    "eq_ignore ''hpub'' ''HPUB''" "pub_meaning default_limits True (words ''foo 4 2'') = Inr (ActEvent (HpubAttempt HArgs))"
    by code_simp+
  with verb_lines_meaning [of "''sUb''" "''foo  q 1''" default_limits]
    verb_lines_meaning [of "''hpub''" "''foo 4 2''" default_limits]
  show ?thesis by simp
qed

end
