(* ===== verification/Proto_Stream.thy ===== *)
theory Proto_Stream
  imports Proto_Lines
begin

text \<open>
  The parser as a machine over the stream: what a batch may contain, what is kept between two
  reads and how much of it, which errors it can end with, and that the place where one read
  ends and the next begins does not show in the operations that come out.
\<close>

section \<open>Line ends\<close>

lemma find_crlf_Nil [simp]: "find_crlf [] = None"
  by (simp add: find_crlf_def)

lemma find_crlf_single [simp]: "find_crlf [a] = None"
  by (simp add: find_crlf_def)

lemma find_crlf_Cons [simp]:
  "find_crlf (a # b # xs) = (if a = CR \<and> b = LF then Some 0 else map_option Suc (find_crlf (b # xs)))"
  by (cases xs) (auto simp: find_crlf_def)

lemma find_crlf_line: "CR \<notin> set line \<Longrightarrow> find_crlf (line @ CR # LF # xs) = Some (length line)"
proof (induction line)
  case (Cons a line)
  then show ?case by (cases line) auto
qed simp

lemma find_crlf_append: "find_crlf a = Some i \<Longrightarrow> find_crlf (a @ b) = Some i"
proof (induction a arbitrary: i)
  case (Cons x a)
  then show ?case by (cases a) (auto split: if_splits)
qed simp

section \<open>The batch is only appended to\<close>

definition with_prefix :: "Event list \<Rightarrow> feed_return \<Rightarrow> feed_return" where
  "with_prefix pre r = (case r of (st, src, out, res) \<Rightarrow> (st, src, pre @ out, res))"

definition step_prefix :: "Event list \<Rightarrow> feed_state + feed_return \<Rightarrow> feed_state + feed_return" where
  "step_prefix pre = map_sum (\<lambda>(st, src, out). (st, src, pre @ out)) (with_prefix pre)"

lemma line_turn_prefix: "line_turn lim src (pre @ out) = step_prefix pre (line_turn lim src out)"
proof -
  have "on_action act s (pre @ out) = step_prefix pre (on_action act s out)" for act s
    by (cases act) (auto simp: step_prefix_def with_prefix_def)
  then show ?thesis
    by (simp add: line_turn_def Let_def split: option.split sum.split)
      (simp add: step_prefix_def with_prefix_def)
qed

lemma body_end_prefix:
  "body_end st hpub src (pre @ out) ev = step_prefix pre (body_end st hpub src out ev)"
  by (simp add: body_end_def hpub_frame_error_def step_prefix_def with_prefix_def split: list.split)

lemma feed_step_prefix: "feed_step lim st src (pre @ out) = step_prefix pre (feed_step lim st src out)"
proof (cases st)
  case Line
  then show ?thesis by (simp add: line_turn_prefix)
next
  case (Body s r h n hp p)
  then show ?thesis
    by (cases "body_take n p src") (simp add: Let_def body_end_prefix, simp add: step_prefix_def with_prefix_def)
qed

lemma feed_into_prefix: "feed_into lim st src (pre @ out) = with_prefix pre (feed_into lim st src out)"
proof (induction lim st src out rule: feed_into.induct)
  case (1 lim st src out)
  show ?case
  proof (cases "feed_step lim st src out")
    case (Inl c)
    then obtain st' src' out' where c: "c = (st', src', out')" by (cases c)
    with Inl 1 show ?thesis
      by (simp add: feed_into.simps [of lim st src] feed_step_prefix step_prefix_def)
  next
    case (Inr r)
    then show ?thesis by (simp add: feed_into.simps [of lim st src] feed_step_prefix step_prefix_def)
  qed
qed

lemma feed_into_from_Nil: "feed_into lim st src out = with_prefix out (feed_into lim st src [])"
  using feed_into_prefix [of lim st src out "[]"] by simp

section \<open>The pieces of a body\<close>

lemma own_id [simp]: "own b = b"
  by (simp add: own_def)

lemma parts_hoist_fields [simp]:
  "p_first (parts_hoist p) = p_first p" "p_rest (parts_hoist p) = p_rest p"
  "p_got (parts_hoist p) = p_got p"
  by (auto simp: parts_hoist_def Let_def map_option_case split: option.split)

lemma parts_push_got [simp]: "p_got (parts_push b p) = p_got p + length b"
  by (simp add: parts_push_def Let_def split: option.split)

lemma parts_new_fields [simp]: "p_first parts_new = None" "p_rest parts_new = []" "p_got parts_new = 0"
  by (simp_all add: parts_new_def)

definition push_all :: "bytes list \<Rightarrow> Parts" where
  "push_all xs = foldl (\<lambda>p b. parts_push b p) parts_new xs"

lemma push_all_snoc [simp]: "push_all (xs @ [x]) = parts_push x (push_all xs)" "push_all [] = parts_new"
  by (simp_all add: push_all_def)

lemma push_all_fields:
  "p_got (push_all xs) = length (concat xs)"
  "p_first (push_all xs) = (if odd (length xs) then Some (last xs) else None)"
  "p_rest (push_all xs) = (if odd (length xs) then butlast xs else xs)"
proof (induction xs rule: rev_induct)
  case (snoc x xs)
  {
    case 1
    with snoc show ?case by simp
  next
    case 2
    with snoc show ?case by (simp add: parts_push_def Let_def)
  next
    case 3
    have "odd (length xs) \<Longrightarrow> butlast xs @ [last xs] = xs"
      by (rule append_butlast_last_id) auto
    with snoc show ?case by (auto simp: parts_push_def Let_def)
  }
qed simp_all

lemma take_body_push_all:
  "fst (take_body (push_all xs)) =
     (if odd (length xs) then last xs @ concat (butlast xs) else concat xs)"
  by (cases xs) (auto simp: take_body_def push_all_fields split: nat.split)

section \<open>What the parser keeps, and what a batch contains\<close>

definition parts_ok :: "Parts \<Rightarrow> bool" where
  "parts_ok p \<longleftrightarrow> p_got p = length (fst (take_body p))"

fun state_ok :: "Limits \<Rightarrow> State \<Rightarrow> bool" where
  "state_ok lim Line = True"
| "state_ok lim (Body s r hdr need hpub p) \<longleftrightarrow>
     parts_ok p \<and> p_got p \<le> need \<and> hdr \<le> need \<and> need \<le> max_payload lim \<and> need < 10 ^ 9 \<and>
     (\<not> hpub \<longrightarrow> hdr = 0)"

fun event_ok :: "Limits \<Rightarrow> Event \<Rightarrow> bool" where
  "event_ok lim (Publish s r hdr n body hpub) \<longleftrightarrow>
     n = length body \<and> hdr \<le> n \<and> n \<le> max_payload lim \<and> n < 10 ^ 9 \<and> (\<not> hpub \<longrightarrow> hdr = 0)"
| "event_ok lim _ = True"

definition stop_event :: "Event \<Rightarrow> bool" where
  "stop_event ev \<longleftrightarrow> ev = HpubAttempt HArgs \<or> (\<exists>t. ev = HpubAttempt (HFrame t))"

lemma take_body_alt:
  "fst (take_body p) = (case p_first p of Some b \<Rightarrow> b | None \<Rightarrow> []) @ concat (p_rest p)"
  by (auto simp: take_body_def split: option.split nat.split)

lemma parts_ok_new [simp]: "parts_ok parts_new"
  by (simp add: parts_ok_def take_body_alt)

lemma parts_ok_push: "parts_ok p \<Longrightarrow> parts_ok (parts_push b p)"
  by (auto simp: parts_ok_def take_body_alt parts_push_def Let_def split: option.splits)

lemma parts_ok_hoist [simp]: "parts_ok (parts_hoist p) \<longleftrightarrow> parts_ok p"
  by (simp add: parts_ok_def take_body_alt)

lemma state_ok_hoist [simp]: "state_ok lim (hoist st) = state_ok lim st"
  by (cases st) auto

lemma body_take_ok:
  assumes "body_take need p src = (p', src')" "parts_ok p" "p_got p \<le> need"
  shows "parts_ok p'" "p_got p' \<le> need" "p_got p' < need \<Longrightarrow> src' = []"
  using assms by (auto simp: body_take_def Let_def parts_ok_push split: if_splits)

text \<open>The invariant of one turn: the state it leaves, the events it adds.\<close>

definition turn_ok :: "Limits \<Rightarrow> Event list \<Rightarrow> feed_state + feed_return \<Rightarrow> bool" where
  "turn_ok lim out r \<longleftrightarrow>
     (case r of
        Inl (st, src, out') \<Rightarrow> state_ok lim st \<and> (\<exists>new. out' = out @ new \<and> list_all (event_ok lim) new)
      | Inr (st, src, out', res) \<Rightarrow>
          state_ok lim st \<and> (\<exists>new. out' = out @ new \<and> list_all (event_ok lim) new) \<and>
          (\<forall>e. res = Inl e \<longrightarrow> closes e))"

lemma on_action_turn_ok: "parse_line line lim = Inr act \<Longrightarrow> turn_ok lim out (on_action act src out)"
proof (cases act)
  case (ActEvent ev)
  assume "parse_line line lim = Inr act"
  then have "event_ok lim ev"
    using parse_line_event [of line lim ev] ActEvent by (cases ev) auto
  then show ?thesis using ActEvent by (auto simp: turn_ok_def)
next
  case (ActBody s r hdr need hpub)
  assume "parse_line line lim = Inr act"
  then show ?thesis using parse_line_body [of line lim s r hdr need hpub] ActBody
    by (auto simp: turn_ok_def)
qed

lemma line_turn_turn_ok: "turn_ok lim out (line_turn lim src out)"
proof (cases "find_crlf src")
  case None
  then show ?thesis by (auto simp: line_turn_def turn_ok_def)
next
  case (Some at)
  show ?thesis
  proof (cases "parse_line (take at src) lim")
    case (Inl e)
    with Some show ?thesis
      by (auto simp: line_turn_def turn_ok_def Let_def dest: parse_line_err)
  next
    case (Inr act)
    with Some on_action_turn_ok [OF Inr, of out] show ?thesis
      by (auto simp: line_turn_def Let_def) (auto simp: turn_ok_def)
  qed
qed

lemma body_end_turn_ok:
  "state_ok lim st \<Longrightarrow> event_ok lim ev \<Longrightarrow> turn_ok lim out (body_end st hpub src out ev)"
  by (auto simp: body_end_def turn_ok_def hpub_frame_error_def split: list.split)

lemma feed_step_turn_ok: "state_ok lim st \<Longrightarrow> turn_ok lim out (feed_step lim st src out)"
proof (cases st)
  case Line
  then show ?thesis by (simp add: line_turn_turn_ok)
next
  case (Body s r h n hp p)
  assume ok: "state_ok lim st"
  obtain p' src' where bt: "body_take n p src = (p', src')" by (cases "body_take n p src")
  with Body ok body_take_ok [OF bt] have p': "parts_ok p'" "p_got p' \<le> n" by auto
  let ?st = "Body s r h n hp p'" and ?body = "fst (take_body p')"
  show ?thesis
  proof (cases "p_got p' < n")
    case True
    with Body ok bt p' show ?thesis by (auto simp: turn_ok_def)
  next
    case False
    with p' have "length ?body = n" by (simp add: parts_ok_def)
    with Body ok bt p' False show ?thesis
      by (auto simp: Let_def intro!: body_end_turn_ok)
  qed
qed

lemma feed_into_ok:
  assumes "state_ok lim st" "feed_into lim st src out = (st', src', out', res)"
  shows "state_ok lim st'" "\<exists>new. out' = out @ new \<and> list_all (event_ok lim) new"
    "res = Inl e \<Longrightarrow> closes e"
proof -
  have "state_ok lim st' \<and> (\<exists>new. out' = out @ new \<and> list_all (event_ok lim) new) \<and>
        (\<forall>e. res = Inl e \<longrightarrow> closes e)"
    using assms
  proof (induction lim st src out rule: feed_into.induct)
    case (1 lim st src out)
    note turn = feed_step_turn_ok [OF "1.prems"(1), of out src]
    show ?case
    proof (cases "feed_step lim st src out")
      case (Inl c)
      then obtain st1 src1 out1 where c: "c = (st1, src1, out1)" by (cases c)
      with turn Inl obtain new1 where st1: "state_ok lim st1"
        and out1: "out1 = out @ new1" "list_all (event_ok lim) new1"
        by (auto simp: turn_ok_def)
      from "1.prems"(2) Inl c have "feed_into lim st1 src1 out1 = (st', src', out', res)"
        by (simp add: feed_into.simps [of lim st])
      from "1.IH" [OF Inl c [symmetric] _ st1 this] out1 show ?thesis by auto
    next
      case (Inr r)
      with "1.prems"(2) turn show ?thesis
        by (auto simp: feed_into.simps [of lim st] turn_ok_def)
    qed
  qed
  then show "state_ok lim st'" "\<exists>new. out' = out @ new \<and> list_all (event_ok lim) new"
    "res = Inl e \<Longrightarrow> closes e" by auto
qed

section \<open>How much is kept between two reads\<close>

fun retained :: "State \<Rightarrow> bytes \<Rightarrow> nat" where
  "retained Line src = length src"
| "retained (Body s r h n hp p) src = p_got p + length src"

definition rest_bound :: "Limits \<Rightarrow> State \<Rightarrow> bytes \<Rightarrow> bool" where
  "rest_bound lim st src \<longleftrightarrow>
     (case st of
        Line \<Rightarrow> length src \<le> (max_control_line lim * 16) mod 2 ^ 64
      | Body s r h n hp p \<Rightarrow> length src \<le> 1)"

lemma rest_bound_hoist [simp]: "rest_bound lim (hoist st) src = rest_bound lim st src"
  by (cases st) (auto simp: rest_bound_def)

lemma line_turn_rest:
  "line_turn lim src out = Inr (st', src', out', Inr ()) \<Longrightarrow>
     rest_bound lim st' src' \<or> list_ex stop_event out'"
proof (cases "find_crlf src")
  case None
  assume "line_turn lim src out = Inr (st', src', out', Inr ())"
  with None show ?thesis by (auto simp: line_turn_def rest_bound_def split: if_splits)
next
  case (Some at)
  have act: "on_action act s out = Inr (st', src', out', Inr ()) \<Longrightarrow> list_ex stop_event out'" for act s
    by (cases act) (auto simp: stop_event_def split: if_splits)
  assume "line_turn lim src out = Inr (st', src', out', Inr ())"
  with Some show ?thesis
    by (auto simp: line_turn_def Let_def split: if_splits sum.splits dest: act)
qed

lemma body_end_rest:
  "body_end st hpub src out ev = Inr (st', src', out', Inr ()) \<Longrightarrow>
     (length src' \<le> 1 \<and> st' = hoist st) \<or> list_ex stop_event out'"
  by (auto simp: body_end_def hpub_frame_error_def stop_event_def split: list.splits if_splits)

lemma feed_step_rest:
  assumes "state_ok lim st" "feed_step lim st src out = Inr (st', src', out', Inr ())"
  shows "rest_bound lim st' src' \<or> list_ex stop_event out'"
proof (cases st)
  case Line
  with assms show ?thesis by (auto dest: line_turn_rest)
next
  case (Body s r h n hp p)
  obtain p' src1 where bt: "body_take n p src = (p', src1)" by (cases "body_take n p src")
  from Body assms(1) body_take_ok [OF bt] have "p_got p' < n \<Longrightarrow> src1 = []" by auto
  with Body assms(2) bt show ?thesis
    by (auto simp: Let_def rest_bound_def split: if_splits dest!: body_end_rest)
qed

lemma feed_into_rest:
  assumes "state_ok lim st" "feed_into lim st src out = (st', src', out', Inr ())"
  shows "rest_bound lim st' src' \<or> list_ex stop_event out'"
  using assms
proof (induction lim st src out rule: feed_into.induct)
  case (1 lim st src out)
  show ?case
  proof (cases "feed_step lim st src out")
    case (Inl c)
    then obtain st1 src1 out1 where c: "c = (st1, src1, out1)" by (cases c)
    with Inl feed_step_turn_ok [OF "1.prems"(1), of out src] have st1: "state_ok lim st1"
      by (auto simp: turn_ok_def)
    from "1.prems"(2) Inl c have "feed_into lim st1 src1 out1 = (st', src', out', Inr ())"
      by (simp add: feed_into.simps [of lim st])
    from "1.IH" [OF Inl c [symmetric] _ st1 this] show ?thesis by simp
  next
    case (Inr r)
    with "1.prems" show ?thesis
      by (auto simp: feed_into.simps [of lim st] dest: feed_step_rest)
  qed
qed

section \<open>Whole lines and whole frames\<close>

definition line_fits :: "Limits \<Rightarrow> bytes \<Rightarrow> bool" where
  "line_fits lim line \<longleftrightarrow> line \<noteq> [] \<and> hd line \<noteq> LF \<and> CR \<notin> set line \<and> length line \<le> max_control_line lim"

lemma line_turn_whole:
  assumes "line_fits lim line"
  shows "line_turn lim (line @ CR # LF # src) out =
    (case parse_line line lim of Inl e \<Rightarrow> Inr (Line, src, out, Inl e) | Inr act \<Rightarrow> on_action act src out)"
  using assms find_crlf_line [of line src] by (simp add: line_turn_def line_fits_def)

lemma feed_event_line:
  assumes "line_fits lim line" "parse_line line lim = Inr (ActEvent ev)" "ev \<noteq> HpubAttempt HArgs"
  shows "feed_into lim Line (line @ CR # LF # src) out = feed_into lim Line src (out @ [ev])"
  using assms by (subst feed_into.simps) (simp add: line_turn_whole)

lemma body_take_whole:
  "body_take (length body) parts_new (body @ src) =
     (if body = [] then parts_new else parts_push body parts_new, src)"
  by (simp add: body_take_def Let_def)

lemma take_body_whole [simp]: "fst (take_body (parts_push body parts_new)) = body"
  by (simp add: take_body_alt parts_push_def Let_def)

lemma feed_body_whole:
  "feed_into lim (Body s r hdr (length body) hpub parts_new) (body @ CR # LF # src) out =
     feed_into lim Line src (out @ [Publish s r hdr (length body) body hpub])"
  by (subst feed_into.simps)
    (auto simp: body_take_whole body_end_def Let_def take_body_alt parts_push_def)

lemma feed_frame:
  assumes "line_fits lim line" "parse_line line lim = Inr (ActBody s r hdr (length body) hpub)"
  shows "feed_into lim Line (line @ CR # LF # body @ CR # LF # src) out =
    feed_into lim Line src
      (out @ (if hpub then [HpubAttempt HOk] else []) @ [Publish s r hdr (length body) body hpub])"
  using assms
  by (subst feed_into.simps) (simp add: line_turn_whole feed_body_whole)

section \<open>Read boundaries\<close>

text \<open>
  The reader keeps what a read left incomplete and appends the next read to it. A body held
  over from an earlier read is a list of pieces; \<open>one_piece\<close> says that it came from at most
  one read so far.
\<close>

fun one_piece :: "State \<Rightarrow> bool" where
  "one_piece Line = True"
| "one_piece (Body s r h n hp p) \<longleftrightarrow> p_rest p = []"

text \<open>Two states that differ at most in how the body seen so far is cut into pieces.\<close>

fun same_state :: "State \<Rightarrow> State \<Rightarrow> bool" where
  "same_state Line Line = True"
| "same_state (Body s r h n hp p) (Body s' r' h' n' hp' p') \<longleftrightarrow>
     s = s' \<and> r = r' \<and> h = h' \<and> n = n' \<and> hp = hp' \<and> p_got p = p_got p' \<and>
     fst (take_body p) = fst (take_body p')"
| "same_state _ _ = False"

definition same_return :: "feed_return \<Rightarrow> feed_return \<Rightarrow> bool" where
  "same_return a b \<longleftrightarrow>
     (case a of (st, src, out, res) \<Rightarrow> case b of (st', src', out', res') \<Rightarrow>
        same_state st st' \<and> src = src' \<and> out = out' \<and> res = res')"

lemma same_state_refl [simp]: "same_state st st"
  by (cases st) auto

lemma same_return_refl [simp]: "same_return r r"
  by (cases r) (simp add: same_return_def)

lemma take_body_hoist [simp]: "fst (take_body (parts_hoist p)) = fst (take_body p)"
  by (simp add: take_body_alt)

lemma hoist_one_piece [simp]: "one_piece (hoist st) = one_piece st"
  by (cases st) auto

lemma same_state_hoist [simp]:
  "same_state (hoist st) st' = same_state st st'" "same_state st (hoist st') = same_state st st'"
  by (cases st; cases st'; simp add: map_option_case split: option.split)+

text \<open>
  Two body turns that reached the same point behave alike from there: the pieces only matter
  through the bytes they hold.
\<close>

lemma body_end_same:
  assumes "same_state st st'"
  shows "(\<exists>c. body_end st hpub src out ev = Inl c \<and> body_end st' hpub src out ev = Inl c) \<or>
         (\<exists>r r'. body_end st hpub src out ev = Inr r \<and> body_end st' hpub src out ev = Inr r' \<and>
                 same_return r r')"
  using assms
  by (auto simp: body_end_def hpub_frame_error_def same_return_def split: list.split)

lemma feed_step_same:
  assumes "body_take n p src = (q, src1)" "body_take n p' src' = (q', src1)"
    and "p_got q = p_got q'" "fst (take_body q) = fst (take_body q')"
  shows "same_return (feed_into lim (Body s r h n hp p) src out) (feed_into lim (Body s r h n hp p') src' out)"
proof -
  let ?st = "Body s r h n hp q" and ?st' = "Body s r h n hp q'"
  let ?ev = "Publish s r h (length (fst (take_body q))) (fst (take_body q)) hp"
  have same: "same_state ?st ?st'" using assms by simp
  show ?thesis
  proof (cases "p_got q < n")
    case True
    with assms same show ?thesis
      by (subst (1 2) feed_into.simps) (simp add: same_return_def map_option_case split: option.split)
  next
    case False
    have "feed_into lim (Body s r h n hp p) src out =
        (case body_end ?st hp src1 out ?ev of Inl (a, b, c) \<Rightarrow> feed_into lim a b c | Inr r \<Rightarrow> r)"
      using False assms(1) by (subst feed_into.simps) (simp add: Let_def)
    moreover have "feed_into lim (Body s r h n hp p') src' out =
        (case body_end ?st' hp src1 out ?ev of Inl (a, b, c) \<Rightarrow> feed_into lim a b c | Inr r \<Rightarrow> r)"
      using False assms by (subst feed_into.simps) (simp add: Let_def)
    ultimately show ?thesis
      using body_end_same [OF same, of hp src1 out ?ev] by (auto split: prod.split)
  qed
qed

lemma body_take_one_piece:
  assumes "body_take n p src = (q, src1)" "p_rest p = []" "m = min (n - p_got p) (length src)"
  shows "p_got q = p_got p + m" "src1 = drop m src"
    "fst (take_body q) = fst (take_body p) @ take m src"
  using assms
  by (auto simp: body_take_def Let_def take_body_alt parts_push_def split: if_splits option.splits)

lemma line_turn_append: "line_turn lim a out = Inl (st', s', o') \<Longrightarrow> line_turn lim (a @ b) out = Inl (st', s' @ b, o')"
proof -
  have act: "on_action act s out = Inl (st', s', o') \<Longrightarrow> on_action act (s @ b) out = Inl (st', s' @ b, o')" for act s
    by (cases act) (auto split: if_splits)
  assume a: "line_turn lim a out = Inl (st', s', o')"
  then obtain at where at: "find_crlf a = Some at"
    by (auto simp: line_turn_def split: if_splits option.splits)
  then have "at + 2 \<le> length a" "a \<noteq> []" by (auto dest: find_crlf_bound)
  with a at find_crlf_append [OF at, of b] show ?thesis
    by (auto simp: line_turn_def Let_def act split: if_splits sum.splits)
qed

lemma line_turn_stop:
  assumes "line_turn lim a out = Inr (st', s', o', Inr ())"
  shows "(st' = Line \<and> s' = a \<and> o' = out) \<or> list_ex stop_event o'"
proof -
  have act: "on_action act s out = Inr (st', s', o', Inr ()) \<Longrightarrow> list_ex stop_event o'" for act s
    by (cases act) (auto simp: stop_event_def split: if_splits)
  from assms show ?thesis
    by (auto simp: line_turn_def Let_def split: if_splits option.splits sum.splits dest: act)
qed

lemma line_turn_one_piece: "line_turn lim a out = Inl (st', s', o') \<Longrightarrow> one_piece st'"
proof -
  have "on_action act s out = Inl (st', s', o') \<Longrightarrow> one_piece st'" for act s
    by (cases act) (auto split: if_splits)
  then show "line_turn lim a out = Inl (st', s', o') \<Longrightarrow> one_piece st'"
    by (auto simp: line_turn_def Let_def split: if_splits option.splits sum.splits)
qed

lemma body_end_append:
  "body_end st hp a out ev = Inl c \<Longrightarrow> \<exists>s'. c = (Line, s', out @ [ev]) \<and> body_end st hp (a @ b) out ev = Inl (Line, s' @ b, out @ [ev])"
  by (auto simp: body_end_def hpub_frame_error_def split: list.splits if_splits)

lemma body_end_stop:
  "body_end st hp a out ev = Inr (st', s', o', Inr ()) \<Longrightarrow>
     (st' = hoist st \<and> s' = a \<and> o' = out) \<or> list_ex stop_event o'"
  by (auto simp: body_end_def hpub_frame_error_def stop_event_def split: list.splits if_splits)

lemma hoist_Body [simp]: "hoist (Body s r h n hp p) = Body s r h n hp (parts_hoist p)"
  by (simp add: map_option_case split: option.split)

declare hoist.simps(1) [simp del]

text \<open>The body turn of a read that ends before, at or inside the terminator, resumed.\<close>

lemma feed_body_resume:
  assumes "body_take n p a = (q, a1)" "p_rest p = []" "p_rest q = []"
    and "p_got q < n \<Longrightarrow> a1 = []"
  shows "same_return (feed_into lim (Body s r h n hp p) (a @ b) out)
           (feed_into lim (Body s r h n hp (parts_hoist q)) (a1 @ b) out)"
proof -
  obtain q1 s1 where t1: "body_take n p (a @ b) = (q1, s1)" by (cases "body_take n p (a @ b)")
  obtain q2 s2 where t2: "body_take n (parts_hoist q) (a1 @ b) = (q2, s2)"
    by (cases "body_take n (parts_hoist q) (a1 @ b)")
  define m where "m = min (n - p_got p) (length a)"
  define k where "k = min (n - p_got q) (length (a1 @ b))"
  note q = body_take_one_piece [OF assms(1,2) m_def]
  have q2: "p_got q2 = p_got q + k" "s2 = drop k (a1 @ b)"
      "fst (take_body q2) = fst (take_body q) @ take k (a1 @ b)"
    using body_take_one_piece [OF t2, of k] assms(3) by (auto simp: k_def)
  have mk: "min (n - p_got p) (length (a @ b)) = m + k"
    using q assms(4) by (auto simp: m_def k_def min_def split: if_splits)
  have cut: "take (m + k) (a @ b) = take m a @ take k (a1 @ b)" "drop (m + k) (a @ b) = drop k (a1 @ b)"
  proof -
    have m: "m \<le> length a" by (simp add: m_def)
    with q(2) have d: "drop m (a @ b) = a1 @ b" by simp
    show "take (m + k) (a @ b) = take m a @ take k (a1 @ b)" unfolding take_add d using m by simp
    show "drop (m + k) (a @ b) = drop k (a1 @ b)" by (metis add.commute d drop_drop)
  qed
  note q1 = body_take_one_piece [OF t1 assms(2) mk [symmetric]]
  have "s1 = s2" using q1(2) q2(2) cut(2) by simp
  moreover have "p_got q1 = p_got q2" using q1(1) q2(1) q(1) by simp
  moreover have "fst (take_body q1) = fst (take_body q2)" using q1(3) q2(3) q(3) cut(1) by simp
  ultimately show ?thesis using feed_step_same [OF t1, of "parts_hoist q" "a1 @ b" q2] t2 by simp
qed

lemma feed_resume:
  assumes "feed_into lim st a out = (st1, a1, out1, Inr ())"
    and "one_piece st" "one_piece st1" "\<not> list_ex stop_event out1"
  shows "same_return (feed_into lim st (a @ b) out) (feed_into lim st1 (a1 @ b) out1)"
  using assms
proof (induction lim st a out rule: feed_into.induct)
  case (1 lim st a out)
  show ?case
  proof (cases st)
    case Line
    show ?thesis
    proof (cases "line_turn lim a out")
      case (Inl c)
      then obtain st' s' o' where c: "c = (st', s', o')" by (cases c)
      have "feed_into lim st' s' o' = (st1, a1, out1, Inr ())"
        using "1.prems"(1) Inl c Line by (simp add: feed_into.simps [of lim Line])
      then have "same_return (feed_into lim st' (s' @ b) o') (feed_into lim st1 (a1 @ b) out1)"
        using "1.IH" [of "(st', s', o')", OF _ refl refl] Inl c Line line_turn_one_piece [of lim a out] "1.prems"
        by simp
      then show ?thesis
        using line_turn_append [of lim a out st' s' o' b] Inl c Line
        by (simp add: feed_into.simps [of lim Line "a @ b"])
    next
      case (Inr r)
      with "1.prems" Line line_turn_stop [of lim a out] show ?thesis
        by (fastforce simp: feed_into.simps [of lim Line a])
    qed
  next
    case (Body s r h n hp p)
    obtain q a' where bt: "body_take n p a = (q, a')" by (cases "body_take n p a")
    define ev where "ev = Publish s r h (length (fst (take_body q))) (fst (take_body q)) hp"
    have eq: "feed_into lim st a out =
        (if p_got q < n then (Body s r h n hp (parts_hoist q), a', out, Inr ())
         else case body_end (Body s r h n hp q) hp a' out ev of
           Inl (x, y, z) \<Rightarrow> feed_into lim x y z | Inr r \<Rightarrow> r)"
      by (subst feed_into.simps) (simp add: Body bt Let_def ev_def)
    have p: "p_rest p = []" using "1.prems"(2) Body by simp
    have a': "p_got q < n \<Longrightarrow> a' = []"
      using body_take_one_piece [OF bt p refl] by (auto simp: min_def split: if_splits)
    show ?thesis
    proof (cases "p_got q < n")
      case True
      with eq "1.prems" have "st1 = Body s r h n hp (parts_hoist q)" "a1 = a'" "out1 = out" by auto
      with "1.prems"(3) feed_body_resume [OF bt p _ a', of lim s r h hp b out] show ?thesis
        by (simp add: Body)
    next
      case False
      show ?thesis
      proof (cases "body_end (Body s r h n hp q) hp a' out ev")
        case (Inl c)
        then obtain s' where c: "c = (Line, s', out @ [ev])"
          and app: "body_end (Body s r h n hp q) hp (a' @ b) out ev = Inl (Line, s' @ b, out @ [ev])"
          using body_end_append [of "Body s r h n hp q" hp a' out ev c b] by auto
        have step: "feed_step lim st a out = Inl (Line, s', out @ [ev])"
          using Inl c False by (simp add: Body bt Let_def ev_def)
        have "feed_into lim Line s' (out @ [ev]) = (st1, a1, out1, Inr ())"
          using "1.prems"(1) eq False Inl c by simp
        with "1.IH" [OF step refl refl] "1.prems"
        have IH: "same_return (feed_into lim Line (s' @ b) (out @ [ev])) (feed_into lim st1 (a1 @ b) out1)"
          by simp
        have "body_take n p (a @ b) = (q, a' @ b)"
          using bt False by (auto simp: body_take_def Let_def min_def split: if_splits)
        then have "feed_into lim st (a @ b) out = feed_into lim Line (s' @ b) (out @ [ev])"
          using app False by (subst feed_into.simps) (simp add: Body Let_def ev_def)
        with IH show ?thesis by simp
      next
        case (Inr ret)
        with eq False "1.prems" have "ret = (st1, a1, out1, Inr ())" by simp
        with Inr "1.prems"(4) body_end_stop [of "Body s r h n hp q" hp a' out ev st1 a1 out1]
        have "st1 = Body s r h n hp (parts_hoist q)" "a1 = a'" "out1 = out" by auto
        with "1.prems"(3) feed_body_resume [OF bt p _ a', of lim s r h hp b out] show ?thesis
          by (simp add: Body)
      qed
    qed
  qed
qed

text \<open>
  A connection's reads, one after another: each call of \<open>feed_into\<close> sees what the previous
  one left, followed by the bytes of the new read, and fills a fresh batch.
\<close>

fun feed_reads :: "Limits \<Rightarrow> State \<Rightarrow> bytes \<Rightarrow> bytes list \<Rightarrow> feed_return" where
  "feed_reads lim st buf [] = (st, buf, [], Inr ())"
| "feed_reads lim st buf (r # rs) =
     (case feed_into lim st (buf @ r) [] of
        (st', buf', evs, Inl e) \<Rightarrow> (st', buf', evs, Inl e)
      | (st', buf', evs, Inr _) \<Rightarrow> with_prefix evs (feed_reads lim st' buf' rs))"

text \<open>No body is spread over three reads or more.\<close>

fun reads_one_piece :: "Limits \<Rightarrow> State \<Rightarrow> bytes \<Rightarrow> bytes list \<Rightarrow> bool" where
  "reads_one_piece lim st buf (r # r2 # rs) \<longleftrightarrow>
     (case feed_into lim st (buf @ r) [] of
        (st', buf', _, _) \<Rightarrow> one_piece st' \<and> reads_one_piece lim st' buf' (r2 # rs))"
| "reads_one_piece lim st buf _ = True"

lemma same_return_trans: "same_return a b \<Longrightarrow> same_return b c \<Longrightarrow> same_return a c"
proof -
  have "same_state x y \<Longrightarrow> same_state y z \<Longrightarrow> same_state x z" for x y z
    by (cases x; cases y; cases z) auto
  then show "same_return a b \<Longrightarrow> same_return b c \<Longrightarrow> same_return a c"
    by (auto simp: same_return_def split: prod.splits)
qed

lemma same_return_prefix: "same_return a b \<Longrightarrow> same_return (with_prefix pre a) (with_prefix pre b)"
  by (auto simp: same_return_def with_prefix_def split: prod.splits)

lemma feed_reads_concat:
  assumes "rs \<noteq> []" "one_piece st" "reads_one_piece lim st buf rs"
    and "feed_reads lim st buf rs = (st', buf', evs, Inr ())" "\<not> list_ex stop_event evs"
  shows "same_return (feed_into lim st (buf @ concat rs) []) (st', buf', evs, Inr ())"
  using assms
proof (induction rs arbitrary: st buf evs)
  case (Cons r rs)
  obtain st1 buf1 evs1 res1 where f: "feed_into lim st (buf @ r) [] = (st1, buf1, evs1, res1)"
    by (cases "feed_into lim st (buf @ r) []")
  with Cons.prems(4) have res1: "res1 = Inr ()" by (cases res1) auto
  with f Cons.prems(4) obtain evs2
    where rest: "feed_reads lim st1 buf1 rs = (st', buf', evs2, Inr ())" and evs: "evs = evs1 @ evs2"
    by (auto simp: with_prefix_def split: prod.splits)
  show ?case
  proof (cases rs)
    case Nil
    with rest evs f res1 show ?thesis by (simp add: same_return_def)
  next
    case (Cons r2 rs2)
    with Cons.prems f have one: "one_piece st1" "reads_one_piece lim st1 buf1 rs" by auto
    with Cons.IH [OF _ one rest] evs Cons.prems(5) Cons
    have "same_return (feed_into lim st1 (buf1 @ concat rs) []) (st', buf', evs2, Inr ())" by simp
    from same_return_prefix [OF this, of evs1]
    have 1: "same_return (feed_into lim st1 (buf1 @ concat rs) evs1) (st', buf', evs, Inr ())"
      using feed_into_from_Nil [of lim st1 "buf1 @ concat rs" evs1] evs by (simp add: with_prefix_def)
    have "same_return (feed_into lim st ((buf @ r) @ concat rs) []) (feed_into lim st1 (buf1 @ concat rs) evs1)"
      using feed_resume [OF f [unfolded res1] Cons.prems(2) one(1), of "concat rs"] evs Cons.prems(5) by simp
    from same_return_trans [OF this 1] show ?thesis by simp
  qed
qed simp

section \<open>Properties\<close>

text \<open>C14. Every call of \<^verbatim>\<open>feed_into\<close> keeps the parser's invariant, only appends to the batch, and every
  publish it appends has a body of the announced length, a header block that fits in it, and a
  size within the payload limit.\<close>

theorem feed_into_invariant:
  assumes "state_ok lim st" "feed_into lim st src out = (st', src', out', res)"
  shows "state_ok lim st' \<and> (\<exists>new. out' = out @ new \<and> list_all (event_ok lim) new)"
  using feed_into_ok(1,2) [OF assms] by simp

theorem feed_into_invariant_witness:
  "\<exists>st' src' out' res. feed_into default_limits Line (''PUB a 5'' @ [CR, LF] @ ''hel'') [] = (st', src', out', res) \<and>
     state_ok default_limits st' \<and> list_all (event_ok default_limits) out'"
proof -
  obtain st' src' out' res
    where f: "feed_into default_limits Line (''PUB a 5'' @ [CR, LF] @ ''hel'') [] = (st', src', out', res)"
    by (cases "feed_into default_limits Line (''PUB a 5'' @ [CR, LF] @ ''hel'') []")
  from feed_into_invariant [OF _ f] f show ?thesis by auto
qed

text \<open>Whatever the bytes, an error the parser reports is of a class that closes the connection.\<close>

theorem feed_errors_close:
  assumes "state_ok lim st" "feed_into lim st src out = (st', src', out', Inl e)"
  shows "closes e"
  using feed_into_ok(3) [OF assms] by simp

theorem feed_errors_close_witness:
  "feed_into default_limits Line (''BOGUS'' @ [CR, LF]) [] = (Line, [], [], Inl (Fatal UNKNOWN_OP)) \<and>
   closes (Fatal UNKNOWN_OP)"
proof -
  have f: "feed_into default_limits Line (''BOGUS'' @ [CR, LF]) [] = (Line, [], [], Inl (Fatal UNKNOWN_OP))"
    by code_simp
  from feed_errors_close [OF _ f] f show ?thesis by simp
qed

text \<open>What a successful call leaves unread is bounded: one byte when a body is pending, sixteen
  control lines otherwise, unless the call stopped at a header publish it reports.\<close>

theorem feed_leftover_bounded:
  assumes "state_ok lim st" "feed_into lim st src out = (st', src', out', Inr ())"
  shows "rest_bound lim st' src' \<or> list_ex stop_event out'"
  by (rule feed_into_rest [OF assms])

theorem feed_leftover_bounded_witness:
  "feed_into default_limits Line ''PIN'' [] = (Line, ''PIN'', [], Inr ()) \<and>
   (rest_bound default_limits Line ''PIN'' \<or> list_ex stop_event [])"
proof -
  have f: "feed_into default_limits Line ''PIN'' [] = (Line, ''PIN'', [], Inr ())" by code_simp
  from feed_leftover_bounded [OF _ f] f show ?thesis by simp
qed



text \<open>C30. How the pieces of a body are put together: an even number of pieces in order, but with an odd
  number the last piece comes first. A body that arrives in one or two pieces is intact, one in three
  is not.\<close>

theorem body_reassembly:
  "fst (take_body (push_all xs)) =
     (if odd (length xs) then last xs @ concat (butlast xs) else concat xs)"
  by (rule take_body_push_all)

text \<open>The same on the wire: a three-byte body whose bytes come in three reads is published rotated.\<close>

theorem three_reads_rotate_the_body:
  "feed_reads default_limits Line [] [''PUB s 3'' @ [CR, LF] @ ''a'', ''b'', ''c'' @ [CR, LF]] =
     (Line, [], [Publish ''s'' None 0 3 ''cab'' False], Inr ()) \<and>
   feed_reads default_limits Line [] [''PUB s 3'' @ [CR, LF] @ ''abc'' @ [CR, LF]] =
     (Line, [], [Publish ''s'' None 0 3 ''abc'' False], Inr ())"
  by (rule conjI; code_simp)

end
