(* ===== verification/Transition.thy ===== *)
theory Transition
  imports Main
begin

text \<open>
  The contracts the step relations of the development share: a property that every step keeps
  (\<open>keeps\<close>), a relation whose steps are steps of a more abstract one (\<open>simulates\<close>), both together
  (\<open>simulates_keeping\<close>), and a reader that takes one frame after the other off its input (\<open>frame_reader\<close>).
  Each is interpreted where the relation or the reader it is about is defined.
\<close>

section \<open>Invariants\<close>

locale keeps =
  fixes step :: "'s \<Rightarrow> 's \<Rightarrow> bool" and inv :: "'s \<Rightarrow> bool"
  assumes step_keeps: "step s s' \<Longrightarrow> inv s \<Longrightarrow> inv s'"
begin

lemma reach: "step\<^sup>*\<^sup>* s s' \<Longrightarrow> inv s \<Longrightarrow> inv s'"
  by (induction rule: rtranclp_induct) (auto intro: step_keeps)

lemma after_steps: "(step ^^ n) s s' \<Longrightarrow> inv s \<Longrightarrow> inv s'"
  using reach [of s s'] relpowp_imp_rtranclp [of n step] by blast

end

section \<open>Simulation\<close>

locale simulates =
  fixes step :: "'c \<Rightarrow> 'c \<Rightarrow> bool" and spec :: "'a \<Rightarrow> 'a \<Rightarrow> bool" and abs :: "'c \<Rightarrow> 'a"
  assumes step_simulates: "step s s' \<Longrightarrow> spec\<^sup>*\<^sup>* (abs s) (abs s')"
begin

lemma reach_simulates: "step\<^sup>*\<^sup>* s s' \<Longrightarrow> spec\<^sup>*\<^sup>* (abs s) (abs s')"
  by (induction rule: rtranclp_induct) (auto dest: step_simulates)

end

text \<open>What the abstract relation keeps, the concrete one keeps of the abstraction.\<close>

locale simulates_keeping = simulates step spec abs + spec: keeps spec inv
  for step :: "'c \<Rightarrow> 'c \<Rightarrow> bool" and spec :: "'a \<Rightarrow> 'a \<Rightarrow> bool" and abs :: "'c \<Rightarrow> 'a" and inv :: "'a \<Rightarrow> bool"
begin

sublocale lifted: keeps step "\<lambda>s. inv (abs s)"
  by unfold_locales (rule spec.reach [OF step_simulates])

end

section \<open>Readers of frames\<close>

locale frame_reader =
  fixes run :: "'x list \<Rightarrow> 's \<Rightarrow> 'r" and frame :: "'a \<Rightarrow> 'x list" and eff :: "'a \<Rightarrow> 's \<Rightarrow> 's" and fits :: "'a \<Rightarrow> bool"
  assumes run_frame: "fits a \<Longrightarrow> run (frame a @ xs) s = run xs (eff a s)"
begin

lemma run_frames: "list_all fits as \<Longrightarrow> run (concat (map frame as) @ xs) s = run xs (fold eff as s)"
  by (induction as arbitrary: s) (simp_all add: run_frame)

end

end
