(* ===== verification/Wire.thy ===== *)
theory Wire
  imports Proto_Stream Transition
begin

text \<open>
  The client side of the wire as the integration suite writes it
  (\<^verbatim>\<open>crates/core-it/src/wire.rs\<close>): the encoders of a publish, a header publish and a header
  block, the reader of control lines, and the helper that absorbs the server's keepalive.
  The encoders are the other half of the round trip with the parser.
\<close>

section \<open>Encoders\<close>

definition pub_frame :: "bytes \<Rightarrow> bytes option \<Rightarrow> bytes \<Rightarrow> bytes" where
  "pub_frame subject reply body =
     (case reply of
        Some r \<Rightarrow> ''PUB '' @ subject @ '' '' @ r @ '' '' @ show_nat (length body) @ [CR, LF]
      | None \<Rightarrow> ''PUB '' @ subject @ '' '' @ show_nat (length body) @ [CR, LF])
     @ body @ [CR, LF]"

definition hpub_frame :: "bytes \<Rightarrow> bytes option \<Rightarrow> bytes \<Rightarrow> bytes \<Rightarrow> bytes" where
  "hpub_frame subject reply hdr body =
     (case reply of
        Some r \<Rightarrow> ''HPUB '' @ subject @ '' '' @ r @ '' '' @ show_nat (length hdr) @ '' '' @
                  show_nat (length hdr + length body) @ [CR, LF]
      | None \<Rightarrow> ''HPUB '' @ subject @ '' '' @ show_nat (length hdr) @ '' '' @
                show_nat (length hdr + length body) @ [CR, LF])
     @ hdr @ body @ [CR, LF]"

definition header_block :: "bytes list \<Rightarrow> bytes" where
  "header_block lines = ''NATS/1.0'' @ [CR, LF] @ concat (map (\<lambda>l. l @ [CR, LF]) lines) @ [CR, LF]"

section \<open>Reading control lines\<close>

datatype Next = NextLine bytes | Closed | Timeout

definition wire_find_crlf :: "bytes \<Rightarrow> nat option" where
  "wire_find_crlf buf = position (\<lambda>w. w = (CR, LF)) (zip buf (tl buf))"

text \<open>What one \<^verbatim>\<open>read\<close> of a single byte can do.\<close>

datatype read1 = RByte byte | REof | RErr | RTimeout

fun read_line_into :: "bytes \<Rightarrow> read1 list \<Rightarrow> (Next \<times> bytes \<times> read1 list) option" where
  "read_line_into buf rs =
     (case wire_find_crlf buf of
        Some i \<Rightarrow> Some (NextLine (take (i + 2) buf), drop (i + 2) buf, rs)
      | None \<Rightarrow>
          (case rs of
             [] \<Rightarrow> None
           | RByte b # rs' \<Rightarrow> read_line_into (buf @ [b]) rs'
           | REof # rs' \<Rightarrow> Some (Closed, buf, rs')
           | RErr # rs' \<Rightarrow> Some (Closed, buf, rs')
           | RTimeout # rs' \<Rightarrow> Some (Timeout, buf, rs')))"

declare read_line_into.simps [simp del]

text \<open>
  The keepalive helper on raw bytes: \<^verbatim>\<open>Some\<close> of what is left after a whole \<^verbatim>\<open>PING\<close> was
  answered and removed, \<^verbatim>\<open>None\<close> when nothing was absorbed.
\<close>

definition absorb_ping_bytes :: "bool \<Rightarrow> bytes \<Rightarrow> bytes option" where
  "absorb_ping_bytes auto_pong bs =
     (if \<not> auto_pong then None
      else let n = length bs in
        if n < 7 \<or> drop (n - 7) bs \<noteq> ''PING'' @ [CR, LF] \<or> take (n - 7) bs \<noteq> [] then None
        else Some (take (n - 7) bs))"

definition absorb_ping :: "bool \<Rightarrow> Next \<Rightarrow> bool" where
  "absorb_ping auto_pong line \<longleftrightarrow>
     (case line of NextLine l \<Rightarrow> auto_pong \<and> l = ''PING'' @ [CR, LF] | _ \<Rightarrow> False)"

section \<open>The parser reads what the encoders write\<close>

lemma plain_no_ends: "plain t \<Longrightarrow> CR \<notin> set t \<and> LF \<notin> set t"
  by (auto simp: plain_def)

lemma pub_line_parse:
  assumes "plain s" "n \<le> max_payload lim" "n < 10 ^ 9"
  shows "parse_line (''PUB '' @ s @ '' '' @ show_nat n) lim = Inr (ActBody s None 0 n False)"
  using assms parse_line_PUB [of "''PUB''" "s @ '' '' @ show_nat n" lim]
  by (simp add: pub_sized_def parse_size_show)

lemma pub_reply_line_parse:
  assumes "plain s" "plain r" "n \<le> max_payload lim" "n < 10 ^ 9"
  shows "parse_line (''PUB '' @ s @ '' '' @ r @ '' '' @ show_nat n) lim = Inr (ActBody s (Some r) 0 n False)"
  using assms parse_line_PUB [of "''PUB''" "s @ '' '' @ r @ '' '' @ show_nat n" lim]
  by (simp add: pub_sized_def parse_size_show)

lemma hpub_line_parse:
  assumes "plain s" "h \<le> n" "n \<le> max_payload lim" "n < 10 ^ 9"
  shows "parse_line (''HPUB '' @ s @ '' '' @ show_nat h @ '' '' @ show_nat n) lim =
    Inr (ActBody s None h n True)"
  using assms parse_line_HPUB [of "''HPUB''" "s @ '' '' @ show_nat h @ '' '' @ show_nat n" lim]
  by (simp add: pub_sized_def parse_size_show)

lemma hpub_reply_line_parse:
  assumes "plain s" "plain r" "h \<le> n" "n \<le> max_payload lim" "n < 10 ^ 9"
  shows "parse_line (''HPUB '' @ s @ '' '' @ r @ '' '' @ show_nat h @ '' '' @ show_nat n) lim =
    Inr (ActBody s (Some r) h n True)"
  using assms parse_line_HPUB [of "''HPUB''" "s @ '' '' @ r @ '' '' @ show_nat h @ '' '' @ show_nat n" lim]
  by (simp add: pub_sized_def parse_size_show)

lemma show_nat_ends: "CR \<notin> set (show_nat n)" "LF \<notin> set (show_nat n)"
  using plain_no_ends [OF plain_show_nat] by auto

text \<open>A publish the wire can carry: plain subject and reply, a control line within its limit.\<close>

definition pub_fits :: "Limits \<Rightarrow> bytes \<Rightarrow> bytes option \<Rightarrow> bytes \<Rightarrow> bool" where
  "pub_fits lim s r body \<longleftrightarrow>
     plain s \<and> (\<forall>x. r = Some x \<longrightarrow> plain x) \<and> length body \<le> max_payload lim \<and> length body < 10 ^ 9 \<and>
     length s + (case r of None \<Rightarrow> 0 | Some x \<Rightarrow> length x + 1) + 14 \<le> max_control_line lim"

lemma feed_pub_frame:
  assumes "pub_fits lim s r body"
  shows "feed_into lim Line (pub_frame s r body @ src) out =
    feed_into lim Line src (out @ [Publish s r 0 (length body) body False])"
proof -
  let ?d = "show_nat (length body)"
  have d: "length ?d \<le> 9" using assms length_show_nat [of 9 "length body"] by (simp add: pub_fits_def)
  show ?thesis
  proof (cases r)
    case None
    let ?line = "''PUB '' @ s @ '' '' @ ?d"
    have "line_fits lim ?line"
      using assms None d plain_no_ends [of s] by (auto simp: line_fits_def pub_fits_def show_nat_ends)
    moreover have "parse_line ?line lim = Inr (ActBody s None 0 (length body) False)"
      using assms by (intro pub_line_parse) (auto simp: pub_fits_def)
    ultimately show ?thesis
      using feed_frame [of lim ?line s None 0 body False src out] None by (simp add: pub_frame_def)
  next
    case (Some x)
    let ?line = "''PUB '' @ s @ '' '' @ x @ '' '' @ ?d"
    have "line_fits lim ?line"
      using assms Some d plain_no_ends [of s] plain_no_ends [of x]
      by (auto simp: line_fits_def pub_fits_def show_nat_ends)
    moreover have "parse_line ?line lim = Inr (ActBody s (Some x) 0 (length body) False)"
      using assms Some by (intro pub_reply_line_parse) (auto simp: pub_fits_def)
    ultimately show ?thesis
      using feed_frame [of lim ?line s "Some x" 0 body False src out] Some by (simp add: pub_frame_def)
  qed
qed

definition hpub_fits :: "Limits \<Rightarrow> bytes \<Rightarrow> bytes option \<Rightarrow> bytes \<Rightarrow> bytes \<Rightarrow> bool" where
  "hpub_fits lim s r hdr body \<longleftrightarrow>
     plain s \<and> (\<forall>x. r = Some x \<longrightarrow> plain x) \<and> length (hdr @ body) \<le> max_payload lim \<and>
     length (hdr @ body) < 10 ^ 9 \<and>
     length s + (case r of None \<Rightarrow> 0 | Some x \<Rightarrow> length x + 1) + 25 \<le> max_control_line lim"

lemma feed_hpub_frame:
  assumes "hpub_fits lim s r hdr body"
  shows "feed_into lim Line (hpub_frame s r hdr body @ src) out =
    feed_into lim Line src
      (out @ [HpubAttempt HOk, Publish s r (length hdr) (length (hdr @ body)) (hdr @ body) True])"
proof -
  let ?h = "show_nat (length hdr)" and ?d = "show_nat (length hdr + length body)"
  have d: "length ?d \<le> 9" "length ?h \<le> 9"
    using assms length_show_nat [of 9 "length hdr + length body"] length_show_nat [of 9 "length hdr"]
    by (simp_all add: hpub_fits_def)
  show ?thesis
  proof (cases r)
    case None
    let ?line = "''HPUB '' @ s @ '' '' @ ?h @ '' '' @ ?d"
    have "line_fits lim ?line"
      using assms None d plain_no_ends [of s] by (auto simp: line_fits_def hpub_fits_def show_nat_ends)
    moreover have "parse_line ?line lim = Inr (ActBody s None (length hdr) (length (hdr @ body)) True)"
      unfolding length_append using assms by (intro hpub_line_parse) (auto simp: hpub_fits_def)
    ultimately show ?thesis
      using feed_frame [of lim ?line s None "length hdr" "hdr @ body" True src out] None
      by (simp add: hpub_frame_def)
  next
    case (Some x)
    let ?line = "''HPUB '' @ s @ '' '' @ x @ '' '' @ ?h @ '' '' @ ?d"
    have "line_fits lim ?line"
      using assms Some d plain_no_ends [of s] plain_no_ends [of x]
      by (auto simp: line_fits_def hpub_fits_def show_nat_ends)
    moreover have "parse_line ?line lim = Inr (ActBody s (Some x) (length hdr) (length (hdr @ body)) True)"
      unfolding length_append using assms Some by (intro hpub_reply_line_parse) (auto simp: hpub_fits_def)
    ultimately show ?thesis
      using feed_frame [of lim ?line s "Some x" "length hdr" "hdr @ body" True src out] Some
      by (simp add: hpub_frame_def)
  qed
qed

lemma feed_into_empty: "feed_into lim Line [] out = (Line, [], out, Inr ())"
  by (subst feed_into.simps) (simp add: line_turn_def)

section \<open>Streams of publishes\<close>

text \<open>A publish as a client of the suite makes it: with a header block or without.\<close>

datatype client_pub = CPub bytes "bytes option" bytes | CHpub bytes "bytes option" bytes bytes

fun client_frame :: "client_pub \<Rightarrow> bytes" where
  "client_frame (CPub s r body) = pub_frame s r body"
| "client_frame (CHpub s r hdr body) = hpub_frame s r hdr body"

fun client_events :: "client_pub \<Rightarrow> Event list" where
  "client_events (CPub s r body) = [Publish s r 0 (length body) body False]"
| "client_events (CHpub s r hdr body) =
     [HpubAttempt HOk, Publish s r (length hdr) (length (hdr @ body)) (hdr @ body) True]"

fun client_fits :: "Limits \<Rightarrow> client_pub \<Rightarrow> bool" where
  "client_fits lim (CPub s r body) = pub_fits lim s r body"
| "client_fits lim (CHpub s r hdr body) = hpub_fits lim s r hdr body"

lemma feed_client_frame:
  "client_fits lim p \<Longrightarrow>
     feed_into lim Line (client_frame p @ src) out = feed_into lim Line src (out @ client_events p)"
  by (cases p) (simp_all add: feed_pub_frame feed_hpub_frame)

interpretation parser: frame_reader "feed_into lim Line" client_frame "\<lambda>p out. out @ client_events p" "client_fits lim"
    for lim :: Limits
  by unfold_locales (rule feed_client_frame)

lemma fold_events: "fold (\<lambda>p out. out @ client_events p) ps out = out @ concat (map client_events ps)"
  by (induction ps arbitrary: out) simp_all

lemma feed_client_frames:
  "list_all (client_fits lim) ps \<Longrightarrow>
     feed_into lim Line (concat (map client_frame ps)) out = (Line, [], out @ concat (map client_events ps), Inr ())"
  using parser.run_frames [of lim ps "[]" out] by (simp add: feed_into_empty fold_events)

section \<open>Properties\<close>

text \<open>C9. Round trip of the wire: any number of publishes, with headers or without, that a client encodes
  back to back are parsed to exactly those publishes, in order, with nothing left over.\<close>

theorem publish_stream_roundtrip:
  assumes "list_all (client_fits lim) ps"
  shows "feed_into lim Line (concat (map client_frame ps)) [] =
    (Line, [], concat (map client_events ps), Inr ())"
  using feed_client_frames [OF assms, of "[]"] by simp

theorem publish_stream_roundtrip_witness:
  "feed_into default_limits Line
     (pub_frame ''a.b'' (Some ''r'') ''hi'' @ hpub_frame ''c'' None (header_block [''k: v'']) ''x'') [] =
   (Line, [], [Publish ''a.b'' (Some ''r'') 0 2 ''hi'' False, HpubAttempt HOk,
      Publish ''c'' None 18 19 (header_block [''k: v''] @ ''x'') True], Inr ())"
proof -
  have fits: "list_all (client_fits default_limits)
      [CPub ''a.b'' (Some ''r'') ''hi'', CHpub ''c'' None (header_block [''k: v'']) ''x'']"
    by (simp add: pub_fits_def hpub_fits_def plain_def default_limits_def header_block_def)
  have len: "length (header_block [''k: v'']) = 18" by (simp add: header_block_def)
  from publish_stream_roundtrip [OF fits] show ?thesis by (simp add: len)
qed

text \<open>The raw keepalive helper of the suite never absorbs anything: it compares the last seven bytes
  with the six bytes of \<^verbatim>\<open>PING\<close> and its line end.\<close>

theorem absorb_ping_bytes_never: "absorb_ping_bytes auto_pong bs = None"
proof -
  have "length (drop (length bs - 7) bs) = 7" if "7 \<le> length bs" using that by simp
  moreover have "length (''PING'' @ [CR, LF]) = 6" by simp
  ultimately have "7 \<le> length bs \<Longrightarrow> drop (length bs - 7) bs \<noteq> ''PING'' @ [CR, LF]" by force
  then show ?thesis by (auto simp: absorb_ping_bytes_def Let_def)
qed

end
