(* ===== verification/Deps.thy ===== *)
theory Deps
  imports Nats_Prelude
begin

text \<open>
  The third-party crates the server is written against, as one record of functions that the
  definitions take as an argument: the capacities of \<^verbatim>\<open>bytes::BytesMut\<close>, the unbounded channel
  of \<^verbatim>\<open>tokio::sync::mpsc\<close> and the values of \<^verbatim>\<open>serde_json\<close>. What the server relies on of them is
  \<open>deps_ok\<close>, clause by clause the documented behaviour; \<open>ch_frames\<close> and \<open>ch_live\<close> only occur in
  statements. \<open>list_deps\<close> is an instance, for evaluation.
\<close>

record ('ch, 'j) Deps =
  bm_default :: nat
    \<comment> \<open>capacity of \<^verbatim>\<open>BytesMut::new()\<close>\<close>
  bm_capacity :: "nat \<Rightarrow> nat"
    \<comment> \<open>capacity of \<^verbatim>\<open>BytesMut::with_capacity(n)\<close>\<close>
  bm_grow :: "nat \<Rightarrow> nat \<Rightarrow> nat"
    \<comment> \<open>capacity after a write that needs more than there is\<close>
  ch_new :: 'ch
    \<comment> \<open>\<^verbatim>\<open>mpsc::unbounded_channel()\<close>\<close>
  ch_send :: "bytes \<Rightarrow> 'ch \<Rightarrow> 'ch option"
    \<comment> \<open>\<^verbatim>\<open>UnboundedSender::send\<close>, \<open>None\<close> for the error\<close>
  ch_recv :: "'ch \<Rightarrow> (bytes \<times> 'ch) option"
    \<comment> \<open>\<^verbatim>\<open>UnboundedReceiver::try_recv\<close>, \<open>None\<close> when nothing is there\<close>
  ch_drop :: "'ch \<Rightarrow> 'ch"
    \<comment> \<open>the receiver is dropped\<close>
  ch_frames :: "'ch \<Rightarrow> bytes list"
  ch_live :: "'ch \<Rightarrow> bool"
  js_from_slice :: "bytes \<Rightarrow> 'j option"
    \<comment> \<open>\<^verbatim>\<open>serde_json::from_slice::<Value>\<close>\<close>
  js_as_object :: "'j \<Rightarrow> (bytes \<Rightarrow> 'j option) option"
    \<comment> \<open>\<^verbatim>\<open>Value::as_object\<close> with \<^verbatim>\<open>Map::get\<close>\<close>
  js_as_bool :: "'j \<Rightarrow> bool option"

definition deps_ok :: "('ch, 'j) Deps \<Rightarrow> bool" where
  "deps_ok E \<longleftrightarrow>
     (\<forall>n. n \<le> bm_capacity E n) \<and> (\<forall>c n. n \<le> bm_grow E c n) \<and>
     ch_frames E (ch_new E) = [] \<and> ch_live E (ch_new E) \<and>
     (\<forall>f c. ch_send E f c = None \<longleftrightarrow> \<not> ch_live E c) \<and>
     (\<forall>f c c'. ch_send E f c = Some c' \<longrightarrow> ch_frames E c' = ch_frames E c @ [f] \<and> ch_live E c') \<and>
     (\<forall>c. ch_recv E c = None \<longleftrightarrow> ch_frames E c = []) \<and>
     (\<forall>c f c'. ch_recv E c = Some (f, c') \<longrightarrow>
        ch_frames E c = f # ch_frames E c' \<and> ch_live E c' = ch_live E c) \<and>
     (\<forall>c. \<not> ch_live E (ch_drop E c) \<and> ch_frames E (ch_drop E c) = [])"

lemma deps_okD:
  assumes "deps_ok E"
  shows "n \<le> bm_capacity E n" "n \<le> bm_grow E c n"
    "ch_frames E (ch_new E) = []" "ch_live E (ch_new E)"
    "ch_send E f ch = None \<longleftrightarrow> \<not> ch_live E ch"
    "ch_send E f ch = Some ch' \<Longrightarrow> ch_frames E ch' = ch_frames E ch @ [f]"
    "ch_send E f ch = Some ch' \<Longrightarrow> ch_live E ch'"
    "ch_recv E ch = None \<longleftrightarrow> ch_frames E ch = []"
    "ch_recv E ch = Some (f, ch') \<Longrightarrow> ch_frames E ch = f # ch_frames E ch'"
    "ch_recv E ch = Some (f, ch') \<Longrightarrow> ch_live E ch' = ch_live E ch"
    "\<not> ch_live E (ch_drop E ch)" "ch_frames E (ch_drop E ch) = []"
  using assms unfolding deps_ok_def by blast+

section \<open>An instance\<close>

text \<open>
  A channel as a liveness flag and the frames in it, exact capacities, and a JSON of booleans
  and flat objects whose one text is an object with the five connect options.
\<close>

datatype json_sample = JBool bool | JNum | JObj "(bytes \<times> json_sample) list"

definition sample_json :: "bytes \<Rightarrow> json_sample option" where
  "sample_json b =
     (if b = ''quiet'' then Some (JObj [(''verbose'', JBool False), (''echo'', JBool False), (''lang'', JNum)])
      else if b = ''full'' then
        Some (JObj [(''verbose'', JBool False), (''pedantic'', JBool False), (''headers'', JBool True),
          (''no_responders'', JBool True)])
      else if b = ''5'' then Some JNum else None)"

definition list_deps :: "(bool \<times> bytes list, json_sample) Deps" where
  "list_deps =
     \<lparr>bm_default = 0, bm_capacity = (\<lambda>n. n), bm_grow = (\<lambda>c n. max (2 * c) n),
      ch_new = (True, []),
      ch_send = (\<lambda>f (live, fs). if live then Some (live, fs @ [f]) else None),
      ch_recv = (\<lambda>(live, fs). case fs of [] \<Rightarrow> None | f # fs' \<Rightarrow> Some (f, (live, fs'))),
      ch_drop = (\<lambda>_. (False, [])), ch_frames = snd, ch_live = fst,
      js_from_slice = sample_json,
      js_as_object = (\<lambda>j. case j of JObj kvs \<Rightarrow> Some (map_of kvs) | _ \<Rightarrow> None),
      js_as_bool = (\<lambda>j. case j of JBool b \<Rightarrow> Some b | _ \<Rightarrow> None)\<rparr>"

lemma deps_ok_list: "deps_ok list_deps"
  unfolding deps_ok_def list_deps_def by (auto split: list.splits if_splits)

end
