(* ===== verification/Frames.thy ===== *)
theory Frames
  imports Proto_Stream Deps
begin

text \<open>
  What the server puts on the wire: the fixed lines of \<^verbatim>\<open>client::Frame\<close>, the chunked arena of
  \<^verbatim>\<open>crates/server/src/arena.rs\<close>, and the delivery and no-responder frames of
  \<^verbatim>\<open>crates/server/src/routing.rs\<close>. A \<^verbatim>\<open>BytesMut\<close> is the bytes written to it since it was last
  split, together with its capacity; how capacities come about is a parameter.
\<close>

section \<open>Control lines\<close>

type_synonym Frame = bytes

definition CRLF :: bytes where "CRLF = [CR, LF]"

definition frame_line :: "bytes \<Rightarrow> Frame" where "frame_line b = b"
definition frame_ok :: Frame where "frame_ok = frame_line (''+OK'' @ CRLF)"
definition frame_err :: "bytes \<Rightarrow> Frame" where
  "frame_err text = frame_line (''-ERR '' @ [CHR 0x27] @ text @ [CHR 0x27] @ CRLF)"
definition frame_pong :: Frame where "frame_pong = frame_line (''PONG'' @ CRLF)"
definition frame_ping :: Frame where "frame_ping = frame_line (''PING'' @ CRLF)"

section \<open>The arena\<close>

definition CHUNK :: nat where "CHUNK = 8 * 1024"

record Arena =
  chunk :: bytes
  chunk_cap :: nat
  chunk_size :: nat

definition arena_new :: "('ch, 'j) Deps \<Rightarrow> Arena" where
  "arena_new E = \<lparr>chunk = [], chunk_cap = bm_default E, chunk_size = CHUNK\<rparr>"

definition arena_tail :: "('ch, 'j) Deps \<Rightarrow> nat \<Rightarrow> Arena \<Rightarrow> Arena" where
  "arena_tail E need a =
     (if chunk_cap a - length (chunk a) < need
      then a\<lparr>chunk := [], chunk_cap := bm_capacity E (max need (chunk_size a))\<rparr>
      else a)"

text \<open>\<^verbatim>\<open>BufMut::put_slice\<close> on a \<^verbatim>\<open>BytesMut\<close>: it appends, growing when the capacity is too small.\<close>

definition put_slice :: "('ch, 'j) Deps \<Rightarrow> bytes \<Rightarrow> Arena \<Rightarrow> Arena" where
  "put_slice E b a =
     (let n = length (chunk a) + length b in
      a\<lparr>chunk := chunk a @ b, chunk_cap := if n \<le> chunk_cap a then chunk_cap a else bm_grow E (chunk_cap a) n\<rparr>)"

definition arena_seal :: "Arena \<Rightarrow> bytes \<times> Arena" where
  "arena_seal a = (chunk a, a\<lparr>chunk := [], chunk_cap := chunk_cap a - length (chunk a)\<rparr>)"

section \<open>Delivery frames\<close>

record Msg =
  m_subject :: bytes
  m_reply :: "bytes option"
  m_hdr :: nat
  m_body :: bytes

text \<open>The digit loop of \<^verbatim>\<open>push_u64\<close>: fills a buffer of twenty digits from its end.\<close>

fun push_digits :: "nat \<Rightarrow> bytes \<Rightarrow> bytes" where
  "push_digits n buf =
     (let buf' = digit_char (n mod 10) # buf in
      if n div 10 = 0 then buf' else push_digits (n div 10) buf')"

declare push_digits.simps [simp del]

definition push_u64 :: "nat \<Rightarrow> bytes" where
  "push_u64 n = push_digits n []"

definition delivered_body :: "bool \<Rightarrow> Msg \<Rightarrow> bytes" where
  "delivered_body headers msg =
     (if m_hdr msg > 0 \<and> \<not> headers then drop (m_hdr msg) (m_body msg) else m_body msg)"

definition build_frame :: "('ch, 'j) Deps \<Rightarrow> Arena \<Rightarrow> bool \<Rightarrow> bytes \<Rightarrow> Msg \<Rightarrow> Frame \<times> Arena" where
  "build_frame E arena supports_headers sid msg =
     (let headers = (m_hdr msg > 0 \<and> supports_headers);
          body = delivered_body headers msg;
          reply = (case m_reply msg of Some r \<Rightarrow> r | None \<Rightarrow> []);
          need = 48 + length (m_subject msg) + length sid + length reply + length body + 2 * length CRLF;
          buf = arena_tail E need arena;
          buf = put_slice E (if headers then ''HMSG '' else ''MSG '') buf;
          buf = put_slice E (m_subject msg) buf;
          buf = put_slice E [SP] buf;
          buf = put_slice E sid buf;
          buf = (if reply \<noteq> [] then put_slice E reply (put_slice E [SP] buf) else buf);
          buf = put_slice E [SP] buf;
          buf = (if headers then put_slice E [SP] (put_slice E (push_u64 (m_hdr msg)) buf) else buf);
          buf = put_slice E (push_u64 (length body)) buf;
          buf = put_slice E CRLF buf;
          buf = put_slice E body buf;
          buf = put_slice E CRLF buf
      in arena_seal buf)"

definition status_len :: "bytes \<Rightarrow> nat" where
  "status_len published = 32 + length published"

text \<open>
  The status frame: \<open>no_responder_head\<close> is the buffer at the point of its \<^verbatim>\<open>debug_assert_eq!\<close>.
\<close>

definition no_responder_head :: "bytes \<Rightarrow> bytes \<Rightarrow> bytes \<Rightarrow> bytes" where
  "no_responder_head reply sid published =
     ''HMSG '' @ reply @ [SP] @ sid @
     '' '' @ show_nat (status_len published) @ '' '' @ show_nat (status_len published) @ CRLF @
     ''NATS/1.0 503'' @ CRLF @ ''Nats-Subject: '' @ published @ CRLF @ CRLF"

definition no_responder_assert :: "bytes \<Rightarrow> bytes \<Rightarrow> bytes \<Rightarrow> bool" where
  "no_responder_assert reply sid published \<longleftrightarrow>
     length (no_responder_head reply sid published) =
       48 + length reply + length sid - 8 + status_len published"

definition no_responder_frame :: "bytes \<Rightarrow> bytes \<Rightarrow> bytes \<Rightarrow> Frame" where
  "no_responder_frame reply sid published = no_responder_head reply sid published @ CRLF"

section \<open>Decimal\<close>

lemma push_digits_show: "push_digits n buf = show_nat n @ buf"
proof (induction n buf rule: push_digits.induct)
  case (1 n buf)
  show ?case
  proof (cases "n < 10")
    case True
    then show ?thesis by (simp add: push_digits.simps [of n] show_nat.simps [of n])
  next
    case False
    then have "n div 10 \<noteq> 0" by auto
    with 1 [OF refl this] False show ?thesis
      by (simp add: push_digits.simps [of n] show_nat.simps [of n])
  qed
qed

lemma push_u64_show: "push_u64 n = show_nat n"
  by (simp add: push_u64_def push_digits_show)

section \<open>The frame a delivery produces\<close>

definition msg_words :: "bool \<Rightarrow> bytes \<Rightarrow> Msg \<Rightarrow> bytes list" where
  "msg_words headers sid msg =
     [if headers then ''HMSG'' else ''MSG'', m_subject msg, sid] @
     (case m_reply msg of Some r \<Rightarrow> (if r = [] then [] else [r]) | None \<Rightarrow> []) @
     (if headers then [show_nat (m_hdr msg)] else []) @
     [show_nat (length (delivered_body headers msg))]"

definition msg_frame :: "bool \<Rightarrow> bytes \<Rightarrow> Msg \<Rightarrow> bytes" where
  "msg_frame headers sid msg =
     join_sep SP (msg_words headers sid msg) @ CRLF @ delivered_body headers msg @ CRLF"

definition frame_need :: "bool \<Rightarrow> bytes \<Rightarrow> Msg \<Rightarrow> nat" where
  "frame_need headers sid msg =
     48 + length (m_subject msg) + length sid + length (case m_reply msg of Some r \<Rightarrow> r | None \<Rightarrow> []) +
     length (delivered_body headers msg) + 2 * length CRLF"

lemma put_slice_fields [simp]:
  "chunk (put_slice E b a) = chunk a @ b"
  "chunk_size (put_slice E b a) = chunk_size a"
  by (simp_all add: put_slice_def Let_def)

lemma put_slice_cap:
  "length (chunk a) + length b \<le> chunk_cap a \<Longrightarrow> put_slice E b a = a\<lparr>chunk := chunk a @ b\<rparr>"
  by (simp add: put_slice_def Let_def)

lemma arena_tail_fields:
  "chunk a = [] \<Longrightarrow> chunk (arena_tail E need a) = []"
  "chunk_size (arena_tail E need a) = chunk_size a"
  by (auto simp: arena_tail_def)

lemma arena_tail_room:
  assumes "chunk a = []" "\<And>n. n \<le> bm_capacity E n"
  shows "need \<le> chunk_cap (arena_tail E need a)"
proof -
  have "need \<le> max need (chunk_size a)" by simp
  also have "\<dots> \<le> bm_capacity E (max need (chunk_size a))" by (rule assms(2))
  finally show ?thesis using assms(1) by (simp add: arena_tail_def)
qed

text \<open>The writes of \<open>build_frame\<close> one after another are one write, when nothing grows in between.\<close>

definition put_slices :: "('ch, 'j) Deps \<Rightarrow> bytes list \<Rightarrow> Arena \<Rightarrow> Arena" where
  "put_slices E bs a = fold (put_slice E) bs a"

lemma put_slices_chunk [simp]:
  "chunk (put_slices E bs a) = chunk a @ concat bs" "chunk_size (put_slices E bs a) = chunk_size a"
  by (induction bs arbitrary: a) (simp_all add: put_slices_def)

lemma put_slices_cap:
  "length (chunk a) + length (concat bs) \<le> chunk_cap a \<Longrightarrow>
     put_slices E bs a = a\<lparr>chunk := chunk a @ concat bs\<rparr>"
  by (induction bs arbitrary: a) (simp_all add: put_slices_def put_slice_cap)

definition frame_pieces :: "bool \<Rightarrow> bytes \<Rightarrow> Msg \<Rightarrow> bytes list" where
  "frame_pieces headers sid msg =
     [if headers then ''HMSG '' else ''MSG '', m_subject msg, [SP], sid] @
     (case m_reply msg of Some r \<Rightarrow> (if r = [] then [] else [[SP], r]) | None \<Rightarrow> []) @ [[SP]] @
     (if headers then [show_nat (m_hdr msg), [SP]] else []) @
     [show_nat (length (delivered_body headers msg)), CRLF, delivered_body headers msg, CRLF]"

lemma concat_frame_pieces: "concat (frame_pieces headers sid msg) = msg_frame headers sid msg"
  by (auto simp: frame_pieces_def msg_frame_def msg_words_def split: option.split)

lemma build_frame_alt:
  "build_frame E a hs sid msg =
     (let headers = (m_hdr msg > 0 \<and> hs) in
      arena_seal (put_slices E (frame_pieces headers sid msg) (arena_tail E (frame_need headers sid msg) a)))"
  by (auto simp: build_frame_def Let_def put_slices_def push_u64_show frame_pieces_def
      frame_need_def CRLF_def split: option.split)

lemma build_frame_bytes:
  assumes "chunk a = []"
  shows "fst (build_frame E a hs sid msg) = msg_frame (m_hdr msg > 0 \<and> hs) sid msg"
    "chunk (snd (build_frame E a hs sid msg)) = []"
    "chunk_size (snd (build_frame E a hs sid msg)) = chunk_size a"
  using assms by (simp_all add: build_frame_alt Let_def arena_seal_def arena_tail_fields concat_frame_pieces)

lemma msg_frame_length:
  assumes "length (m_body msg) < 10 ^ 9" "m_hdr msg \<le> length (m_body msg)"
  shows "length (msg_frame headers sid msg) \<le> frame_need headers sid msg"
proof -
  have "length (delivered_body headers msg) < 10 ^ 9" using assms by (auto simp: delivered_body_def)
  then have "length (show_nat (length (delivered_body headers msg))) \<le> 9"
    using length_show_nat [of 9] by simp
  moreover have "length (show_nat (m_hdr msg)) \<le> 9"
    using assms length_show_nat [of 9 "m_hdr msg"] by simp
  ultimately show ?thesis
    by (auto simp: msg_frame_def msg_words_def frame_need_def CRLF_def join_sep_Cons split: option.split)
qed

text \<open>The capacity taken by \<open>arena_tail\<close> is enough: writing the frame never grows the chunk.\<close>

lemma build_frame_cap:
  fixes hs :: bool
  assumes "chunk a = []" "length (m_body msg) < 10 ^ 9" "m_hdr msg \<le> length (m_body msg)"
    and cap: "\<And>n. n \<le> bm_capacity E n"
  defines "headers \<equiv> m_hdr msg > 0 \<and> hs"
  shows "build_frame E a hs sid msg =
    (let t = arena_tail E (frame_need headers sid msg) a; f = msg_frame headers sid msg
     in (f, t\<lparr>chunk_cap := chunk_cap t - length f\<rparr>))"
proof -
  let ?t = "arena_tail E (frame_need headers sid msg) a"
  have "length (msg_frame headers sid msg) \<le> chunk_cap ?t"
    using msg_frame_length [OF assms(2,3), of headers sid]
      arena_tail_room [OF assms(1) cap, of "frame_need headers sid msg"] by simp
  then show ?thesis
    using assms(1) put_slices_cap [of ?t "frame_pieces headers sid msg" E]
    by (simp add: build_frame_alt Let_def arena_seal_def arena_tail_fields headers_def concat_frame_pieces)
qed

section \<open>The status frame\<close>

lemma no_responder_head_alt:
  "no_responder_head reply sid published =
     (''HMSG '' @ reply @ [SP] @ sid @ '' '' @ show_nat (status_len published) @ '' '' @
        show_nat (status_len published) @ CRLF) @
     (''NATS/1.0 503'' @ CRLF @ ''Nats-Subject: '' @ published @ CRLF @ CRLF)"
  by (simp add: no_responder_head_def)

lemma status_block_length:
  "length (''NATS/1.0 503'' @ CRLF @ ''Nats-Subject: '' @ published @ CRLF @ CRLF) = status_len published"
  by (simp add: CRLF_def status_len_def)

lemma no_responder_head_length:
  "length (no_responder_head reply sid published) =
     10 + length reply + length sid + 2 * length (show_nat (status_len published)) + status_len published"
  by (simp add: no_responder_head_def CRLF_def status_len_def)

section \<open>Reading a frame back\<close>

lemma words_join: "list_all plain ws \<Longrightarrow> words (join_sep SP ws) = ws"
  by (induction ws rule: induct_list012) simp_all

lemma join_no_CR: "list_all plain ws \<Longrightarrow> CR \<notin> set (join_sep SP ws)"
  by (induction ws rule: induct_list012) (auto simp: plain_def)

definition msg_plain :: "bytes \<Rightarrow> Msg \<Rightarrow> bool" where
  "msg_plain sid msg \<longleftrightarrow> plain (m_subject msg) \<and> plain sid \<and> pred_option plain (m_reply msg)"

lemma msg_words_plain: "msg_plain sid msg \<Longrightarrow> list_all plain (msg_words headers sid msg)"
  by (auto simp: msg_plain_def msg_words_def split: option.split) (simp_all add: plain_def)

text \<open>A client splits a frame at the first line end, and the line at its blanks.\<close>

lemma msg_frame_decode:
  fixes headers :: bool
  assumes "msg_plain sid msg"
  defines "line \<equiv> join_sep SP (msg_words headers sid msg)"
  shows "find_crlf (msg_frame headers sid msg) = Some (length line)"
    "words (take (length line) (msg_frame headers sid msg)) = msg_words headers sid msg"
    "drop (length line + 2) (msg_frame headers sid msg) = delivered_body headers msg @ CRLF"
  using msg_words_plain [OF assms(1), of headers] join_no_CR [of "msg_words headers sid msg"]
  by (simp_all add: msg_frame_def line_def CRLF_def find_crlf_line words_join)

section \<open>Properties\<close>

text \<open>C33. A delivery frame reads back: its control line splits into the verb, the subject, the sid, the reply
  if there is one and the sizes, and what follows is the body, stripped of its header block for a
  subscriber without header support, and the terminator.\<close>

theorem delivery_frame_decodes:
  assumes "chunk a = []" "msg_plain sid msg"
  shows "\<exists>i. find_crlf (fst (build_frame E a hs sid msg)) = Some i \<and>
    words (take i (fst (build_frame E a hs sid msg))) = msg_words (m_hdr msg > 0 \<and> hs) sid msg \<and>
    drop (i + 2) (fst (build_frame E a hs sid msg)) = delivered_body (m_hdr msg > 0 \<and> hs) msg @ CRLF"
  unfolding build_frame_bytes(1) [OF assms(1)]
  using msg_frame_decode [OF assms(2), of "m_hdr msg > 0 \<and> hs"] by blast

theorem delivery_frame_decodes_witness:
  "\<exists>i. find_crlf (fst (build_frame list_deps (arena_new list_deps) False ''7'' \<lparr>m_subject = ''a'', m_reply = None, m_hdr = 2, m_body = ''hhxyz''\<rparr>)) = Some i \<and>
    words (take i (fst (build_frame list_deps (arena_new list_deps) False ''7'' \<lparr>m_subject = ''a'', m_reply = None, m_hdr = 2, m_body = ''hhxyz''\<rparr>))) =
      [''MSG'', ''a'', ''7'', ''3''] \<and>
    drop (i + 2) (fst (build_frame list_deps (arena_new list_deps) False ''7'' \<lparr>m_subject = ''a'', m_reply = None, m_hdr = 2, m_body = ''hhxyz''\<rparr>)) =
      ''xyz'' @ CRLF"
proof -
  let ?m = "\<lparr>m_subject = ''a'', m_reply = None, m_hdr = 2, m_body = ''hhxyz''\<rparr>"
  have "msg_words (m_hdr ?m > 0 \<and> False) ''7'' ?m = [''MSG'', ''a'', ''7'', ''3'']"
    "delivered_body (m_hdr ?m > 0 \<and> False) ?m = ''xyz''" by code_simp+
  moreover have "chunk (arena_new list_deps) = []" "msg_plain ''7'' ?m"
    by (simp_all add: arena_new_def msg_plain_def plain_def)
  ultimately show ?thesis
    using delivery_frame_decodes [of "arena_new list_deps" "''7''" ?m list_deps False] by simp
qed

text \<open>C34. The room asked of the arena is enough: a frame never exceeds it, so however \<^verbatim>\<open>BytesMut\<close> grows, writing
  a frame does not make it grow; it takes exactly the frame's bytes from the capacity.\<close>

theorem delivery_frame_fits_the_arena:
  assumes "chunk a = []" "length (m_body msg) < 10 ^ 9" "m_hdr msg \<le> length (m_body msg)" "deps_ok E"
  shows "build_frame (E\<lparr>bm_grow := g\<rparr>) a hs sid msg = build_frame E a hs sid msg \<and>
    length (fst (build_frame E a hs sid msg)) \<le> frame_need (m_hdr msg > 0 \<and> hs) sid msg \<and>
    chunk_cap (snd (build_frame E a hs sid msg)) + length (fst (build_frame E a hs sid msg)) =
      chunk_cap (arena_tail E (frame_need (m_hdr msg > 0 \<and> hs) sid msg) a)"
proof -
  let ?h = "m_hdr msg > 0 \<and> hs"
  note len = msg_frame_length [OF assms(2,3), of ?h sid]
  have "arena_tail (E\<lparr>bm_grow := g\<rparr>) n a = arena_tail E n a" for n by (simp add: arena_tail_def)
  moreover have "length (msg_frame ?h sid msg) \<le> chunk_cap (arena_tail E (frame_need ?h sid msg) a)"
    using len arena_tail_room [OF assms(1) deps_okD(1) [OF assms(4)], of "frame_need ?h sid msg"] by simp
  ultimately show ?thesis
    using len build_frame_cap [OF assms(1-3) deps_okD(1) [OF assms(4)], of hs sid]
      build_frame_cap [OF assms(1-3), of "E\<lparr>bm_grow := g\<rparr>" hs sid] deps_okD(1) [OF assms(4)]
    by (simp add: Let_def)
qed

theorem delivery_frame_fits_the_arena_witness:
  "chunk_cap (snd (build_frame list_deps (arena_new list_deps) True ''1'' \<lparr>m_subject = ''a'', m_reply = None, m_hdr = 0, m_body = ''hi''\<rparr>)) = 8177"
proof -
  let ?m = "\<lparr>m_subject = ''a'', m_reply = None, m_hdr = 0, m_body = ''hi''\<rparr>"
  have "chunk_cap (arena_tail list_deps (frame_need (m_hdr ?m > 0 \<and> True) ''1'' ?m) (arena_new list_deps)) = 8192"
    "length (fst (build_frame list_deps (arena_new list_deps) True ''1'' ?m)) = 15" by code_simp+
  moreover have "chunk (arena_new list_deps) = []" by (simp add: arena_new_def)
  ultimately show ?thesis
    using delivery_frame_fits_the_arena [of "arena_new list_deps" ?m list_deps "\<lambda>c n. n" True "''1''"]
    by (simp add: deps_ok_list)
qed

text \<open>The two sizes of a no-responder frame are exact: both are the length of the status block that follows
  the control line. The length the debug assertion of the code expects is another one, so the
  assertion fails on every published subject a control line can hold.\<close>

theorem no_responder_sizes:
  assumes "length published < 10 ^ 9"
  shows "no_responder_frame reply sid published =
      (''HMSG '' @ reply @ [SP] @ sid @ '' '' @ show_nat (status_len published) @ '' '' @
        show_nat (status_len published) @ CRLF) @
      (''NATS/1.0 503'' @ CRLF @ ''Nats-Subject: '' @ published @ CRLF @ CRLF) @ CRLF \<and>
    length (''NATS/1.0 503'' @ CRLF @ ''Nats-Subject: '' @ published @ CRLF @ CRLF) = status_len published \<and>
    \<not> no_responder_assert reply sid published"
proof -
  have "length (show_nat (status_len published)) \<le> 10"
    using assms length_show_nat [of 10 "status_len published"] by (simp add: status_len_def)
  then show ?thesis
    by (simp add: no_responder_frame_def no_responder_head_alt status_block_length [simplified]
        no_responder_assert_def no_responder_head_length) (simp add: CRLF_def)
qed

theorem no_responder_sizes_witness:
  "no_responder_frame ''r'' ''1'' ''svc'' =
     ''HMSG r 1 35 35'' @ CRLF @ ''NATS/1.0 503'' @ CRLF @ ''Nats-Subject: svc'' @ CRLF @ CRLF @ CRLF \<and>
   \<not> no_responder_assert ''r'' ''1'' ''svc''"
proof -
  have "show_nat (status_len ''svc'') = ''35''" by code_simp
  then show ?thesis using no_responder_sizes [of "''svc''" "''r''" "''1''"] by simp
qed

end
