(* ===== verification/Wire_Client.thy ===== *)
theory Wire_Client
  imports Wire Frames "HOL-Library.Sublist"
begin

text \<open>
  The raw client of the integration suite (\<^verbatim>\<open>Conn\<close> of \<^verbatim>\<open>crates/core-it/src/wire.rs\<close>): the next control line with
  keepalives answered on the way, the barrier, draining, the probe for a closed connection, and the body of a message. The
  socket's reads are lists of events; \<open>lates\<close> says, turn by turn, whether the deadline has passed. A panic of
  the suite is an error value.
\<close>

section \<open>The client\<close>

record Wire_Conn =
  wc_buf :: bytes
  wc_auto_pong :: bool
  wc_sent :: bytes

definition wire_send :: "bytes \<Rightarrow> Wire_Conn \<Rightarrow> Wire_Conn" where
  "wire_send b c = c\<lparr>wc_sent := wc_sent c @ b\<rparr>"

definition connect_opts :: "bytes \<Rightarrow> Wire_Conn \<Rightarrow> Wire_Conn" where
  "connect_opts opts c = wire_send (''CONNECT '' @ opts @ CRLF) c"

text \<open>\<^verbatim>\<open>connect_raw\<close> up to the JSON of the line: the first line must be an \<^verbatim>\<open>INFO\<close>.\<close>

definition connect_raw :: "read1 list \<Rightarrow> (bytes + (bytes \<times> Wire_Conn \<times> read1 list)) option" where
  "connect_raw rs =
     (case read_line_into [] rs of
        None \<Rightarrow> None
      | Some (NextLine l, buf, rs') \<Rightarrow>
          if take 5 l = ''INFO '' then Some (Inr (drop 5 l, \<lparr>wc_buf = buf, wc_auto_pong = False, wc_sent = []\<rparr>, rs'))
          else Some (Inl ''first line must be INFO'')
      | Some (_, buf, rs') \<Rightarrow> Some (Inl ''server sent no INFO line''))"

text \<open>\<^verbatim>\<open>connect\<close>, and the options the suite sends.\<close>

definition wire_connect :: "read1 list \<Rightarrow> (bytes + (bytes \<times> Wire_Conn \<times> read1 list)) option" where
  "wire_connect rs =
     (case connect_raw rs of
        Some (Inr (info, c, rs')) \<Rightarrow> Some (Inr (info, c\<lparr>wc_auto_pong := True\<rparr>, rs'))
      | r \<Rightarrow> r)"

definition NO_VERBOSE :: bytes where \<open>NO_VERBOSE = ''{"verbose":false}''\<close>
definition CAPS :: bytes where \<open>CAPS = ''{"verbose":false,"headers":true,"no_responders":true}''\<close>

text \<open>What the suite asks of an event; a failed expectation is an error.\<close>

fun next_is_closed :: "Next \<Rightarrow> bool" where
  "next_is_closed Closed = True"
| "next_is_closed _ = False"

fun next_is_timeout :: "Next \<Rightarrow> bool" where
  "next_is_timeout Timeout = True"
| "next_is_timeout _ = False"

fun next_line :: "Next \<Rightarrow> bytes + bytes" where
  "next_line (NextLine l) = Inr l"
| "next_line _ = Inl ''expected a control line''"

definition expect_line :: "bytes \<Rightarrow> Next \<Rightarrow> bytes + unit" where
  "expect_line want n =
     (case next_line n of
        Inl e \<Rightarrow> Inl e
      | Inr l \<Rightarrow> if l = want then Inr () else Inl ''unexpected server response'')"

fun wire_next :: "bool list \<Rightarrow> Wire_Conn \<Rightarrow> read1 list \<Rightarrow> (Next \<times> Wire_Conn \<times> read1 list) option" where
  "wire_next [] c rs = None"
| "wire_next (late # lates) c rs =
     (if late then Some (Timeout, c, rs)
      else case read_line_into (wc_buf c) rs of
        None \<Rightarrow> None
      | Some (line, buf, rs') \<Rightarrow>
          let c = c\<lparr>wc_buf := buf\<rparr> in
          if absorb_ping (wc_auto_pong c) line then wire_next lates (wire_send (''PONG'' @ CRLF) c) rs'
          else Some (line, c, rs'))"

text \<open>The loop of \<^verbatim>\<open>barrier\<close>: at most \<open>k\<close> lines; every line has turns of its own.\<close>

fun barrier_loop :: "nat \<Rightarrow> bool list list \<Rightarrow> Wire_Conn \<Rightarrow> read1 list \<Rightarrow> (bytes + (Wire_Conn \<times> read1 list)) option" where
  "barrier_loop 0 ts c rs = Some (Inl ''too much traffic before the PONG barrier'')"
| "barrier_loop (Suc k) ts c rs =
     (case ts of
        [] \<Rightarrow> None
      | t # ts' \<Rightarrow>
          (case wire_next t c rs of
             None \<Rightarrow> None
           | Some (line, c', rs') \<Rightarrow>
               (case line of
                  NextLine l \<Rightarrow>
                    if l = ''PONG'' @ CRLF then Some (Inr (c', rs'))
                    else if take 3 l = ''+OK'' then barrier_loop k ts' c' rs'
                    else Some (Inl ''expected PONG barrier'')
                | _ \<Rightarrow> Some (Inl ''expected PONG barrier''))))"

definition barrier :: "bool list list \<Rightarrow> Wire_Conn \<Rightarrow> read1 list \<Rightarrow> (bytes + (Wire_Conn \<times> read1 list)) option" where
  "barrier ts c rs = barrier_loop 64 ts (wire_send (''PING'' @ CRLF) c) rs"

text \<open>\<^verbatim>\<open>drain\<close>: what was buffered and what arrives until the server is quiet.\<close>

fun drain_loop :: "bytes \<Rightarrow> Wire_Conn \<Rightarrow> read1 list \<Rightarrow> (bytes \<times> Wire_Conn \<times> read1 list) option" where
  "drain_loop out c [] = None"
| "drain_loop out c (r # rs) =
     (case r of
        RByte b \<Rightarrow>
          (case absorb_ping_bytes (wc_auto_pong c) (out @ [b]) of
             Some out' \<Rightarrow> drain_loop out' (wire_send (''PONG'' @ CRLF) c) rs
           | None \<Rightarrow> drain_loop (out @ [b]) c rs)
      | _ \<Rightarrow> Some (out, c, rs))"

definition wire_drain :: "Wire_Conn \<Rightarrow> read1 list \<Rightarrow> (bytes \<times> Wire_Conn \<times> read1 list) option" where
  "wire_drain c rs = drain_loop (wc_buf c) (c\<lparr>wc_buf := []\<rparr>) rs"

text \<open>\<^verbatim>\<open>closed\<close>.\<close>

fun closed_loop :: "Wire_Conn \<Rightarrow> read1 list \<Rightarrow> (bool \<times> Wire_Conn \<times> read1 list) option" where
  "closed_loop c [] = None"
| "closed_loop c (r # rs) =
     (case r of
        REof \<Rightarrow> Some (True, c, rs)
      | RErr \<Rightarrow> Some (True, c, rs)
      | RTimeout \<Rightarrow> Some (False, c, rs)
      | RByte b \<Rightarrow>
          (case absorb_ping_bytes (wc_auto_pong c) (wc_buf c @ [b]) of
             Some v \<Rightarrow>
               let c' = (wire_send (''PONG'' @ CRLF) c)\<lparr>wc_buf := v\<rparr> in
               if v \<noteq> [] then Some (False, c', rs) else closed_loop c' rs
           | None \<Rightarrow> Some (False, c\<lparr>wc_buf := wc_buf c @ [b]\<rparr>, rs)))"

definition wire_closed :: "Wire_Conn \<Rightarrow> read1 list \<Rightarrow> (bool \<times> Wire_Conn \<times> read1 list) option" where
  "wire_closed c rs = (if wc_buf c \<noteq> [] then Some (False, c, rs) else closed_loop c rs)"

text \<open>\<^verbatim>\<open>read_msg_body\<close>: reads of any size until the body and its line end are there.\<close>

datatype BodyRead = BChunk bytes | BEof | BErr bytes | BTimeout

fun body_loop :: "nat \<Rightarrow> bytes \<Rightarrow> BodyRead list \<Rightarrow> (bytes + (bytes \<times> BodyRead list)) option" where
  "body_loop n filled [] = (if length filled < n + 2 then None else Some (Inr (filled, [])))"
| "body_loop n filled (r # rs) =
     (if length filled < n + 2 then
        (case r of
           BChunk b \<Rightarrow> if b = [] then Some (Inl ''connection closed mid-payload'') else body_loop n (filled @ b) rs
         | BEof \<Rightarrow> Some (Inl ''connection closed mid-payload'')
         | BErr e \<Rightarrow> Some (Inl (''read error: '' @ e))
         | BTimeout \<Rightarrow>
             Some (Inl (''payload read timed out with '' @ show_nat (length filled) @ '' of '' @ show_nat (n + 2) @ '' bytes'')))
      else Some (Inr (filled, r # rs)))"

definition read_msg_body :: "nat \<Rightarrow> BodyRead list \<Rightarrow> (bytes + (bytes \<times> BodyRead list)) option" where
  "read_msg_body n rs =
     (case body_loop n [] rs of
        None \<Rightarrow> None
      | Some (Inl e) \<Rightarrow> Some (Inl e)
      | Some (Inr (body, rs')) \<Rightarrow>
          if drop n body = CRLF then Some (Inr (take n body, rs')) else Some (Inl ''payload must be CRLF terminated''))"

section \<open>Reading lines\<close>

lemma find_crlf_none:
  assumes "CR \<notin> set (butlast buf)"
  shows "wire_find_crlf buf = None"
proof -
  have "zip buf (tl buf) = zip (butlast buf) (tl buf)"
    by (cases buf rule: rev_cases) (simp_all add: zip_append1)
  then show ?thesis using assms by (auto simp: wire_find_crlf_def position_None_iff dest: set_zip_leftD)
qed

lemma find_crlf_end: "CR \<notin> set l \<Longrightarrow> wire_find_crlf (l @ [CR, LF]) = Some (length l)"
proof (induction l)
  case (Cons b l)
  then show ?case by (cases l) (auto simp: wire_find_crlf_def)
qed (simp add: wire_find_crlf_def)

lemma read_line_from:
  assumes "CR \<notin> set l"
  shows "buf @ t = l @ [CR, LF] \<Longrightarrow> read_line_into buf (map RByte t @ rs) = Some (NextLine (l @ [CR, LF]), [], rs)"
proof (induction t arbitrary: buf)
  case Nil
  then have "buf = l @ [CR, LF]" by simp
  then show ?case by (simp add: read_line_into.simps [of "l @ [CR, LF]"] find_crlf_end [OF assms])
next
  case (Cons b t)
  have "prefix buf (butlast (l @ [CR, LF]))"
    using Cons.prems by (metis append_butlast_last_id butlast_append list.distinct(1) prefixI snoc_eq_iff_butlast)
  then have "set (butlast buf) \<subseteq> set l"
    by (auto simp: butlast_append prefix_snoc dest: set_mono_prefix in_set_butlastD)
  then have "wire_find_crlf buf = None" using assms by (intro find_crlf_none) auto
  then show ?case using Cons.IH [of "buf @ [b]"] Cons.prems by (simp add: read_line_into.simps [of buf])
qed

lemma read_line:
  "CR \<notin> set l \<Longrightarrow> read_line_into [] (map RByte (l @ [CR, LF]) @ rs) = Some (NextLine (l @ [CR, LF]), [], rs)"
  using read_line_from [of l "[]" "l @ [CR, LF]" rs] by simp

lemma connect_reads_info:
  "CR \<notin> set l \<Longrightarrow> take 5 l = ''INFO '' \<Longrightarrow>
     wire_connect (map RByte (l @ [CR, LF]) @ rs) = Some (Inr (drop 5 l @ [CR, LF], \<lparr>wc_buf = [], wc_auto_pong = True, wc_sent = []\<rparr>, rs))"
proof -
  assume l: "CR \<notin> set l" "take 5 l = ''INFO ''"
  then have "length (take 5 l) = 5" by simp
  then have "5 \<le> length l" by simp
  with l read_line [OF l(1), of rs] show ?thesis by (simp add: wire_connect_def connect_raw_def)
qed

definition ping_line :: bytes where "ping_line = ''PING'' @ CRLF"
definition pong_line :: bytes where "pong_line = ''PONG'' @ CRLF"
definition ok_line :: bytes where "ok_line = ''+OK'' @ CRLF"

lemma wire_next_ping:
  assumes "wc_buf c = []" "wc_auto_pong c"
  shows "wire_next (False # lates) c (map RByte ping_line @ rs) = wire_next lates (wire_send pong_line c) rs"
proof -
  have "read_line_into [] (map RByte ping_line @ rs) = Some (NextLine ping_line, [], rs)"
    using read_line [of "''PING''" rs] by (simp add: ping_line_def CRLF_def)
  moreover have "absorb_ping True (NextLine ping_line)" by (simp add: absorb_ping_def ping_line_def CRLF_def)
  ultimately show ?thesis using assms by (cases c) (simp add: pong_line_def)
qed

text \<open>A line behind \<open>k\<close> keepalives.\<close>

lemma wire_next_line:
  assumes "wc_buf c = []" "wc_auto_pong c" "CR \<notin> set l" "l \<noteq> ''PING''"
  shows "wire_next (replicate (Suc k) False) c (map RByte (concat (replicate k ping_line)) @ map RByte (l @ CRLF) @ rs) =
    Some (NextLine (l @ CRLF), c\<lparr>wc_sent := wc_sent c @ concat (replicate k pong_line)\<rparr>, rs)"
  using assms(1,2)
proof (induction k arbitrary: c)
  case 0
  have "read_line_into [] (map RByte (l @ [CR, LF]) @ rs) = Some (NextLine (l @ [CR, LF]), [], rs)" by (rule read_line [OF assms(3)])
  with 0 assms(4) show ?case by (simp add: CRLF_def absorb_ping_def)
next
  case (Suc k)
  have "wire_next (replicate (Suc (Suc k)) False) c (map RByte (concat (replicate (Suc k) ping_line)) @ map RByte (l @ CRLF) @ rs) =
      wire_next (replicate (Suc k) False) (wire_send pong_line c) (map RByte (concat (replicate k ping_line)) @ map RByte (l @ CRLF) @ rs)"
    using wire_next_ping [OF Suc.prems, of "replicate (Suc k) False"] by (simp del: wire_next.simps)
  then show ?case using Suc.IH [of "wire_send pong_line c"] Suc.prems
    by (simp del: wire_next.simps replicate_Suc add: wire_send_def) simp
qed

text \<open>What a connection with \<^verbatim>\<open>auto_pong\<close> gets before the answer to its own \<open>PING\<close>: one acknowledgement per
  entry of \<open>ks\<close>, each behind that many keepalives, then \<open>k\<close> keepalives and the \<open>PONG\<close>; and the turns of
  \<^verbatim>\<open>next\<close> that takes.\<close>

definition barrier_stream :: "nat list \<Rightarrow> nat \<Rightarrow> bytes" where
  "barrier_stream ks k = concat (map (\<lambda>k. concat (replicate k ping_line) @ ok_line) ks) @ concat (replicate k ping_line) @ pong_line"

definition barrier_turns :: "nat list \<Rightarrow> nat \<Rightarrow> bool list list" where
  "barrier_turns ks k = map (\<lambda>k. replicate (Suc k) False) (ks @ [k])"

lemma barrier_loop_passes:
  assumes "wc_buf c = []" "wc_auto_pong c" "length ks < n"
  shows "barrier_loop n (barrier_turns ks k) c (map RByte (barrier_stream ks k) @ rs) =
    Some (Inr (c\<lparr>wc_sent := wc_sent c @ concat (replicate (sum_list ks + k) pong_line)\<rparr>, rs))"
  using assms
proof (induction ks arbitrary: n c)
  case Nil
  then obtain m where "n = Suc m" by (cases n) auto
  moreover have "wire_next (replicate (Suc k) False) c (map RByte (barrier_stream [] k) @ rs) =
      Some (NextLine (''PONG'' @ CRLF), c\<lparr>wc_sent := wc_sent c @ concat (replicate k pong_line)\<rparr>, rs)"
    using wire_next_line [OF Nil(1,2), of "''PONG''" k rs] by (simp add: barrier_stream_def pong_line_def del: replicate_Suc wire_next.simps)
  ultimately show ?case by (simp add: barrier_turns_def del: replicate_Suc wire_next.simps)
next
  case (Cons j ks)
  then obtain m where m: "n = Suc m" "length ks < m" by (cases n) auto
  let ?c = "c\<lparr>wc_sent := wc_sent c @ concat (replicate j pong_line)\<rparr>"
  have "wire_next (replicate (Suc j) False) c (map RByte (barrier_stream (j # ks) k) @ rs) =
      Some (NextLine (''+OK'' @ CRLF), ?c, map RByte (barrier_stream ks k) @ rs)"
    using wire_next_line [OF Cons.prems(1,2), of "''+OK''" j "map RByte (barrier_stream ks k) @ rs"]
    by (simp add: barrier_stream_def ok_line_def del: replicate_Suc wire_next.simps)
  then have "barrier_loop n (barrier_turns (j # ks) k) c (map RByte (barrier_stream (j # ks) k) @ rs) =
      barrier_loop m (barrier_turns ks k) ?c (map RByte (barrier_stream ks k) @ rs)"
    by (simp add: m barrier_turns_def CRLF_def del: replicate_Suc wire_next.simps)
  then show ?case using Cons.IH [of ?c m] Cons.prems m
    by (simp add: replicate_add add.assoc)
qed

text \<open>The barrier of the protocol suite works: up to 63 acknowledgements and any number of keepalives in front of
  the answer do not stop \<^verbatim>\<open>barrier\<close>; it sends its own \<open>PING\<close> and exactly one \<open>PONG\<close> per keepalive, returns
  with the buffer empty, and leaves what follows the \<open>PONG\<close> to the next call.\<close>

theorem barrier_passes:
  assumes "wc_buf c = []" "wc_auto_pong c" "length ks \<le> 63"
  shows "barrier (barrier_turns ks k) c (map RByte (barrier_stream ks k) @ rs) =
    Some (Inr (c\<lparr>wc_sent := wc_sent c @ ping_line @ concat (replicate (sum_list ks + k) pong_line)\<rparr>, rs))"
  using barrier_loop_passes [of "wire_send ping_line c" ks 64 k rs] assms
  by (simp add: barrier_def wire_send_def ping_line_def)

theorem barrier_passes_witness:
  "barrier (barrier_turns [0, 1] 1) \<lparr>wc_buf = [], wc_auto_pong = True, wc_sent = ''SUB a 1'' @ CRLF\<rparr>
      (map RByte (barrier_stream [0, 1] 1) @ [RTimeout]) =
    Some (Inr (\<lparr>wc_buf = [], wc_auto_pong = True,
      wc_sent = ''SUB a 1'' @ CRLF @ ''PING'' @ CRLF @ ''PONG'' @ CRLF @ ''PONG'' @ CRLF\<rparr>, [RTimeout]))"
  using barrier_passes [of "\<lparr>wc_buf = [], wc_auto_pong = True, wc_sent = ''SUB a 1'' @ CRLF\<rparr>" "[0, 1]" 1 "[RTimeout]"]
  by (simp add: ping_line_def pong_line_def numeral_2_eq_2)

section \<open>What the server makes of the client's lines\<close>

lemma feed_ping: "4 \<le> max_control_line lim \<Longrightarrow> feed_into lim Line (''PING'' @ CRLF @ src) out = feed_into lim Line src (out @ [Ping])"
  using feed_event_line [of lim "''PING''" Ping src out] parse_line_PING [of "''PING''" "[]" lim]
  by (simp add: line_fits_def CRLF_def eq_ignore_def)

lemma feed_pong: "4 \<le> max_control_line lim \<Longrightarrow> feed_into lim Line (''PONG'' @ CRLF @ src) out = feed_into lim Line src (out @ [Pong])"
  using feed_event_line [of lim "''PONG''" Pong src out] parse_line_PONG [of "''PONG''" "[]" lim]
  by (simp add: line_fits_def CRLF_def eq_ignore_def)

lemma feed_pongs:
  assumes "4 \<le> max_control_line lim"
  shows "feed_into lim Line (concat (replicate n pong_line) @ src) out = feed_into lim Line src (out @ replicate n Pong)"
proof (induction n arbitrary: out)
  case (Suc n)
  then show ?case using feed_pong [OF assms, of "concat (replicate n pong_line) @ src" out] by (simp add: pong_line_def)
qed simp

lemma feed_connect:
  assumes "opts \<noteq> []" "\<not> is_blank (hd opts)" "CR \<notin> set opts" "length opts + 8 \<le> max_control_line lim"
  shows "feed_into lim Line (''CONNECT '' @ opts @ CRLF @ src) out = feed_into lim Line src (out @ [Connect opts])"
proof -
  have "dropWhile is_blank (SP # opts) = opts" using assms(1,2) by (cases opts) (simp_all add: is_blank_def)
  then have "parse_line (''CONNECT'' @ SP # opts) lim = Inr (ActEvent (Connect opts))"
    using parse_line_CONNECT [of "''CONNECT''" "SP # opts" lim] assms(1) by (cases opts) (simp_all add: eq_ignore_def)
  then show ?thesis
    using feed_event_line [of lim "''CONNECT'' @ SP # opts" "Connect opts" src out] assms(3,4) by (simp add: line_fits_def CRLF_def)
qed

section \<open>Draining\<close>

text \<open>The keepalive of \<^verbatim>\<open>drain\<close> is never recognised, so draining takes every byte as it is.\<close>

interpretation drainer: frame_reader "\<lambda>rs s. drain_loop (fst s) (snd s) rs" "\<lambda>b. [RByte b]"
    "\<lambda>b s. (fst s @ [b], snd s)" "\<lambda>b. True"
  by unfold_locales (simp add: absorb_ping_bytes_never)

lemma fold_drained: "fold (\<lambda>b s. (fst s @ [b], snd s)) bs (out, c) = (out @ bs, c)"
  by (induction bs arbitrary: out) simp_all

theorem drain_takes_all:
  "wire_drain c (map RByte bs @ RTimeout # rs) = Some (wc_buf c @ bs, c\<lparr>wc_buf := []\<rparr>, rs)"
proof -
  have "concat (map (\<lambda>b. [RByte b]) bs) = map RByte bs" by (induction bs) simp_all
  then show ?thesis
    using drainer.run_frames [of bs "(wc_buf c, c\<lparr>wc_buf := []\<rparr>)" "RTimeout # rs"]
    by (simp add: wire_drain_def fold_drained list_all_iff)
qed

section \<open>A delivery, read by the suite\<close>

lemma body_loop_fills:
  "[] \<notin> set bs \<Longrightarrow> length filled + length (concat bs) = n + 2 \<Longrightarrow>
    body_loop n filled (map BChunk bs @ rs) = Some (Inr (filled @ concat bs, rs))"
proof (induction bs arbitrary: filled)
  case Nil
  then show ?case by (cases rs) simp_all
next
  case (Cons b bs)
  moreover have "length filled < n + 2" "b \<noteq> []" using Cons.prems by (cases b; auto)+
  ultimately show ?case by simp
qed

text \<open>A delivery of the server is one line for \<^verbatim>\<open>next\<close>, with the words of the delivery, and then a body for
  \<^verbatim>\<open>read_msg_body\<close>, however the socket splits it.\<close>

theorem suite_reads_a_delivery:
  fixes headers :: bool
  assumes "wc_buf c = []" "wc_auto_pong c" "msg_plain sid msg" "chunk a = []"
    and "[] \<notin> set bs" "concat bs = delivered_body headers msg @ CRLF" "headers = (m_hdr msg > 0 \<and> hs)"
  shows "\<exists>line. fst (build_frame E a hs sid msg) = line @ CRLF @ concat bs \<and>
    words line = msg_words headers sid msg \<and>
    wire_next [False] c (map RByte (line @ CRLF) @ rs) = Some (NextLine (line @ CRLF), c, rs) \<and>
    read_msg_body (length (delivered_body headers msg)) (map BChunk bs @ ds) = Some (Inr (delivered_body headers msg, ds))"
proof -
  define line where "line = join_sep SP (msg_words headers sid msg)"
  have ws: "list_all plain (msg_words headers sid msg)" by (rule msg_words_plain [OF assms(3)])
  have "line \<noteq> ''PING''"
    using words_join [OF ws] by (auto simp: line_def msg_words_def words_def)
  then have "wire_next [False] c (map RByte (line @ CRLF) @ rs) = Some (NextLine (line @ CRLF), c, rs)"
    using wire_next_line [OF assms(1,2), of line 0 rs] join_no_CR [OF ws] by (simp add: line_def)
  moreover have "fst (build_frame E a hs sid msg) = line @ CRLF @ concat bs"
    using build_frame_bytes(1) [OF assms(4)] assms(6,7) by (simp add: msg_frame_def line_def)
  moreover have "read_msg_body (length (delivered_body headers msg)) (map BChunk bs @ ds) = Some (Inr (delivered_body headers msg, ds))"
    using body_loop_fills [OF assms(5), of "[]" "length (delivered_body headers msg)" ds] assms(6)
    by (simp add: read_msg_body_def CRLF_def)
  ultimately show ?thesis using words_join [OF ws] line_def by auto
qed

end
