(* ===== verification/Subjects.thy ===== *)
theory Subjects
  imports Nats_Prelude
begin

text \<open>
  The subject grammar of \<^verbatim>\<open>crates/server/src/subjects.rs\<close>: tokenizing, validation and wildcard
  matching, over byte strings. The definitions walk the tokens as the source does; the
  lemmas give the declarative reading of each of them and the one fact the registry rests on:
  a filter without a wildcard token matches exactly itself.
\<close>

section \<open>Definitions\<close>

abbreviation SEP :: byte where "SEP \<equiv> CHR ''.''"
abbreviation PWC :: byte where "PWC \<equiv> CHR ''*''"
abbreviation FWC :: byte where "FWC \<equiv> CHR ''>''"

definition ILLEGAL_IN_TOKEN :: bytes where
  "ILLEGAL_IN_TOKEN = [CHR 0x09, CHR 0x0A, CHR 0x0C, CHR 0x0D, CHR 0x20]"

text \<open>\<^verbatim>\<open>s.split(|b| *b == SEP)\<close>.\<close>

definition toks :: "bytes \<Rightarrow> bytes list" where
  "toks s = split_on (\<lambda>b. b = SEP) s"

text \<open>The loop of \<^verbatim>\<open>is_valid\<close>, with its \<^verbatim>\<open>after_fw\<close> flag.\<close>

fun is_valid_loop :: "bool \<Rightarrow> bytes list \<Rightarrow> bool" where
  "is_valid_loop after_fw [] = True"
| "is_valid_loop after_fw (tok # ts) =
     (if tok = [] \<or> after_fw then False
      else if length tok > 1 then
        (if \<exists>b\<in>set tok. b \<in> set ILLEGAL_IN_TOKEN then False else is_valid_loop after_fw ts)
      else is_valid_loop (if tok ! 0 = FWC then True else after_fw) ts)"

definition is_valid :: "bytes \<Rightarrow> bool" where
  "is_valid s = (if s = [] then False else is_valid_loop False (toks s))"

definition wild_tok :: "bytes \<Rightarrow> bool" where
  "wild_tok tok \<longleftrightarrow> length tok = 1 \<and> (tok ! 0 = PWC \<or> tok ! 0 = FWC)"

definition has_wildcard :: "bytes \<Rightarrow> bool" where
  "has_wildcard s \<longleftrightarrow> list_ex wild_tok (toks s)"

definition is_valid_publish :: "bytes \<Rightarrow> bool" where
  "is_valid_publish s \<longleftrightarrow> is_valid s \<and> \<not> has_wildcard s"

text \<open>The loop of \<^verbatim>\<open>matches\<close>, over the two token iterators.\<close>

fun matches_loop :: "bytes list \<Rightarrow> bytes list \<Rightarrow> bool" where
  "matches_loop (ftok # fs) (stok # ss) =
     (if ftok = [FWC] then True
      else if ftok \<noteq> stok \<and> ftok \<noteq> [PWC] then False
      else matches_loop fs ss)"
| "matches_loop (_ # _) [] = False"
| "matches_loop [] (_ # _) = False"
| "matches_loop [] [] = True"

definition matches :: "bytes \<Rightarrow> bytes \<Rightarrow> bool" where
  "matches f s = matches_loop (toks f) (toks s)"

definition tokens :: "bytes \<Rightarrow> nat" where
  "tokens s = (if s = [] then 0 else length (filter (\<lambda>b. b = SEP) s) + 1)"

section \<open>Tokens\<close>

lemma toks_neq_Nil [simp]: "toks s \<noteq> []"
  by (simp add: toks_def)

lemma toks_inj: "toks s = toks t \<longleftrightarrow> s = t"
  by (simp add: toks_def split_on_inj)

lemma toks_no_sep: "t \<in> set (toks s) \<Longrightarrow> SEP \<notin> set t"
  using split_on_tokens_no_sep by (fastforce simp: toks_def)

lemma length_toks: "length (toks s) = length (filter (\<lambda>b. b = SEP) s) + 1"
  by (simp add: toks_def length_split_on)

lemma wild_tok_iff: "wild_tok t \<longleftrightarrow> t = [PWC] \<or> t = [FWC]"
  by (cases t) (auto simp: wild_tok_def)

section \<open>Validity\<close>

text \<open>The declarative reading of validity: the rules of the grammar, one by one.\<close>

definition subject_rules :: "bytes list \<Rightarrow> bool" where
  "subject_rules ts \<longleftrightarrow>
     (\<forall>t\<in>set ts. t \<noteq> []) \<and>
     (\<forall>t\<in>set ts. length t > 1 \<longrightarrow> set t \<inter> set ILLEGAL_IN_TOKEN = {}) \<and>
     (\<forall>t\<in>set (butlast ts). t \<noteq> [FWC])"

lemma is_valid_loop_True: "is_valid_loop True ts \<longleftrightarrow> ts = []"
  by (cases ts) auto

lemma is_valid_loop_iff: "is_valid_loop False ts \<longleftrightarrow> subject_rules ts"
proof (induction ts)
  case (Cons t ts)
  consider "t = []" | c where "t = [c]" | "length t > 1"
    by (cases t rule: remdups_adj.cases) auto
  then show ?case
    by cases (use Cons in \<open>auto simp: subject_rules_def is_valid_loop_True split: if_splits\<close>)
qed (simp add: subject_rules_def)

lemma is_valid_alt: "is_valid s \<longleftrightarrow> s \<noteq> [] \<and> subject_rules (toks s)"
  by (simp add: is_valid_def is_valid_loop_iff)

section \<open>Matching\<close>

text \<open>
  The declarative reading of matching: tokens agree position by position up to the first
  \<^verbatim>\<open>>\<close> of the filter, which needs at least one token of the subject for itself; without one
  the two have the same number of tokens.
\<close>

definition tok_agrees :: "bytes \<Rightarrow> bytes \<Rightarrow> bool" where
  "tok_agrees f s \<longleftrightarrow> f = s \<or> f = [PWC]"

definition match_rules :: "bytes list \<Rightarrow> bytes list \<Rightarrow> bool" where
  "match_rules fs ss \<longleftrightarrow>
     (case position (\<lambda>t. t = [FWC]) fs of
        None \<Rightarrow> list_all2 tok_agrees fs ss
      | Some i \<Rightarrow> i < length ss \<and> list_all2 tok_agrees (take i fs) (take i ss))"

lemma matches_loop_iff: "matches_loop fs ss \<longleftrightarrow> match_rules fs ss"
  by (induction fs ss rule: matches_loop.induct)
    (auto simp: match_rules_def tok_agrees_def split: option.splits)

lemma matches_alt: "matches f s \<longleftrightarrow> match_rules (toks f) (toks s)"
  by (simp add: matches_def matches_loop_iff)

lemma matches_loop_literal:
  "\<not> list_ex wild_tok fs \<Longrightarrow> matches_loop fs ss \<longleftrightarrow> fs = ss"
  by (induction fs ss rule: matches_loop.induct) (auto simp: wild_tok_iff)

lemma matches_literal: "\<not> has_wildcard f \<Longrightarrow> matches f s \<longleftrightarrow> f = s"
  by (simp add: matches_def has_wildcard_def matches_loop_literal toks_inj)

lemma matches_refl_literal: "\<not> has_wildcard f \<Longrightarrow> matches f f"
  by (simp add: matches_literal)

section \<open>Properties\<close>

text \<open>C31. A subject or filter is accepted exactly when it is not empty and its tokens obey the grammar: no
  empty token, no illegal byte in a token of two bytes or more, and \<^verbatim>\<open>>\<close> only as the last token.\<close>

theorem is_valid_iff_rules: "is_valid s \<longleftrightarrow> s \<noteq> [] \<and> subject_rules (toks s)"
  by (rule is_valid_alt)

text \<open>C32. The token walk of \<^verbatim>\<open>matches\<close> decides the declarative matching relation: agreement position by
  position up to the first \<^verbatim>\<open>>\<close> of the filter, which takes one token or more.\<close>

theorem matches_iff_rules: "matches f s \<longleftrightarrow> match_rules (toks f) (toks s)"
  by (rule matches_alt)

text \<open>A filter without wildcards matches exactly the subject it spells, so a legal publish subject is
  matched by itself and by no other literal.\<close>

theorem literal_matches_itself_only: "is_valid_publish f \<Longrightarrow> matches f s \<longleftrightarrow> f = s"
  by (simp add: is_valid_publish_def matches_literal)

theorem literal_matches_itself_only_witness:
  "is_valid_publish ''a.b'' \<and> matches ''a.b'' ''a.b'' \<and> \<not> matches ''a.b'' ''a.c''"
proof -
  have "is_valid_publish ''a.b''" by code_simp
  from this literal_matches_itself_only [OF this, of "''a.b''"] literal_matches_itself_only [OF this, of "''a.c''"]
  show ?thesis by simp
qed

end
