(* ===== verification/Outbox.thy ===== *)
theory Outbox
  imports Frames "HOL-Library.Sublist"
begin

text \<open>
  The outbound queue of a connection (\<^verbatim>\<open>Outbox\<close> of \<^verbatim>\<open>crates/server/src/client.rs\<close>): its byte counter
  and two limits, queueing, draining, and giving up. \<open>ob_tx\<close> is the sending half with its arena,
  \<open>ob_chan\<close> the channel, and \<open>ob_notified\<close> counts the calls of \<^verbatim>\<open>space.notify_waiters()\<close>. Each
  operation is one atomic step here; their interleaving is the subject of theory \<^verbatim>\<open>Stall\<close>.
\<close>

datatype Enqueue = EnqOk | SoftLimit | SlowConsumer | Dropped

record 'ch Outbox =
  ob_tx :: "Arena option"
  ob_chan :: 'ch
  ob_rx :: bool
  ob_pending :: u64
  ob_soft :: u64
  ob_hard :: u64
  ob_notified :: nat
  ob_gone :: bool

definition outbox_new :: "('ch, 'j) Deps \<Rightarrow> u64 \<Rightarrow> 'ch Outbox" where
  "outbox_new E max_pending =
     \<lparr>ob_tx = Some (arena_new E), ob_chan = ch_new E, ob_rx = True, ob_pending = 0,
      ob_soft = max_pending div 4 * 3, ob_hard = max_pending, ob_notified = 0, ob_gone = False\<rparr>"

text \<open>\<^verbatim>\<open>push\<close>: account for the frame, and hand it to the channel. The lock on the sender is held.\<close>

definition push :: "('ch, 'j) Deps \<Rightarrow> Frame \<Rightarrow> 'ch Outbox \<Rightarrow> Enqueue \<times> 'ch Outbox" where
  "push E frame ob =
     (let len = of_nat (length frame);
          before = ob_pending ob + len;
          ob1 = ob\<lparr>ob_pending := ob_pending ob + len\<rparr>
      in if before > ob_hard ob then (SlowConsumer, ob1\<lparr>ob_pending := ob_pending ob1 - len\<rparr>)
         else case ch_send E frame (ob_chan ob1) of
           None \<Rightarrow> (Dropped, ob1\<lparr>ob_pending := ob_pending ob1 - len\<rparr>)
         | Some ch \<Rightarrow> (if before > ob_soft ob then SoftLimit else EnqOk, ob1\<lparr>ob_chan := ch\<rparr>))"

definition take_rx :: "'ch Outbox \<Rightarrow> bool \<times> 'ch Outbox" where
  "take_rx ob = (ob_rx ob, ob\<lparr>ob_rx := False\<rparr>)"

definition outbox_enqueue :: "('ch, 'j) Deps \<Rightarrow> Frame \<Rightarrow> 'ch Outbox \<Rightarrow> Enqueue \<times> 'ch Outbox" where
  "outbox_enqueue E frame ob =
     (case ob_tx ob of Some sender \<Rightarrow> push E frame ob | None \<Rightarrow> (Dropped, ob))"

definition queue_with :: "('ch, 'j) Deps \<Rightarrow> (Arena \<Rightarrow> Frame \<times> Arena) \<Rightarrow> 'ch Outbox \<Rightarrow> Enqueue \<times> 'ch Outbox" where
  "queue_with E build ob =
     (case ob_tx ob of
        None \<Rightarrow> (Dropped, ob)
      | Some arena \<Rightarrow>
          (case build arena of (frame, arena') \<Rightarrow> push E frame (ob\<lparr>ob_tx := Some arena'\<rparr>)))"

definition saturating_sub :: "u64 \<Rightarrow> u64 \<Rightarrow> u64" where
  "saturating_sub a b = (if b \<le> a then a - b else 0)"

definition drained :: "u64 \<Rightarrow> 'ch Outbox \<Rightarrow> 'ch Outbox" where
  "drained bs ob =
     (if ob_gone ob then ob
      else let was = ob_pending ob; ob1 = ob\<lparr>ob_pending := was - bs\<rparr> in
        if was > ob_soft ob \<and> saturating_sub was bs \<le> ob_soft ob
        then ob1\<lparr>ob_notified := ob_notified ob1 + 1\<rparr> else ob1)"

definition room :: "'ch Outbox \<Rightarrow> bool" where
  "room ob \<longleftrightarrow> ob_gone ob \<or> ob_pending ob \<le> ob_soft ob"

definition has_room :: "'ch Outbox \<Rightarrow> bool" where "has_room ob = room ob"

definition no_more_writes :: "'ch Outbox \<Rightarrow> 'ch Outbox" where
  "no_more_writes ob =
     ob\<lparr>ob_gone := True, ob_pending := 0, ob_notified := ob_notified ob + 1\<rparr>"

section \<open>The invariant\<close>

text \<open>
  The counter holds the bytes that are queued plus the \<open>inflight\<close> bytes the writer has taken and
  not yet reported, until the connection is given up; and these bytes are never more than the
  hard limit.
\<close>

definition frames_bytes :: "Frame list \<Rightarrow> nat" where
  "frames_bytes fs = length (concat fs)"

definition queued :: "('ch, 'j) Deps \<Rightarrow> 'ch Outbox \<Rightarrow> Frame list" where
  "queued E ob = ch_frames E (ob_chan ob)"

definition outbox_ok :: "('ch, 'j) Deps \<Rightarrow> nat \<Rightarrow> 'ch Outbox \<Rightarrow> bool" where
  "outbox_ok E inflight ob \<longleftrightarrow>
     ob_soft ob = ob_hard ob div 4 * 3 \<and>
     (\<forall>a. ob_tx ob = Some a \<longrightarrow> chunk a = []) \<and> (ob_gone ob \<longrightarrow> ob_tx ob = None) \<and>
     frames_bytes (queued E ob) + inflight \<le> unat (ob_hard ob) \<and>
     (ob_gone ob \<or> unat (ob_pending ob) = frames_bytes (queued E ob) + inflight)"

lemma frames_bytes_simps [simp]:
  "frames_bytes [] = 0" "frames_bytes (f # fs) = length f + frames_bytes fs"
  "frames_bytes (fs @ gs) = frames_bytes fs + frames_bytes gs"
  by (simp_all add: frames_bytes_def)

lemma u64_less: "unat (w :: u64) < 2 ^ 64"
  using unsigned_less [of w] by simp

lemma soft_le_hard: "(h::u64) div 4 * 3 \<le> h"
proof -
  have "unat h div 4 * 3 < 2 ^ 64" using u64_less [of h] by simp
  then show ?thesis by (simp add: word_le_nat_alt unat_word_ariths unat_div)
qed

text \<open>A frame the counter can take without wrapping around.\<close>

definition ob_fits :: "'ch Outbox \<Rightarrow> nat \<Rightarrow> bool" where
  "ob_fits ob n \<longleftrightarrow> unat (ob_hard ob) + n < 2 ^ 64"

lemma unat_add_fits:
  fixes p h :: u64
  assumes "p \<le> h" "unat h + n < 2 ^ 64"
  shows "unat (p + of_nat n) = unat p + n"
proof -
  have "unat p \<le> unat h" using assms(1) by (simp add: word_le_nat_alt)
  then have "unat p + n < 2 ^ 64" "n < 2 ^ 64" using assms(2) by linarith+
  then show ?thesis by (simp add: unat_word_ariths unat_of_nat)
qed

text \<open>What \<open>push\<close> answers and leaves, over the integers.\<close>

lemma push_cases:
  assumes "deps_ok E" "ob_pending ob \<le> ob_hard ob" "ob_fits ob (length frame)"
  defines "n \<equiv> unat (ob_pending ob) + length frame"
  shows "n > unat (ob_hard ob) \<Longrightarrow> push E frame ob = (SlowConsumer, ob)"
    "n \<le> unat (ob_hard ob) \<Longrightarrow> \<not> ch_live E (ob_chan ob) \<Longrightarrow> push E frame ob = (Dropped, ob)"
    "n \<le> unat (ob_hard ob) \<Longrightarrow> ch_live E (ob_chan ob) \<Longrightarrow>
       \<exists>ch. ch_send E frame (ob_chan ob) = Some ch \<and>
         push E frame ob = (if n > unat (ob_soft ob) then SoftLimit else EnqOk,
           ob\<lparr>ob_pending := ob_pending ob + of_nat (length frame), ob_chan := ch\<rparr>)"
proof -
  have n: "unat (ob_pending ob + of_nat (length frame)) = n"
    using unat_add_fits assms(2,3) by (auto simp: n_def ob_fits_def)
  show "n > unat (ob_hard ob) \<Longrightarrow> push E frame ob = (SlowConsumer, ob)"
    using n by (simp add: push_def Let_def word_less_nat_alt)
  show "n \<le> unat (ob_hard ob) \<Longrightarrow> \<not> ch_live E (ob_chan ob) \<Longrightarrow> push E frame ob = (Dropped, ob)"
    using n deps_okD(5) [OF assms(1), of frame "ob_chan ob"]
    by (simp add: push_def Let_def word_less_nat_alt)
  show "\<exists>ch. ch_send E frame (ob_chan ob) = Some ch \<and>
         push E frame ob = (if n > unat (ob_soft ob) then SoftLimit else EnqOk,
           ob\<lparr>ob_pending := ob_pending ob + of_nat (length frame), ob_chan := ch\<rparr>)"
    if "n \<le> unat (ob_hard ob)" "ch_live E (ob_chan ob)"
    using n that deps_okD(5) [OF assms(1), of frame "ob_chan ob"]
    by (auto simp: push_def Let_def word_less_nat_alt)
qed

definition accepted :: "Enqueue \<Rightarrow> bool" where
  "accepted r \<longleftrightarrow> r = EnqOk \<or> r = SoftLimit"

lemma push_ok:
  assumes "deps_ok E" "outbox_ok E i ob" "\<not> ob_gone ob" "ob_fits ob (length frame)"
    and "push E frame ob = (r, ob')"
  shows "outbox_ok E i ob'" "\<not> ob_gone ob'" "ob_hard ob' = ob_hard ob" "ob_tx ob' = ob_tx ob"
    "queued E ob' = queued E ob @ (if accepted r then [frame] else [])"
proof -
  have p: "ob_pending ob \<le> ob_hard ob" using assms(2,3) by (simp add: outbox_ok_def word_le_nat_alt)
  note c = push_cases [OF assms(1) p assms(4)]
  have "outbox_ok E i ob' \<and> \<not> ob_gone ob' \<and> ob_hard ob' = ob_hard ob \<and> ob_tx ob' = ob_tx ob \<and>
      queued E ob' = queued E ob @ (if accepted r then [frame] else [])"
  proof (cases "unat (ob_pending ob) + length frame > unat (ob_hard ob)")
    case True
    with c(1) assms show ?thesis by (simp add: accepted_def)
  next
    case False
    show ?thesis
    proof (cases "ch_live E (ob_chan ob)")
      case True
      with c(3) False assms(5) obtain ch where ch: "ch_send E frame (ob_chan ob) = Some ch"
        and eq: "ob' = ob\<lparr>ob_pending := ob_pending ob + of_nat (length frame), ob_chan := ch\<rparr>"
        and r: "accepted r" by (auto simp: accepted_def)
      have "unat (ob_pending ob + of_nat (length frame)) = unat (ob_pending ob) + length frame"
        using unat_add_fits [OF p] assms(4) by (simp add: ob_fits_def)
      with False assms(2,3) r eq deps_okD(6) [OF assms(1) ch] show ?thesis
        by (auto simp: outbox_ok_def queued_def word_le_nat_alt)
    next
      case dead: False
      with c(2) False assms show ?thesis by (simp add: accepted_def)
    qed
  qed
  then show "outbox_ok E i ob'" "\<not> ob_gone ob'" "ob_hard ob' = ob_hard ob" "ob_tx ob' = ob_tx ob"
    "queued E ob' = queued E ob @ (if accepted r then [frame] else [])" by auto
qed

text \<open>The operations keep the invariant. The writer's side of the books is \<open>inflight\<close>.\<close>

lemma outbox_new_ok: "deps_ok E \<Longrightarrow> outbox_ok E 0 (outbox_new E h)"
  by (simp add: outbox_ok_def outbox_new_def arena_new_def queued_def deps_okD)

lemma outbox_enqueue_ok:
  assumes "deps_ok E" "outbox_ok E i ob" "ob_fits ob (length frame)" "outbox_enqueue E frame ob = (r, ob')"
  shows "outbox_ok E i ob'" "ob_hard ob' = ob_hard ob" "ob_gone ob' = ob_gone ob"
    "queued E ob' = queued E ob @ (if accepted r then [frame] else [])"
proof -
  have "\<not> ob_gone ob" if "ob_tx ob \<noteq> None" using that assms(2) by (auto simp: outbox_ok_def)
  then show "outbox_ok E i ob'" "ob_hard ob' = ob_hard ob" "ob_gone ob' = ob_gone ob"
    "queued E ob' = queued E ob @ (if accepted r then [frame] else [])"
    using assms(2,4) push_ok [OF assms(1,2) _ assms(3), of r ob']
    by (auto simp: outbox_enqueue_def accepted_def split: option.splits)
qed

lemma outbox_set_arena:
  "outbox_ok E i ob \<Longrightarrow> ob_tx ob \<noteq> None \<Longrightarrow> chunk a = [] \<Longrightarrow> outbox_ok E i (ob\<lparr>ob_tx := Some a\<rparr>)"
  by (auto simp: outbox_ok_def queued_def)

lemma queue_with_ok:
  assumes "deps_ok E" "outbox_ok E i ob" "queue_with E (\<lambda>a. build_frame E a hs sid msg) ob = (r, ob')"
    and "ob_fits ob (length (msg_frame (m_hdr msg > 0 \<and> hs) sid msg))"
  shows "outbox_ok E i ob'" "ob_hard ob' = ob_hard ob" "ob_gone ob' = ob_gone ob"
    "queued E ob' = queued E ob @ (if accepted r then [msg_frame (m_hdr msg > 0 \<and> hs) sid msg] else [])"
proof -
  let ?f = "msg_frame (m_hdr msg > 0 \<and> hs) sid msg"
  have "outbox_ok E i ob' \<and> ob_hard ob' = ob_hard ob \<and> ob_gone ob' = ob_gone ob \<and>
    queued E ob' = queued E ob @ (if accepted r then [?f] else [])"
  proof (cases "ob_tx ob")
    case None
    with assms show ?thesis by (simp add: queue_with_def accepted_def)
  next
    case (Some a)
    with assms(2) have a: "chunk a = []" "\<not> ob_gone ob" by (auto simp: outbox_ok_def)
    obtain a' where b: "build_frame E a hs sid msg = (?f, a')" "chunk a' = []"
      using build_frame_bytes [OF a(1), of E hs sid msg] by (cases "build_frame E a hs sid msg") auto
    have ok: "outbox_ok E i (ob\<lparr>ob_tx := Some a'\<rparr>)"
      using outbox_set_arena [OF assms(2) _ b(2)] Some by simp
    have "push E ?f (ob\<lparr>ob_tx := Some a'\<rparr>) = (r, ob')"
      using assms(3) Some b by (simp add: queue_with_def)
    from push_ok [OF assms(1) ok _ _ this] a assms(4) show ?thesis
      by (simp add: ob_fits_def queued_def)
  qed
  then show "outbox_ok E i ob'" "ob_hard ob' = ob_hard ob" "ob_gone ob' = ob_gone ob"
    "queued E ob' = queued E ob @ (if accepted r then [?f] else [])" by auto
qed

lemma drained_ok:
  assumes "outbox_ok E i ob" "n \<le> i"
  shows "outbox_ok E (i - n) (drained (of_nat n) ob)"
proof (cases "ob_gone ob")
  case True
  with assms show ?thesis by (auto simp: drained_def outbox_ok_def)
next
  case False
  with assms have p: "unat (ob_pending ob) = frames_bytes (queued E ob) + i" "ob_pending ob \<le> ob_hard ob"
    by (auto simp: outbox_ok_def word_le_nat_alt)
  have "n < 2 ^ 64" using p(1) assms(2) u64_less [of "ob_pending ob"] by simp
  then have n: "unat (of_nat n :: u64) = n" by (simp add: unat_of_nat)
  then have le: "(of_nat n :: u64) \<le> ob_pending ob" using p(1) assms(2) by (simp add: word_le_nat_alt)
  then have "unat (ob_pending ob - of_nat n) = frames_bytes (queued E ob) + (i - n)"
    using p(1) n assms(2) by (simp add: unat_sub)
  then show ?thesis
    using False assms(1) by (auto simp: drained_def outbox_ok_def queued_def Let_def)
qed

lemma recv_ok:
  assumes "deps_ok E" "outbox_ok E i ob" "ch_recv E (ob_chan ob) = Some (f, ch)"
  shows "outbox_ok E (i + length f) (ob\<lparr>ob_chan := ch\<rparr>)"
  using assms(2) deps_okD(9) [OF assms(1,3)] by (auto simp: outbox_ok_def queued_def)

lemma close_tx_ok: "outbox_ok E i ob \<Longrightarrow> outbox_ok E i (ob\<lparr>ob_tx := None\<rparr>)"
  by (auto simp: outbox_ok_def queued_def)

lemma no_more_writes_ok: "outbox_ok E i ob \<Longrightarrow> ob_tx ob = None \<Longrightarrow> outbox_ok E i (no_more_writes ob)"
  by (auto simp: outbox_ok_def no_more_writes_def queued_def)

lemma no_more_writes_room: "room (no_more_writes ob)" "room (drained n (no_more_writes ob))"
  by (simp_all add: room_def no_more_writes_def drained_def)

section \<open>A bounded queue\<close>

text \<open>
  What the rest of the server relies on: a queue that takes an element at its end or leaves
  everything as it was, and whose weight stays within a fixed limit. \<open>offer\<close> tries a list of
  elements in turn and collects those taken.
\<close>

fun offer :: "('a \<Rightarrow> 'q \<Rightarrow> bool \<times> 'q) \<Rightarrow> 'a list \<Rightarrow> 'q \<Rightarrow> 'a list \<times> 'q" where
  "offer put [] q = ([], q)"
| "offer put (x # xs) q =
     (case put x q of (ok, q1) \<Rightarrow>
        case offer put xs q1 of (ys, q2) \<Rightarrow> (if ok then x # ys else ys, q2))"

locale bounded_queue =
  fixes inv :: "'q \<Rightarrow> bool" and admits :: "'q \<Rightarrow> 'a \<Rightarrow> bool" and put :: "'a \<Rightarrow> 'q \<Rightarrow> bool \<times> 'q"
    and content :: "'q \<Rightarrow> 'a list" and weight :: "'a \<Rightarrow> nat" and limit :: "'q \<Rightarrow> nat"
  assumes put_inv: "inv q \<Longrightarrow> admits q x \<Longrightarrow> put x q = (ok, q') \<Longrightarrow> inv q'"
    and put_admits: "inv q \<Longrightarrow> admits q x \<Longrightarrow> put x q = (ok, q') \<Longrightarrow> admits q' = admits q"
    and put_limit: "inv q \<Longrightarrow> admits q x \<Longrightarrow> put x q = (ok, q') \<Longrightarrow> limit q' = limit q"
    and put_content:
      "inv q \<Longrightarrow> admits q x \<Longrightarrow> put x q = (ok, q') \<Longrightarrow> content q' = content q @ (if ok then [x] else [])"
    and content_limit: "inv q \<Longrightarrow> sum_list (map weight (content q)) \<le> limit q"
begin

lemma offer_spec:
  assumes "inv q" "list_all (admits q) xs" "offer put xs q = (ys, q')"
  shows "inv q' \<and> subseq ys xs \<and> content q' = content q @ ys \<and> limit q' = limit q"
  using assms
proof (induction xs arbitrary: q ys)
  case (Cons x xs)
  obtain ok q1 where p: "put x q = (ok, q1)" by (cases "put x q")
  obtain zs where o: "offer put xs q1 = (zs, q')" and ys: "ys = (if ok then x # zs else zs)"
    using Cons.prems(3) p by (auto split: prod.splits)
  have x: "admits q x" using Cons.prems(2) by simp
  note q1 = put_inv [OF Cons.prems(1) x p] put_admits [OF Cons.prems(1) x p]
    put_limit [OF Cons.prems(1) x p] put_content [OF Cons.prems(1) x p]
  from Cons.IH [OF q1(1) _ o] q1 Cons.prems(2) ys show ?case by auto
qed simp

lemma offer_bounded:
  assumes "inv q" "list_all (admits q) xs" "offer put xs q = (ys, q')"
  shows "subseq ys xs" "content q' = content q @ ys" "sum_list (map weight (content q @ ys)) \<le> limit q"
  using offer_spec [OF assms] content_limit [of q'] by auto

end

definition outbox_put :: "('ch, 'j) Deps \<Rightarrow> Frame \<Rightarrow> 'ch Outbox \<Rightarrow> bool \<times> 'ch Outbox" where
  "outbox_put E frame ob = (case outbox_enqueue E frame ob of (r, ob') \<Rightarrow> (accepted r, ob'))"

interpretation outq: bounded_queue "\<lambda>ob. deps_ok E \<and> outbox_ok E i ob" "\<lambda>ob f. ob_fits ob (length f)"
    "outbox_put E" "queued E" length "\<lambda>ob. unat (ob_hard ob)" for E :: "('ch, 'j) Deps" and i :: nat
proof unfold_locales
  fix q q' :: "'ch Outbox" and x ok
  assume q: "deps_ok E \<and> outbox_ok E i q" and x: "ob_fits q (length x)" and p: "outbox_put E x q = (ok, q')"
  from p obtain r where e: "outbox_enqueue E x q = (r, q')" and ok: "ok = accepted r"
    by (auto simp: outbox_put_def split: prod.splits)
  note k = outbox_enqueue_ok [OF conjunct1 [OF q] conjunct2 [OF q] x e]
  show "deps_ok E \<and> outbox_ok E i q'" using q k by simp
  show "(\<lambda>f. ob_fits q' (length f)) = (\<lambda>f. ob_fits q (length f))" using k by (simp add: ob_fits_def)
  show "unat (ob_hard q') = unat (ob_hard q)" using k by simp
  show "queued E q' = queued E q @ (if ok then [x] else [])" using k ok by simp
next
  fix q :: "'ch Outbox"
  assume "deps_ok E \<and> outbox_ok E i q"
  then show "sum_list (map length (queued E q)) \<le> unat (ob_hard q)"
    by (simp add: outbox_ok_def frames_bytes_def length_concat)
qed

section \<open>Properties\<close>

text \<open>C15. Whatever frames are offered to a connection's queue, it holds in order exactly those it accepted after
  those it had, and the bytes it holds never exceed \<^verbatim>\<open>max_pending\<close>.\<close>

theorem outbox_fifo_bounded:
  assumes "deps_ok E" "outbox_ok E i ob" "list_all (\<lambda>f. ob_fits ob (length f)) fs"
    and "offer (outbox_put E) fs ob = (taken, ob')"
  shows "subseq taken fs \<and> queued E ob' = queued E ob @ taken \<and>
    sum_list (map length (queued E ob')) \<le> unat (ob_hard ob)"
  using outq.offer_bounded [OF _ assms(3,4), of i] assms(1,2) by auto

theorem outbox_fifo_bounded_witness:
  "offer (outbox_put list_deps) [''aaaa'', ''bbbbbbb'', ''cc''] (outbox_new list_deps 8) =
     ([''aaaa'', ''cc''], snd (offer (outbox_put list_deps) [''aaaa'', ''bbbbbbb'', ''cc''] (outbox_new list_deps 8))) \<and>
   queued list_deps (snd (offer (outbox_put list_deps) [''aaaa'', ''bbbbbbb'', ''cc''] (outbox_new list_deps 8))) =
     [''aaaa'', ''cc'']"
proof -
  let ?o = "offer (outbox_put list_deps) [''aaaa'', ''bbbbbbb'', ''cc''] (outbox_new list_deps 8)"
  have f: "fst ?o = [''aaaa'', ''cc'']" by code_simp
  then have o: "?o = ([''aaaa'', ''cc''], snd ?o)" by (metis prod.collapse)
  have "queued list_deps (outbox_new list_deps 8) = []" by code_simp
  moreover have "list_all (\<lambda>f. ob_fits (outbox_new list_deps 8) (length f)) [''aaaa'', ''bbbbbbb'', ''cc'']"
    by (simp add: ob_fits_def outbox_new_def)
  ultimately show ?thesis
    using outbox_fifo_bounded [OF deps_ok_list outbox_new_ok [OF deps_ok_list] _ o] o by auto
qed

text \<open>C22. The verdict on a frame: over the hard limit nothing changes and the subscriber is a slow consumer;
  with the receiver gone nothing changes and the frame is dropped; otherwise it is queued, and the
  publisher is told to wait exactly when more than three quarters of the limit are in use.\<close>

theorem push_verdict:
  assumes "deps_ok E" "outbox_ok E i ob" "\<not> ob_gone ob" "ob_fits ob (length frame)"
  shows "push E frame ob =
    (let n = frames_bytes (queued E ob) + i + length frame in
     if n > unat (ob_hard ob) then (SlowConsumer, ob)
     else if \<not> ch_live E (ob_chan ob) then (Dropped, ob)
     else (if n > unat (ob_hard ob) div 4 * 3 then SoftLimit else EnqOk,
           ob\<lparr>ob_pending := of_nat n, ob_chan := the (ch_send E frame (ob_chan ob))\<rparr>))"
proof -
  have p: "unat (ob_pending ob) = frames_bytes (queued E ob) + i" "ob_pending ob \<le> ob_hard ob"
    using assms(2,3) by (auto simp: outbox_ok_def word_le_nat_alt)
  have soft: "unat (ob_soft ob) = unat (ob_hard ob) div 4 * 3"
    using assms(2) u64_less [of "ob_hard ob"]
    by (simp add: outbox_ok_def unat_word_ariths unat_div)
  have n: "ob_pending ob + of_nat (length frame) = of_nat (frames_bytes (queued E ob) + i + length frame)"
    using p(1) by (metis of_nat_add of_nat_unat ucast_id)
  show ?thesis
    using push_cases [OF assms(1) p(2) assms(4)] p(1) soft n
    by (auto simp: Let_def not_less)
qed

theorem push_verdict_witness:
  "push list_deps ''bbbb'' (outbox_new list_deps 4) =
     (SoftLimit, (outbox_new list_deps 4)\<lparr>ob_pending := 4, ob_chan := (True, [''bbbb''])\<rparr>)"
proof -
  have "\<not> ob_gone (outbox_new list_deps 4)" "ob_fits (outbox_new list_deps 4) (length ''bbbb'')"
    "ch_live list_deps (ob_chan (outbox_new list_deps 4))" "queued list_deps (outbox_new list_deps 4) = []"
    "the (ch_send list_deps ''bbbb'' (ob_chan (outbox_new list_deps 4))) = (True, [''bbbb''])"
    "ob_hard (outbox_new list_deps 4) = 4"
    by (simp_all add: outbox_new_def ob_fits_def list_deps_def queued_def)
  with push_verdict [OF deps_ok_list outbox_new_ok [OF deps_ok_list, of 4], of "''bbbb''"]
  show ?thesis by (simp add: Let_def)
qed

end
