(* ===== verification/Options.thy ===== *)
theory Options
  imports Deps
begin

text \<open>
  The options of a connection (\<^verbatim>\<open>Options\<close> of \<^verbatim>\<open>crates/server/src/client.rs\<close>): the five flags, the
  word a connection keeps them in, and what a \<^verbatim>\<open>CONNECT\<close> object changes.
\<close>

unbundle bit_operations_syntax

record Options =
  o_verbose :: bool
  o_pedantic :: bool
  o_echo :: bool
  o_headers :: bool
  o_no_responders :: bool

definition default_options :: Options where
  "default_options =
     \<lparr>o_verbose = True, o_pedantic = True, o_echo = True, o_headers = False, o_no_responders = False\<rparr>"

definition pack :: "Options \<Rightarrow> u64" where
  "pack opts =
     of_bool (o_verbose opts) OR push_bit 1 (of_bool (o_pedantic opts)) OR push_bit 2 (of_bool (o_echo opts)) OR
     push_bit 3 (of_bool (o_headers opts)) OR push_bit 4 (of_bool (o_no_responders opts))"

definition unpack :: "u64 \<Rightarrow> Options" where
  "unpack word =
     \<lparr>o_verbose = (word AND 1 \<noteq> 0), o_pedantic = (word AND 2 \<noteq> 0), o_echo = (word AND 4 \<noteq> 0),
      o_headers = (word AND 8 \<noteq> 0), o_no_responders = (word AND 16 \<noteq> 0)\<rparr>"

text \<open>One key of the loop of \<^verbatim>\<open>apply_connect\<close>.\<close>

definition set_key :: "bytes \<Rightarrow> bool \<Rightarrow> Options \<Rightarrow> Options" where
  "set_key key b opts =
     (if key = ''verbose'' then opts\<lparr>o_verbose := b\<rparr>
      else if key = ''pedantic'' then opts\<lparr>o_pedantic := b\<rparr>
      else if key = ''echo'' then opts\<lparr>o_echo := b\<rparr>
      else if key = ''headers'' then opts\<lparr>o_headers := b\<rparr>
      else opts\<lparr>o_no_responders := b\<rparr>)"

definition apply_key :: "('ch, 'j) Deps \<Rightarrow> (bytes \<Rightarrow> 'j option) \<Rightarrow> bytes \<Rightarrow> Options \<Rightarrow> Options" where
  "apply_key E obj key opts =
     (case obj key of
        None \<Rightarrow> opts
      | Some v \<Rightarrow> (case js_as_bool E v of None \<Rightarrow> opts | Some b \<Rightarrow> set_key key b opts))"

definition apply_connect :: "('ch, 'j) Deps \<Rightarrow> bytes \<Rightarrow> Options \<Rightarrow> bool \<times> Options" where
  "apply_connect E json opts =
     (case js_from_slice E json of
        None \<Rightarrow> (False, opts)
      | Some v \<Rightarrow>
          (case js_as_object E v of
             None \<Rightarrow> (False, opts)
           | Some obj \<Rightarrow>
               (True, fold (apply_key E obj)
                  [''verbose'', ''pedantic'', ''echo'', ''headers'', ''no_responders''] opts)))"

text \<open>\<^verbatim>\<open>info_is_an_object\<close>: what a client may send as the argument of \<^verbatim>\<open>INFO\<close>.\<close>

definition info_is_an_object :: "('ch, 'j) Deps \<Rightarrow> bytes \<Rightarrow> bool" where
  "info_is_an_object E json \<longleftrightarrow>
     (case js_from_slice E json of Some v \<Rightarrow> js_as_object E v \<noteq> None | None \<Rightarrow> False)"

section \<open>Lemmas\<close>

lemma unpack_pack: "unpack (pack opts) = opts"
  by (cases opts) (auto simp: unpack_def pack_def of_bool_def)

lemma pack_flags: "pack opts AND 4 \<noteq> 0 \<longleftrightarrow> o_echo opts" "pack opts AND 8 \<noteq> 0 \<longleftrightarrow> o_headers opts"
  using unpack_pack [of opts] by (auto simp: unpack_def dest: arg_cong [where f = o_echo] arg_cong [where f = o_headers])

text \<open>The value of one option after a \<^verbatim>\<open>CONNECT\<close>: the boolean of its key, or what it was.\<close>

definition key_or :: "('ch, 'j) Deps \<Rightarrow> (bytes \<Rightarrow> 'j option) \<Rightarrow> bytes \<Rightarrow> bool \<Rightarrow> bool" where
  "key_or E obj key old =
     (case obj key of Some v \<Rightarrow> (case js_as_bool E v of Some b \<Rightarrow> b | None \<Rightarrow> old) | None \<Rightarrow> old)"

lemma apply_keys:
  "fold (apply_key E obj) [''verbose'', ''pedantic'', ''echo'', ''headers'', ''no_responders''] opts =
     \<lparr>o_verbose = key_or E obj ''verbose'' (o_verbose opts), o_pedantic = key_or E obj ''pedantic'' (o_pedantic opts),
      o_echo = key_or E obj ''echo'' (o_echo opts), o_headers = key_or E obj ''headers'' (o_headers opts),
      o_no_responders = key_or E obj ''no_responders'' (o_no_responders opts)\<rparr>"
proof -
  have "apply_key E obj ''verbose'' opts = opts\<lparr>o_verbose := key_or E obj ''verbose'' (o_verbose opts)\<rparr>"
    "apply_key E obj ''pedantic'' opts = opts\<lparr>o_pedantic := key_or E obj ''pedantic'' (o_pedantic opts)\<rparr>"
    "apply_key E obj ''echo'' opts = opts\<lparr>o_echo := key_or E obj ''echo'' (o_echo opts)\<rparr>"
    "apply_key E obj ''headers'' opts = opts\<lparr>o_headers := key_or E obj ''headers'' (o_headers opts)\<rparr>"
    "apply_key E obj ''no_responders'' opts = opts\<lparr>o_no_responders := key_or E obj ''no_responders'' (o_no_responders opts)\<rparr>" for opts
    by (auto simp: apply_key_def set_key_def key_or_def split: option.split)
  then show ?thesis by (cases opts) simp
qed

text \<open>C35. A \<^verbatim>\<open>CONNECT\<close> is refused exactly when its argument is not a JSON object, and then changes nothing;
  otherwise each of the five options takes the boolean of its own key, keeps its value when the key is
  absent or no boolean, and no other key matters. The packed word gives the options back.\<close>

theorem connect_sets_the_options:
  "apply_connect E json opts =
     (if info_is_an_object E json
      then let obj = the (js_as_object E (the (js_from_slice E json))) in
        (True, \<lparr>o_verbose = key_or E obj ''verbose'' (o_verbose opts), o_pedantic = key_or E obj ''pedantic'' (o_pedantic opts),
           o_echo = key_or E obj ''echo'' (o_echo opts), o_headers = key_or E obj ''headers'' (o_headers opts),
           o_no_responders = key_or E obj ''no_responders'' (o_no_responders opts)\<rparr>)
      else (False, opts)) \<and>
   unpack (pack opts) = opts"
  by (auto simp: apply_connect_def info_is_an_object_def apply_keys [simplified] unpack_pack Let_def split: option.split)

end
