(* ===== verification/Nuid.thy ===== *)
theory Nuid
  imports Nats_Prelude
begin

text \<open>
  Identifiers and randomness of \<^verbatim>\<open>crates/server/src/nuid.rs\<close>: the splitmix64 generator on 64-bit
  words and the server id drawn from it. The process seed comes from the operating system, so
  \<open>rng_new\<close> takes it as an argument.
\<close>

unbundle bit_operations_syntax

definition ALPHABET :: bytes where "ALPHABET = ''ABCDEFGHIJKLMNOPQRSTUVWXYZ234567''"
definition PREFIX :: byte where "PREFIX = CHR ''N''"
definition LEN :: nat where "LEN = 56"

record Rng = rng_state :: u64

definition rng_new :: "u64 \<Rightarrow> Rng" where
  "rng_new seed = \<lparr>rng_state = word_rotl 17 (seed * 0x9E3779B97F4A7C15)\<rparr>"

definition next_u64 :: "Rng \<Rightarrow> u64 \<times> Rng" where
  "next_u64 r =
     (let s = rng_state r + 0x9E3779B97F4A7C15;
          z = s;
          z = (z XOR drop_bit 30 z) * 0xBF58476D1CE4E5B9;
          z = (z XOR drop_bit 27 z) * 0x94D049BB133111EB
      in (z XOR drop_bit 31 z, r\<lparr>rng_state := s\<rparr>))"

definition below :: "u64 \<Rightarrow> Rng \<Rightarrow> u64 \<times> Rng" where
  "below bound r =
     (if bound = 0 then (0, r)
      else case next_u64 r of (x, r') \<Rightarrow> (x mod bound, r'))"

text \<open>The loop of \<^verbatim>\<open>server_id\<close>, once per remaining character.\<close>

fun server_id_loop :: "nat \<Rightarrow> bytes \<Rightarrow> Rng \<Rightarrow> bytes \<times> Rng" where
  "server_id_loop 0 out r = (out, r)"
| "server_id_loop (Suc k) out r =
     (case next_u64 r of
        (x, r') \<Rightarrow>
          let i = unat (x mod of_nat (length ALPHABET)) in
          server_id_loop k (out @ [ALPHABET ! i]) r')"

definition server_id :: "Rng \<Rightarrow> bytes \<times> Rng" where
  "server_id r = server_id_loop (LEN - 1) [PREFIX] r"

section \<open>Lemmas\<close>

lemma length_ALPHABET: "length ALPHABET = 32"
  by (simp add: ALPHABET_def)

lemma server_id_loop_spec:
  "\<exists>cs. fst (server_id_loop k out r) = out @ cs \<and> length cs = k \<and> set cs \<subseteq> set ALPHABET"
proof (induction k arbitrary: out r)
  case (Suc k)
  obtain x r' where n: "next_u64 r = (x, r')" by (cases "next_u64 r")
  have "unat (x mod of_nat (length ALPHABET)) < length ALPHABET"
    by (simp add: length_ALPHABET unat_mod)
  then have "ALPHABET ! unat (x mod of_nat (length ALPHABET)) \<in> set ALPHABET" by (rule nth_mem)
  with Suc [of "out @ [ALPHABET ! unat (x mod of_nat (length ALPHABET))]" r'] n show ?case
    by (fastforce simp: Let_def)
qed simp

lemma below_bound:
  assumes "bound \<noteq> 0"
  shows "fst (below bound r) < bound"
proof -
  obtain x r' where n: "next_u64 r = (x, r')" by (cases "next_u64 r")
  have "0 < unat bound" using assms by (simp add: unat_gt_0)
  then have "unat (x mod bound) < unat bound" by (simp add: unat_mod)
  with n assms show ?thesis by (simp add: below_def word_less_nat_alt)
qed

text \<open>The server id has the shape of a public key of the reference: 56 characters, the server prefix
  first, all of them from the base-32 alphabet.\<close>

theorem server_id_shape:
  "length (fst (server_id r)) = 56 \<and> hd (fst (server_id r)) = CHR ''N'' \<and>
   set (fst (server_id r)) \<subseteq> set ALPHABET"
proof -
  obtain cs where "fst (server_id r) = PREFIX # cs" "length cs = LEN - 1" "set cs \<subseteq> set ALPHABET"
    using server_id_loop_spec [of "LEN - 1" "[PREFIX]" r] by (auto simp: server_id_def)
  then show ?thesis by (auto simp: PREFIX_def LEN_def ALPHABET_def)
qed

end
