(* ===== verification/Registry.thy ===== *)
theory Registry
  imports Subjects Nuid "HOL-Library.AList" "HOL-Library.Multiset"
begin

text \<open>
  The subscription registry of \<^verbatim>\<open>crates/server/src/routing.rs\<close>: subscriptions, the literal map and
  the wildcard list, the generation counter, the interest cache of a publishing task, and the
  choice of one member per queue group. A connection is its address, \<^verbatim>\<open>is_same\<close> the equality of
  addresses. A \<^verbatim>\<open>HashMap\<close> is an association list with distinct keys; the mutable counters of a
  subscription are a \<open>SubCell\<close>, kept apart under the subscription's address.
\<close>

section \<open>Subscriptions\<close>

record Sub =
  s_addr :: nat
  s_subject :: bytes
  s_queue :: "bytes option"
  s_sid :: bytes
  s_conn :: nat
  s_wildcard :: bool
  s_queued :: bool

record SubCell =
  delivered :: u64
  limit :: u64

definition sub_new :: "nat \<Rightarrow> bytes \<Rightarrow> bytes option \<Rightarrow> bytes \<Rightarrow> nat \<Rightarrow> Sub" where
  "sub_new addr subject queue sid conn =
     \<lparr>s_addr = addr, s_subject = subject, s_queue = queue, s_sid = sid, s_conn = conn,
      s_wildcard = has_wildcard subject, s_queued = (queue \<noteq> None)\<rparr>"

definition cell_new :: SubCell where "cell_new = \<lparr>delivered = 0, limit = 0\<rparr>"

definition set_limit :: "int \<Rightarrow> SubCell \<Rightarrow> bool \<times> SubCell" where
  "set_limit m c =
     (if m > 0 \<and> (word_of_int m :: u64) > delivered c
      then (False, c\<lparr>limit := word_of_int m\<rparr>)
      else (True, c\<lparr>limit := 0\<rparr>))"

definition account :: "SubCell \<Rightarrow> bool \<times> SubCell" where
  "account c =
     (let n = delivered c + 1; m = limit c in (m \<noteq> 0 \<and> n \<ge> m, c\<lparr>delivered := n\<rparr>))"

definition same :: "Sub \<Rightarrow> Sub \<Rightarrow> bool" where
  "same a b \<longleftrightarrow> s_sid a = s_sid b \<and> s_subject a = s_subject b \<and> s_conn a = s_conn b"

definition identical :: "Sub \<Rightarrow> Sub \<Rightarrow> bool" where
  "identical a b \<longleftrightarrow>
     s_sid a = s_sid b \<and> s_subject a = s_subject b \<and> s_queue a = s_queue b \<and> s_conn a = s_conn b"

section \<open>The registry\<close>

record Inner =
  i_literal :: "(bytes \<times> Sub list) list"
  i_wildcard :: "Sub list"
  i_total :: u64

record Registry =
  r_inner :: Inner
  r_rng :: Rng
  r_generation :: u64

definition registry_new :: "Rng \<Rightarrow> Registry" where
  "registry_new rng =
     \<lparr>r_inner = \<lparr>i_literal = [], i_wildcard = [], i_total = 0\<rparr>, r_rng = rng, r_generation = 0\<rparr>"

definition changed :: "Registry \<Rightarrow> Registry" where
  "changed r = r\<lparr>r_generation := r_generation r + 1\<rparr>"

definition inner_insert :: "Sub \<Rightarrow> Inner \<Rightarrow> bool \<times> Inner" where
  "inner_insert sub inner =
     (if s_wildcard sub then
        (if \<not> list_ex (\<lambda>s. same s sub) (i_wildcard inner)
         then (True, inner\<lparr>i_wildcard := i_wildcard inner @ [sub], i_total := i_total inner + 1\<rparr>)
         else (False, inner))
      else
        let entry = (case map_of (i_literal inner) (s_subject sub) of Some l \<Rightarrow> l | None \<Rightarrow> []);
            inner1 = inner\<lparr>i_literal := AList.update (s_subject sub) entry (i_literal inner)\<rparr>
        in if \<not> list_ex (\<lambda>s. same s sub) entry
           then (True, inner1\<lparr>i_literal := AList.update (s_subject sub) (entry @ [sub]) (i_literal inner1),
                   i_total := i_total inner + 1\<rparr>)
           else (False, inner1))"

definition insert_sub :: "Sub \<Rightarrow> Registry \<Rightarrow> bool \<times> Registry" where
  "insert_sub sub r =
     (if \<not> is_valid (s_subject sub) then (False, r)
      else case inner_insert sub (r_inner r) of
        (added, inner) \<Rightarrow>
          let r1 = r\<lparr>r_inner := inner\<rparr> in (True, if added then changed r1 else r1))"

definition remove_sub :: "Sub \<Rightarrow> Inner \<Rightarrow> Inner" where
  "remove_sub sub inner =
     (let gone = (\<lambda>s. s_sid s = s_sid sub \<and> s_conn s = s_conn sub) in
      if s_wildcard sub then
        let list' = filter (\<lambda>s. \<not> gone s) (i_wildcard inner) in
        inner\<lparr>i_wildcard := list', i_total := i_total inner - of_nat (length (i_wildcard inner) - length list')\<rparr>
      else case map_of (i_literal inner) (s_subject sub) of
        None \<Rightarrow> inner\<lparr>i_total := i_total inner - 0\<rparr>
      | Some list \<Rightarrow>
          let list' = filter (\<lambda>s. \<not> gone s) list;
              lit1 = AList.update (s_subject sub) list' (i_literal inner);
              lit2 = (if list' = [] then AList.delete (s_subject sub) lit1 else lit1)
          in inner\<lparr>i_literal := lit2, i_total := i_total inner - of_nat (length list - length list')\<rparr>)"

definition remove :: "Sub \<Rightarrow> Registry \<Rightarrow> Registry" where
  "remove sub r = changed (r\<lparr>r_inner := remove_sub sub (r_inner r)\<rparr>)"

text \<open>\<^verbatim>\<open>remove_conn\<close>: the loop over the literal lists adds up what it dropped.\<close>

definition remove_conn_inner :: "nat \<Rightarrow> Inner \<Rightarrow> nat \<times> Inner" where
  "remove_conn_inner conn inner =
     (let keep = filter (\<lambda>s. s_conn s \<noteq> conn);
          lit1 = map (\<lambda>(k, l). (k, keep l)) (i_literal inner);
          removed1 = sum_list (map (\<lambda>(k, l). length l - length (keep l)) (i_literal inner));
          lit2 = filter (\<lambda>(k, l). l \<noteq> []) lit1;
          wild = keep (i_wildcard inner);
          removed = removed1 + (length (i_wildcard inner) - length wild)
      in (removed, inner\<lparr>i_literal := lit2, i_wildcard := wild, i_total := i_total inner - of_nat removed\<rparr>))"

definition remove_conn :: "nat \<Rightarrow> Registry \<Rightarrow> Registry" where
  "remove_conn conn r =
     (case remove_conn_inner conn (r_inner r) of
        (removed, inner) \<Rightarrow>
          let r1 = r\<lparr>r_inner := inner\<rparr> in if removed \<noteq> 0 then changed r1 else r1)"

definition subscription_count :: "Registry \<Rightarrow> u64" where
  "subscription_count r = i_total (r_inner r)"

definition matching_of :: "nat \<Rightarrow> bytes \<Rightarrow> Registry \<Rightarrow> Sub list" where
  "matching_of conn subject r =
     (case map_of (i_literal (r_inner r)) subject of
        Some list \<Rightarrow> filter (\<lambda>s. s_conn s = conn) list | None \<Rightarrow> []) @
     filter (\<lambda>s. s_conn s = conn \<and> matches (s_subject s) subject) (i_wildcard (r_inner r))"

section \<open>The interest cache\<close>

record Interest =
  in_generation :: u64
  in_subject :: bytes
  in_subs :: "Sub list"
  in_queue :: bool
  in_chosen :: "Sub list"
  in_groups :: "bytes list"

definition interest_new :: Interest where
  "interest_new =
     \<lparr>in_generation = -1, in_subject = [], in_subs = [], in_queue = False, in_chosen = [], in_groups = []\<rparr>"

definition resolve :: "bytes \<Rightarrow> Registry \<Rightarrow> Interest \<Rightarrow> Interest" where
  "resolve subject r interest =
     (let lits = (case map_of (i_literal (r_inner r)) subject of Some list \<Rightarrow> list | None \<Rightarrow> []);
          wilds = filter (\<lambda>s. matches (s_subject s) subject) (i_wildcard (r_inner r))
      in interest\<lparr>in_subs := lits @ wilds, in_subject := subject,
           in_queue := list_ex s_queued lits \<or> list_ex s_queued wilds,
           in_generation := r_generation r\<rparr>)"

section \<open>Queue groups\<close>

text \<open>
  Probing forward from the random start: \<^verbatim>\<open>(start + k) % n\<close> on \<^verbatim>\<open>usize\<close>, where the sum wraps in a
  release build.
\<close>

definition probe :: "u64 \<Rightarrow> 'a list \<Rightarrow> ('a \<Rightarrow> bool) \<Rightarrow> 'a option" where
  "probe start members p =
     (let n = length members in
      List.find p (map (\<lambda>k. members ! (unat (start + of_nat k) mod n)) [0..<n]))"

definition pick :: "u64 \<Rightarrow> Sub list \<Rightarrow> (Sub \<Rightarrow> bool) \<Rightarrow> (Sub \<Rightarrow> bool) \<Rightarrow> Sub option" where
  "pick start members eligible room =
     (case probe start members (\<lambda>s. eligible s \<and> room s) of
        Some s \<Rightarrow> Some s
      | None \<Rightarrow> probe start members eligible)"

text \<open>The loop over the subscriptions: \<open>subs\<close> are those from the current index on.\<close>

fun pick_loop :: "u64 \<Rightarrow> (Sub \<Rightarrow> bool) \<Rightarrow> (Sub \<Rightarrow> bool) \<Rightarrow> Sub list \<Rightarrow> bytes list \<Rightarrow> Sub list \<Rightarrow> bytes list \<times> Sub list" where
  "pick_loop start eligible room [] groups out = (groups, out)"
| "pick_loop start eligible room (sub # subs) groups out =
     (case s_queue sub of
        None \<Rightarrow> pick_loop start eligible room subs groups (out @ [sub])
      | Some grp \<Rightarrow>
          if grp \<in> set groups then pick_loop start eligible room subs groups out
          else
            let members = filter (\<lambda>s. s_queue s = Some grp) (sub # subs) in
            pick_loop start eligible room subs (groups @ [grp])
              (case pick start members eligible room of Some s \<Rightarrow> out @ [s] | None \<Rightarrow> out))"

definition pick_groups :: "(Sub \<Rightarrow> bool) \<Rightarrow> (Sub \<Rightarrow> bool) \<Rightarrow> Registry \<Rightarrow> Interest \<Rightarrow> Interest \<times> Registry" where
  "pick_groups eligible room r interest =
     (case next_u64 (r_rng r) of
        (start, rng) \<Rightarrow>
          (case pick_loop start eligible room (in_subs interest) [] [] of
             (groups, out) \<Rightarrow> (interest\<lparr>in_chosen := out, in_groups := groups\<rparr>, r\<lparr>r_rng := rng\<rparr>)))"

end
