(* ===== verification/Config.thy ===== *)
theory Config
  imports Nats_Prelude
begin

text \<open>
  Options of the server (\<^verbatim>\<open>crates/server/src/config.rs\<close>): the record and its defaults, the port
  rule, the cross-option check, and the command line. Strings are byte strings, durations are
  nanoseconds. The messages of errors keep the text the code prints.
\<close>

section \<open>Options\<close>

definition DEFAULT_PORT :: int where "DEFAULT_PORT = 4222"
definition RANDOM_PORT :: int where "RANDOM_PORT = -1"
definition CFG_MAX_PAYLOAD :: u64 where "CFG_MAX_PAYLOAD = 1024 * 1024"
definition CFG_MAX_PENDING :: u64 where "CFG_MAX_PENDING = 64 * 1024 * 1024"
definition CFG_MAX_CONTROL_LINE :: u64 where "CFG_MAX_CONTROL_LINE = 4096"
definition MAX_CONNECTIONS :: int where "MAX_CONNECTIONS = 64 * 1024"
definition PING_INTERVAL :: nat where "PING_INTERVAL = 120 * 10 ^ 9"
definition MAX_PINGS_OUT :: u64 where "MAX_PINGS_OUT = 2"
definition WRITE_DEADLINE :: nat where "WRITE_DEADLINE = 10 * 10 ^ 9"
definition FIRST_PING_INTERVAL :: nat where "FIRST_PING_INTERVAL = 2 * 10 ^ 9"

record Config =
  cfg_host :: bytes
  cfg_port :: int
  cfg_ports_file_dir :: "bytes option"
  cfg_server_name :: "bytes option"
  cfg_max_payload :: u64
  cfg_max_pending :: u64
  cfg_max_control_line :: u64
  cfg_max_connections :: int
  cfg_ping_interval :: nat
  cfg_write_deadline :: nat
  cfg_debug :: bool
  cfg_trace :: bool

definition default_config :: Config where
  "default_config =
     \<lparr>cfg_host = ''0.0.0.0'', cfg_port = 0, cfg_ports_file_dir = None, cfg_server_name = None,
      cfg_max_payload = CFG_MAX_PAYLOAD, cfg_max_pending = CFG_MAX_PENDING,
      cfg_max_control_line = CFG_MAX_CONTROL_LINE, cfg_max_connections = MAX_CONNECTIONS,
      cfg_ping_interval = PING_INTERVAL, cfg_write_deadline = WRITE_DEADLINE,
      cfg_debug = False, cfg_trace = False\<rparr>"

definition bind_port :: "Config \<Rightarrow> int" where
  "bind_port cfg = (if cfg_port cfg = 0 then DEFAULT_PORT else cfg_port cfg)"

definition validate :: "Config \<Rightarrow> bytes + unit" where
  "validate cfg =
     (if cfg_max_payload cfg > cfg_max_pending cfg
      then Inl (''max_payload ('' @ show_nat (unat (cfg_max_payload cfg)) @ '') cannot be higher than max_pending ('' @
                show_nat (unat (cfg_max_pending cfg)) @ '')'')
      else Inr ())"

section \<open>The command line\<close>

record CmdArgs =
  arg_config_file :: "bytes option"
  arg_test_config :: bool
  arg_version :: bool
  arg_help :: bool
  arg_host :: "bytes option"
  arg_port :: "int option"
  arg_ports_file_dir :: "bytes option"
  arg_server_name :: "bytes option"
  arg_debug :: bool
  arg_trace :: bool

definition default_args :: CmdArgs where
  "default_args =
     \<lparr>arg_config_file = None, arg_test_config = False, arg_version = False, arg_help = False,
      arg_host = None, arg_port = None, arg_ports_file_dir = None, arg_server_name = None,
      arg_debug = False, arg_trace = False\<rparr>"

definition split_once :: "byte \<Rightarrow> bytes \<Rightarrow> (bytes \<times> bytes) option" where
  "split_once c s = map_option (\<lambda>i. (take i s, drop (i + 1) s)) (position (\<lambda>b. b = c) s)"

definition starts_with :: "bytes \<Rightarrow> bytes \<Rightarrow> bool" where
  "starts_with p s \<longleftrightarrow> take (length p) s = p"

text \<open>
  \<^verbatim>\<open>str::parse\<close> for a signed integer of \<open>w\<close> bits: an optional sign and at least one digit, and a
  value in range.
\<close>

definition parse_signed :: "nat \<Rightarrow> bytes \<Rightarrow> int option" where
  "parse_signed w s =
     (let neg = (s \<noteq> [] \<and> hd s = CHR ''-'');
          ds = (if s \<noteq> [] \<and> (hd s = CHR ''-'' \<or> hd s = CHR ''+'') then tl s else s);
          v = (if neg then - int (dec_val ds) else int (dec_val ds))
      in if ds \<noteq> [] \<and> list_all is_ascii_digit ds \<and> - (2 ^ (w - 1)) \<le> v \<and> v < 2 ^ (w - 1)
         then Some v else None)"

text \<open>The flag and its inline value, which only a long flag may carry.\<close>

definition flag_name :: "bytes \<Rightarrow> bytes \<times> bytes option" where
  "flag_name arg =
     (case split_once (CHR ''='') arg of
        Some (n, v) \<Rightarrow> if starts_with ''--'' n then (n, Some v) else (arg, None)
      | None \<Rightarrow> (arg, None))"

text \<open>The closure \<^verbatim>\<open>value\<close>: the inline value, or the next argument.\<close>

definition flag_value :: "bytes \<Rightarrow> bytes \<Rightarrow> bytes option \<Rightarrow> bytes list \<Rightarrow> bytes + (bytes \<times> bytes list)" where
  "flag_value program name inline argv =
     (case inline of
        Some v \<Rightarrow> Inr (v, argv)
      | None \<Rightarrow>
          (case argv of
             v # argv' \<Rightarrow> Inr (v, argv')
           | [] \<Rightarrow> Inl (program @ '': flag needs an argument: '' @ name)))"

text \<open>One flag: what it sets, and the arguments left.\<close>

definition with_value ::
    "bytes \<Rightarrow> bytes \<Rightarrow> bytes option \<Rightarrow> bytes list \<Rightarrow> (bytes \<Rightarrow> bytes + CmdArgs) \<Rightarrow> bytes + (CmdArgs \<times> bytes list)" where
  "with_value program name inline argv f =
     (case flag_value program name inline argv of
        Inl e \<Rightarrow> Inl e
      | Inr (v, argv') \<Rightarrow> (case f v of Inl e \<Rightarrow> Inl e | Inr out \<Rightarrow> Inr (out, argv')))"

definition set_port :: "bytes \<Rightarrow> CmdArgs \<Rightarrow> bytes \<Rightarrow> bytes + CmdArgs" where
  "set_port program out v =
     (case parse_signed 32 v of
        Some p \<Rightarrow> Inr (out\<lparr>arg_port := Some p\<rparr>)
      | None \<Rightarrow> Inl (program @ '': invalid value '' @ [CHR 0x22] @ v @ [CHR 0x22] @ '' for flag -p: parse error''))"

definition parse_flag :: "bytes \<Rightarrow> bytes \<Rightarrow> bytes option \<Rightarrow> bytes list \<Rightarrow> CmdArgs \<Rightarrow> bytes + (CmdArgs \<times> bytes list)" where
  "parse_flag program name inline argv out =
     (let val = with_value program name inline argv in
      if name \<in> {''-a'', ''--addr'', ''--net''} then val (\<lambda>v. Inr (out\<lparr>arg_host := Some v\<rparr>))
      else if name \<in> {''-p'', ''--port''} then val (set_port program out)
      else if name \<in> {''-n'', ''--name'', ''--server_name''} then val (\<lambda>v. Inr (out\<lparr>arg_server_name := Some v\<rparr>))
      else if name \<in> {''-c'', ''--config''} then val (\<lambda>v. Inr (out\<lparr>arg_config_file := Some v\<rparr>))
      else if name = ''--ports_file_dir'' then val (\<lambda>v. Inr (out\<lparr>arg_ports_file_dir := Some v\<rparr>))
      else if name = ''-t'' then Inr (out\<lparr>arg_test_config := True\<rparr>, argv)
      else if name \<in> {''-v'', ''--version''} then Inr (out\<lparr>arg_version := True\<rparr>, argv)
      else if name \<in> {''-h'', ''--help''} then Inr (out\<lparr>arg_help := True\<rparr>, argv)
      else if name \<in> {''-D'', ''--debug''} then Inr (out\<lparr>arg_debug := True\<rparr>, argv)
      else if name \<in> {''-V'', ''--trace''} then Inr (out\<lparr>arg_trace := True\<rparr>, argv)
      else Inl (program @ '': flag provided but not defined: '' @ name))"

text \<open>No flag puts arguments back.\<close>

definition takes_from :: "bytes list \<Rightarrow> bytes + (CmdArgs \<times> bytes list) \<Rightarrow> bool" where
  "takes_from argv r \<longleftrightarrow> (case r of Inl e \<Rightarrow> True | Inr (out, argv') \<Rightarrow> length argv' \<le> length argv)"

lemma takes_from_if: "takes_from argv x \<Longrightarrow> takes_from argv y \<Longrightarrow> takes_from argv (if b then x else y)"
  by simp

lemma takes_from_leaf: "takes_from argv (Inl e)" "takes_from argv (Inr (out, argv))"
    "takes_from argv (with_value program name inline argv f)"
  by (auto simp: takes_from_def with_value_def flag_value_def split: option.split list.split sum.split)

lemma parse_flag_takes: "takes_from argv (parse_flag program name inline argv out)"
  unfolding parse_flag_def Let_def by (intro takes_from_if takes_from_leaf)

lemma parse_flag_shorter:
  "parse_flag program name inline argv out = Inr (out', argv') \<Longrightarrow> length argv' \<le> length argv"
  using parse_flag_takes [of argv program name inline out] by (simp add: takes_from_def)

function parse_args_loop :: "bytes \<Rightarrow> bytes list \<Rightarrow> CmdArgs \<Rightarrow> bytes + CmdArgs" where
  "parse_args_loop program [] out = Inr out"
| "parse_args_loop program (arg # argv) out =
     (if arg = [] \<or> \<not> starts_with ''-'' arg \<or> arg = ''-'' then Inr out
      else case flag_name arg of
        (name, inline) \<Rightarrow>
          (case parse_flag program name inline argv out of
             Inl e \<Rightarrow> Inl e
           | Inr (out', argv') \<Rightarrow> parse_args_loop program argv' out'))"
  by pat_completeness auto
termination
  by (relation "measure (\<lambda>(program, argv, out). length argv)") (auto dest!: parse_flag_shorter)

definition parse_args :: "bytes list \<Rightarrow> bytes \<Rightarrow> bytes + CmdArgs" where
  "parse_args argv program = parse_args_loop program argv default_args"

definition apply_flags :: "CmdArgs \<Rightarrow> Config \<Rightarrow> Config" where
  "apply_flags args cfg =
     (let cfg = (case arg_host args of Some h \<Rightarrow> cfg\<lparr>cfg_host := h\<rparr> | None \<Rightarrow> cfg);
          cfg = (case arg_port args of Some p \<Rightarrow> cfg\<lparr>cfg_port := p\<rparr> | None \<Rightarrow> cfg);
          cfg = (case arg_ports_file_dir args of Some d \<Rightarrow> cfg\<lparr>cfg_ports_file_dir := Some d\<rparr> | None \<Rightarrow> cfg);
          cfg = (case arg_server_name args of Some n \<Rightarrow> cfg\<lparr>cfg_server_name := Some n\<rparr> | None \<Rightarrow> cfg)
      in cfg\<lparr>cfg_debug := cfg_debug cfg \<or> arg_debug args, cfg_trace := cfg_trace cfg \<or> arg_trace args\<rparr>)"

end
