(* ===== verification/Broker.thy ===== *)
theory Broker
  imports Outbox Options Registry Config
begin

text \<open>
  Connections, routing and the handler of one operation (\<^verbatim>\<open>Conn\<close> and \<^verbatim>\<open>handle\<close> of
  \<^verbatim>\<open>crates/server/src/client.rs\<close>, \<^verbatim>\<open>route\<close> of \<^verbatim>\<open>routing.rs\<close>, \<^verbatim>\<open>no_responder_check\<close> of \<^verbatim>\<open>lib.rs\<close>).
  The objects that tasks share live in a \<open>World\<close>: the connections by their address, the counters
  of the subscriptions by theirs, and the registry. A handler is one atomic transformation of the
  world; the place where it waits for a stalled subscriber is where it returns, with the list of
  connections it waits for.
\<close>

unbundle bit_operations_syntax

section \<open>The world\<close>

record 'ch Conn =
  c_cid :: u64
  c_out :: "'ch Outbox"
  c_flags :: u64
  c_subs :: "(bytes \<times> Sub) list"
  c_closed :: bool
  c_reason :: "bytes option"
  c_pings_out :: u64
  c_wakes :: nat
  c_hard :: bool

record 'ch World =
  w_cfg :: Config
  w_registry :: Registry
  w_conns :: "nat \<Rightarrow> 'ch Conn"
  w_cells :: "nat \<Rightarrow> SubCell"
  w_next :: nat

definition conn_new :: "('ch, 'j) Deps \<Rightarrow> Config \<Rightarrow> u64 \<Rightarrow> 'ch Conn" where
  "conn_new E cfg cid =
     \<lparr>c_cid = cid, c_out = outbox_new E (cfg_max_pending cfg), c_flags = pack default_options, c_subs = [],
      c_closed = False, c_reason = None, c_pings_out = 0, c_wakes = 0, c_hard = False\<rparr>"

definition upd_conn :: "nat \<Rightarrow> ('ch Conn \<Rightarrow> 'ch Conn) \<Rightarrow> 'ch World \<Rightarrow> 'ch World" where
  "upd_conn c f w = w\<lparr>w_conns := (w_conns w)(c := f (w_conns w c))\<rparr>"

section \<open>Connections\<close>

definition opts :: "'ch World \<Rightarrow> nat \<Rightarrow> Options" where
  "opts w c = unpack (c_flags (w_conns w c))"

definition set_opts :: "nat \<Rightarrow> Options \<Rightarrow> 'ch World \<Rightarrow> 'ch World" where
  "set_opts c o' w = upd_conn c (\<lambda>k. k\<lparr>c_flags := pack o'\<rparr>) w"

definition conn_echo :: "'ch World \<Rightarrow> nat \<Rightarrow> bool" where
  "conn_echo w c \<longleftrightarrow> c_flags (w_conns w c) AND 4 \<noteq> 0"

definition supports_headers :: "'ch World \<Rightarrow> nat \<Rightarrow> bool" where
  "supports_headers w c \<longleftrightarrow> c_flags (w_conns w c) AND 8 \<noteq> 0"

definition is_closed :: "'ch World \<Rightarrow> nat \<Rightarrow> bool" where
  "is_closed w c = c_closed (w_conns w c)"

definition conn_has_room :: "'ch World \<Rightarrow> nat \<Rightarrow> bool" where
  "conn_has_room w c = has_room (c_out (w_conns w c))"

definition conn_enqueue :: "('ch, 'j) Deps \<Rightarrow> nat \<Rightarrow> Frame \<Rightarrow> 'ch World \<Rightarrow> Enqueue \<times> 'ch World" where
  "conn_enqueue E c frame w =
     (if is_closed w c then (Dropped, w)
      else case outbox_enqueue E frame (c_out (w_conns w c)) of
        (r, ob) \<Rightarrow> (r, upd_conn c (\<lambda>k. k\<lparr>c_out := ob\<rparr>) w))"

text \<open>Most callers ignore what became of the frame.\<close>

definition send :: "('ch, 'j) Deps \<Rightarrow> nat \<Rightarrow> Frame \<Rightarrow> 'ch World \<Rightarrow> 'ch World" where
  "send E c frame w = snd (conn_enqueue E c frame w)"

definition deliver :: "('ch, 'j) Deps \<Rightarrow> Sub \<Rightarrow> Msg \<Rightarrow> 'ch World \<Rightarrow> Enqueue \<times> 'ch World" where
  "deliver E sub msg w =
     (let c = s_conn sub in
      if is_closed w c then (Dropped, w)
      else case queue_with E (\<lambda>arena. build_frame E arena (supports_headers w c) (s_sid sub) msg) (c_out (w_conns w c)) of
        (r, ob) \<Rightarrow> (r, upd_conn c (\<lambda>k. k\<lparr>c_out := ob\<rparr>) w))"

text \<open>\<^verbatim>\<open>finish\<close>: unregister, drop the sender, give up the queue, wake the writer and the reader.\<close>

definition finish :: "nat \<Rightarrow> bytes \<Rightarrow> bool \<Rightarrow> 'ch World \<Rightarrow> 'ch World" where
  "finish c reason hard w =
     (if is_closed w c then w
      else
        let w1 = upd_conn c (\<lambda>k. k\<lparr>c_closed := True, c_reason := Some reason, c_hard := hard\<rparr>) w;
            w2 = w1\<lparr>w_registry := remove_conn c (w_registry w1)\<rparr>
        in upd_conn c (\<lambda>k. k\<lparr>c_subs := [],
             c_out := no_more_writes ((c_out k)\<lparr>ob_tx := None\<rparr>), c_wakes := c_wakes k + 1\<rparr>) w2)"

definition close :: "nat \<Rightarrow> bytes \<Rightarrow> 'ch World \<Rightarrow> 'ch World" where
  "close c reason w = finish c reason False w"

definition close_now :: "nat \<Rightarrow> bytes \<Rightarrow> 'ch World \<Rightarrow> 'ch World" where
  "close_now c reason w = finish c reason True w"

definition close_slow_consumer :: "nat \<Rightarrow> 'ch World \<Rightarrow> 'ch World" where
  "close_slow_consumer c w = close_now c ''slow consumer: max_pending exceeded'' w"

definition note_ping_sent :: "nat \<Rightarrow> 'ch World \<Rightarrow> 'ch World" where
  "note_ping_sent c w = upd_conn c (\<lambda>k. k\<lparr>c_pings_out := c_pings_out k + 1\<rparr>) w"

definition note_pong :: "nat \<Rightarrow> 'ch World \<Rightarrow> 'ch World" where
  "note_pong c w = upd_conn c (\<lambda>k. k\<lparr>c_pings_out := 0\<rparr>) w"

section \<open>Routing\<close>

definition eligible :: "'ch World \<Rightarrow> nat \<Rightarrow> Sub \<Rightarrow> bool" where
  "eligible w from sub \<longleftrightarrow>
     \<not> is_closed w (s_conn sub) \<and> \<not> (s_conn sub = from \<and> \<not> conn_echo w from)"

datatype Give = GiveOk | Stall nat | Gone

definition account_sub :: "Sub \<Rightarrow> 'ch World \<Rightarrow> bool \<times> 'ch World" where
  "account_sub sub w =
     (case account (w_cells w (s_addr sub)) of
        (spent, cell) \<Rightarrow> (spent, w\<lparr>w_cells := (w_cells w)(s_addr sub := cell)\<rparr>))"

definition give :: "('ch, 'j) Deps \<Rightarrow> Sub \<Rightarrow> Msg \<Rightarrow> Sub list \<Rightarrow> 'ch World \<Rightarrow> Give \<times> Sub list \<times> 'ch World" where
  "give E sub msg expired w =
     (case deliver E sub msg w of
        (EnqOk, w1) \<Rightarrow>
          (case account_sub sub w1 of (spent, w2) \<Rightarrow> (GiveOk, if spent then expired @ [sub] else expired, w2))
      | (SoftLimit, w1) \<Rightarrow>
          (case account_sub sub w1 of (spent, w2) \<Rightarrow> (Stall (s_conn sub), if spent then expired @ [sub] else expired, w2))
      | (SlowConsumer, w1) \<Rightarrow> (Gone, expired @ [sub], close_slow_consumer (s_conn sub) w1)
      | (Dropped, w1) \<Rightarrow> (Gone, expired, w1))"

text \<open>The loop over the resolved list: the count, the connections to wait for, and the spent ones.\<close>

fun route_loop ::
    "('ch, 'j) Deps \<Rightarrow> Msg \<Rightarrow> nat \<Rightarrow> Sub list \<Rightarrow> nat \<Rightarrow> nat list \<Rightarrow> Sub list \<Rightarrow> 'ch World \<Rightarrow>
     nat \<times> nat list \<times> Sub list \<times> 'ch World" where
  "route_loop E msg from [] cnt stall expired w = (cnt, stall, expired, w)"
| "route_loop E msg from (sub # subs) cnt stall expired w =
     (if \<not> eligible w from sub then route_loop E msg from subs cnt stall expired w
      else case give E sub msg expired w of
        (GiveOk, expired', w') \<Rightarrow> route_loop E msg from subs (cnt + 1) stall expired' w'
      | (Stall c, expired', w') \<Rightarrow> route_loop E msg from subs (cnt + 1) (stall @ [c]) expired' w'
      | (Gone, expired', w') \<Rightarrow> route_loop E msg from subs cnt stall expired' w')"

definition expire :: "Sub list \<Rightarrow> Registry \<Rightarrow> Registry" where
  "expire expired r =
     (if expired = [] then r
      else changed (r\<lparr>r_inner := fold remove_sub expired (r_inner r)\<rparr>))"

text \<open>The subscriptions the message is offered to: the cached resolution, sampled if it has queue groups.\<close>

definition route_list :: "bytes \<Rightarrow> nat \<Rightarrow> Interest \<Rightarrow> 'ch World \<Rightarrow> Sub list \<times> Interest \<times> 'ch World" where
  "route_list subject from interest w =
     (let it = (if in_generation interest \<noteq> r_generation (w_registry w) \<or> in_subject interest \<noteq> subject
                then resolve subject (w_registry w) interest else interest)
      in if in_queue it then
           (case pick_groups (eligible w from) (\<lambda>s. conn_has_room w (s_conn s)) (w_registry w) it of
              (it', r') \<Rightarrow> (in_chosen it', it', w\<lparr>w_registry := r'\<rparr>))
         else (in_subs it, it, w))"

definition route ::
    "('ch, 'j) Deps \<Rightarrow> Msg \<Rightarrow> nat \<Rightarrow> Interest \<Rightarrow> 'ch World \<Rightarrow> nat \<times> nat list \<times> Interest \<times> 'ch World" where
  "route E msg from interest w =
     (case route_list (m_subject msg) from interest w of
        (subs, it, w1) \<Rightarrow>
          if subs = [] then (0, [], it, w1)
          else case route_loop E msg from subs 0 [] [] w1 of
            (cnt, stall, expired, w2) \<Rightarrow>
              (cnt, stall, it, w2\<lparr>w_registry := expire expired (w_registry w2)\<rparr>))"

section \<open>The handler\<close>

definition send_err :: "('ch, 'j) Deps \<Rightarrow> nat \<Rightarrow> bytes \<Rightarrow> 'ch World \<Rightarrow> 'ch World" where
  "send_err E c text w = send E c (frame_err text) w"

definition no_responder_check ::
    "('ch, 'j) Deps \<Rightarrow> nat \<Rightarrow> Msg \<Rightarrow> bytes option \<Rightarrow> nat \<Rightarrow> 'ch World \<Rightarrow> 'ch World" where
  "no_responder_check E c msg reply reached w =
     (if reached \<noteq> 0 \<or> \<not> o_no_responders (opts w c) then w
      else case reply of
        None \<Rightarrow> w
      | Some r \<Rightarrow>
          if r = [] then w
          else fold (\<lambda>sub. send E c (no_responder_frame r (s_sid sub) (m_subject msg)))
                 (matching_of c r (w_registry w)) w)"

definition handle_subscribe ::
    "('ch, 'j) Deps \<Rightarrow> nat \<Rightarrow> bytes \<Rightarrow> bytes option \<Rightarrow> bytes \<Rightarrow> 'ch World \<Rightarrow> 'ch World" where
  "handle_subscribe E c subject queue sid w =
     (let verbose = o_verbose (opts w c) in
      if \<not> is_valid subject \<or> (\<exists>q\<in>set_option queue. \<not> is_valid q) then send_err E c INVALID_SUBJECT w
      else
        let known = (map_of (c_subs (w_conns w c)) sid \<noteq> None);
            w1 = (if known then w
                  else
                    let sub = sub_new (w_next w) subject queue sid c;
                        wa = w\<lparr>w_next := w_next w + 1, w_cells := (w_cells w)(w_next w := cell_new)\<rparr>
                    in case insert_sub sub (w_registry wa) of
                      (ok, r) \<Rightarrow>
                        let wb = wa\<lparr>w_registry := r\<rparr> in
                        if ok then upd_conn c (\<lambda>k. k\<lparr>c_subs := AList.update sid sub (c_subs k)\<rparr>) wb else wb)
        in if verbose then send E c frame_ok w1 else w1)"

definition handle_unsubscribe :: "('ch, 'j) Deps \<Rightarrow> nat \<Rightarrow> bytes \<Rightarrow> int \<Rightarrow> 'ch World \<Rightarrow> 'ch World" where
  "handle_unsubscribe E c sid m w =
     (let verbose = o_verbose (opts w c);
          w1 = (case map_of (c_subs (w_conns w c)) sid of
                  None \<Rightarrow> w
                | Some sub \<Rightarrow>
                    (case set_limit m (w_cells w (s_addr sub)) of
                       (gone, cell) \<Rightarrow>
                         let wa = w\<lparr>w_cells := (w_cells w)(s_addr sub := cell)\<rparr> in
                         if gone then
                           let wb = upd_conn c (\<lambda>k. k\<lparr>c_subs := AList.delete sid (c_subs k)\<rparr>) wa
                           in wb\<lparr>w_registry := remove sub (w_registry wb)\<rparr>
                         else wa))
      in if verbose then send E c frame_ok w1 else w1)"

text \<open>A publish: the third component lists the connections the publisher now waits for.\<close>

definition handle_publish ::
    "('ch, 'j) Deps \<Rightarrow> nat \<Rightarrow> bytes \<Rightarrow> bytes option \<Rightarrow> nat \<Rightarrow> bool \<Rightarrow> bytes \<Rightarrow> Interest \<Rightarrow> 'ch World \<Rightarrow>
     bool \<times> Interest \<times> nat list \<times> 'ch World" where
  "handle_publish E c subject reply hdr hpub body interest w =
     (let o' = opts w c in
      if hpub \<and> \<not> o_headers o' then (False, interest, [], w)
      else
        let w1 = (if o_pedantic o' \<and> \<not> is_valid_publish subject then send_err E c INVALID_PUBLISH_SUBJECT w else w);
            w2 = (if o_verbose o' then send E c frame_ok w1 else w1)
        in if subject = [] then (True, interest, [], w2)
           else
             let msg = \<lparr>m_subject = subject, m_reply = reply, m_hdr = hdr, m_body = body\<rparr> in
             case route E msg c interest w2 of
               (cnt, stall, it, w3) \<Rightarrow> (True, it, stall, no_responder_check E c msg reply cnt w3))"

definition handle ::
    "('ch, 'j) Deps \<Rightarrow> nat \<Rightarrow> Event \<Rightarrow> Interest \<Rightarrow> 'ch World \<Rightarrow> bool \<times> Interest \<times> nat list \<times> 'ch World" where
  "handle E c ev interest w =
     (case ev of
        Connect json \<Rightarrow>
          (case apply_connect E json (opts w c) of
             (ok, o') \<Rightarrow>
               if \<not> ok then (False, interest, [], w)
               else
                 let w1 = set_opts c o' w
                 in (True, interest, [], if o_verbose o' then send E c frame_ok w1 else w1))
      | Subscribe subject queue sid \<Rightarrow> (True, interest, [], handle_subscribe E c subject queue sid w)
      | Unsubscribe sid m \<Rightarrow> (True, interest, [], handle_unsubscribe E c sid m w)
      | Publish subject reply hdr n body hpub \<Rightarrow> handle_publish E c subject reply hdr hpub body interest w
      | Ping \<Rightarrow> (True, interest, [], send E c frame_pong w)
      | Pong \<Rightarrow> (True, interest, [], note_pong c w)
      | Info arg \<Rightarrow> (info_is_an_object E arg, interest, [], w)
      | ClientOk \<Rightarrow> (True, interest, [], w)
      | HpubAttempt outcome \<Rightarrow>
          if \<not> o_headers (opts w c) then (False, interest, [], w)
          else (case outcome of
                  HOk \<Rightarrow> (True, interest, [], w)
                | HArgs \<Rightarrow> (False, interest, [], w)
                | HFrame text \<Rightarrow> (False, interest, [], send_err E c text w))
      | ClientErr \<Rightarrow> (False, interest, [], w))"

text \<open>The publisher's wait for one stalled subscriber is over.\<close>

definition wait_over :: "'ch World \<Rightarrow> nat \<Rightarrow> bool" where
  "wait_over w c \<longleftrightarrow> is_closed w c \<or> room (c_out (w_conns w c))"

end
