(* ===== verification/Registry_Laws.thy ===== *)
theory Registry_Laws
  imports Registry
begin

text \<open>
  The registry as a bag of subscriptions: its invariant, what inserting and removing do to the
  bag, that resolving a subject finds exactly the subscriptions that match it, when a cached
  answer may be used, and what the sampling of queue groups chooses.
\<close>

section \<open>Association lists of lists\<close>

definition entry :: "('k \<times> 'v list) list \<Rightarrow> 'k \<Rightarrow> 'v list" where
  "entry al k = (case map_of al k of Some l \<Rightarrow> l | None \<Rightarrow> [])"

definition vals :: "('k \<times> 'v list) list \<Rightarrow> 'v list" where
  "vals al = concat (map snd al)"

lemma vals_simps [simp]: "vals [] = []" "vals ((k, l) # al) = l @ vals al"
  by (simp_all add: vals_def)

lemma entry_simps [simp]:
  "entry [] k = []" "entry ((k, l) # al) k = l" "k' \<noteq> k \<Longrightarrow> entry ((k', l) # al) k = entry al k"
  by (simp_all add: entry_def)

lemma entry_fresh: "k \<notin> fst ` set al \<Longrightarrow> entry al k = []"
  by (auto simp: entry_def map_of_eq_None_iff [symmetric])

lemma update_again: "AList.update k v (AList.update k w al) = AList.update k v al"
  by (induction al) auto

lemma mset_vals_update:
  "distinct (map fst al) \<Longrightarrow>
     mset (vals (AList.update k v al)) + mset (entry al k) = mset (vals al) + mset v"
proof (induction al)
  case (Cons x al)
  obtain k' l where x: "x = (k', l)" by (cases x)
  show ?case
  proof (cases "k' = k")
    case True
    then show ?thesis by (simp add: x)
  next
    case False
    with Cons x show ?thesis by (simp add: union_assoc)
  qed
qed simp

lemma mset_vals_delete:
  "distinct (map fst al) \<Longrightarrow> mset (vals (AList.delete k al)) + mset (entry al k) = mset (vals al)"
proof (induction al)
  case (Cons x al)
  obtain k' l where x: "x = (k', l)" by (cases x)
  show ?case
  proof (cases "k' = k")
    case True
    with Cons.prems x have "k \<notin> fst ` set al" by auto
    with True show ?thesis by (simp add: x)
  next
    case False
    with Cons x show ?thesis by (simp add: union_assoc)
  qed
qed simp

lemma filter_vals:
  "distinct (map fst al) \<Longrightarrow> (\<And>k' l s. (k', l) \<in> set al \<Longrightarrow> s \<in> set l \<Longrightarrow> P s \<longleftrightarrow> k' = k) \<Longrightarrow>
     filter P (vals al) = entry al k"
proof (induction al)
  case (Cons x al)
  obtain k' l where x: "x = (k', l)" by (cases x)
  have IH: "filter P (vals al) = entry al k"
    by (rule Cons.IH) (use Cons.prems in auto)
  show ?case
  proof (cases "k' = k")
    case True
    with Cons.prems x have "k \<notin> fst ` set al" by auto
    then have "entry al k = []" by (rule entry_fresh)
    moreover have "filter P l = l" by (rule filter_True) (use Cons.prems(2) [of k' l] x True in auto)
    ultimately show ?thesis using True IH by (simp add: x)
  next
    case False
    moreover have "filter P l = []" by (rule filter_False) (use Cons.prems(2) [of k' l] x False in auto)
    ultimately show ?thesis using IH by (simp add: x)
  qed
qed simp

section \<open>The invariant\<close>

definition all_subs :: "Inner \<Rightarrow> Sub list" where
  "all_subs inner = vals (i_literal inner) @ i_wildcard inner"

definition sub_ok :: "Sub \<Rightarrow> bool" where
  "sub_ok s \<longleftrightarrow>
     s_wildcard s = has_wildcard (s_subject s) \<and> s_queued s = (s_queue s \<noteq> None) \<and> is_valid (s_subject s)"

definition sub_key :: "Sub \<Rightarrow> nat \<times> bytes \<times> bytes" where
  "sub_key s = (s_conn s, s_sid s, s_subject s)"

definition inner_ok :: "Inner \<Rightarrow> bool" where
  "inner_ok inner \<longleftrightarrow>
     distinct (map fst (i_literal inner)) \<and>
     (\<forall>(k, l)\<in>set (i_literal inner). l \<noteq> [] \<and> (\<forall>s\<in>set l. s_subject s = k \<and> \<not> s_wildcard s)) \<and>
     (\<forall>s\<in>set (i_wildcard inner). s_wildcard s) \<and>
     (\<forall>s\<in>set (all_subs inner). sub_ok s) \<and>
     distinct (map sub_key (all_subs inner)) \<and>
     i_total inner = of_nat (length (all_subs inner))"

lemma sub_new_ok: "is_valid subject \<Longrightarrow> sub_ok (sub_new addr subject queue sid conn)"
  by (simp add: sub_ok_def sub_new_def)

lemma same_iff_key: "same a b \<longleftrightarrow> sub_key a = sub_key b"
  by (auto simp: same_def sub_key_def)

lemma inner_new_ok: "inner_ok (r_inner (registry_new rng))"
  by (simp add: inner_ok_def registry_new_def all_subs_def)

lemma inner_okD:
  assumes "inner_ok inner"
  shows "distinct (map fst (i_literal inner))" "s \<in> set (i_wildcard inner) \<Longrightarrow> s_wildcard s"
    "s \<in> set (all_subs inner) \<Longrightarrow> s_wildcard s = has_wildcard (s_subject s)"
    "s \<in> set (all_subs inner) \<Longrightarrow> s_queued s = (s_queue s \<noteq> None)"
    "s \<in> set (all_subs inner) \<Longrightarrow> sub_ok s"
    "distinct (map sub_key (all_subs inner))"
  using assms by (auto simp: inner_ok_def sub_ok_def)

text \<open>The literal half, seen through a lookup.\<close>

lemma literal_entry:
  assumes "inner_ok inner" "s \<in> set (entry (i_literal inner) k)"
  shows "s_subject s = k" "\<not> s_wildcard s" "s \<in> set (vals (i_literal inner))"
proof -
  obtain l where l: "map_of (i_literal inner) k = Some l" "s \<in> set l"
    using assms(2) by (cases "map_of (i_literal inner) k") (auto simp: entry_def)
  then have kl: "(k, l) \<in> set (i_literal inner)" by (auto dest: map_of_SomeD)
  with assms(1) l(2) show "s_subject s = k" "\<not> s_wildcard s" by (auto simp: inner_ok_def)
  from kl l(2) show "s \<in> set (vals (i_literal inner))" by (force simp: vals_def)
qed

lemma literal_value:
  assumes "inner_ok inner" "s \<in> set (vals (i_literal inner))"
  shows "s \<in> set (entry (i_literal inner) (s_subject s))" "\<not> s_wildcard s"
proof -
  obtain k l where kl: "(k, l) \<in> set (i_literal inner)" "s \<in> set l"
    using assms(2) by (auto simp: vals_def)
  with assms(1) have s: "s_subject s = k" "\<not> s_wildcard s" by (auto simp: inner_ok_def)
  have "map_of (i_literal inner) k = Some l"
    using assms(1) kl(1) by (simp add: inner_ok_def)
  with kl(2) s show "s \<in> set (entry (i_literal inner) (s_subject s))" "\<not> s_wildcard s"
    by (simp_all add: entry_def)
qed

lemma distinct_map_mset: "mset xs = mset ys \<Longrightarrow> distinct (map f xs) \<longleftrightarrow> distinct (map f ys)"
  by (metis mset_eq_imp_distinct_iff mset_map)

section \<open>Inserting\<close>

lemma inner_insert_subs:
  assumes "inner_ok inner" "s_wildcard sub = has_wildcard (s_subject sub)"
  shows "fst (inner_insert sub inner) \<longleftrightarrow> sub_key sub \<notin> sub_key ` set (all_subs inner)"
    "mset (all_subs (snd (inner_insert sub inner))) =
       (if fst (inner_insert sub inner) then add_mset sub (mset (all_subs inner)) else mset (all_subs inner))"
proof -
  note d = inner_okD(1) [OF assms(1)]
  have ex: "list_ex (\<lambda>s. same s sub) xs \<longleftrightarrow> sub_key sub \<in> sub_key ` set xs" for xs
    by (auto simp: list_ex_iff same_iff_key image_iff eq_commute)
  have lit: "s_subject s \<noteq> s_subject sub" if "s \<in> set (vals (i_literal inner))" "s_wildcard sub" for s
    using that assms(2) literal_value(2) [OF assms(1) that(1)] inner_okD(3) [OF assms(1), of s]
    by (auto simp: all_subs_def)
  have wild: "s_subject s \<noteq> s_subject sub" if "s \<in> set (i_wildcard inner)" "\<not> s_wildcard sub" for s
    using that assms(2) inner_okD(2,3) [OF assms(1), of s] by (auto simp: all_subs_def)
  have no_lit: "sub_key sub \<notin> sub_key ` set (vals (i_literal inner))" if "s_wildcard sub"
    using lit that by (fastforce simp: sub_key_def)
  have no_wild: "sub_key sub \<notin> sub_key ` set (i_wildcard inner)" if "\<not> s_wildcard sub"
    using wild that by (fastforce simp: sub_key_def)
  have ent: "sub_key sub \<in> sub_key ` set (entry (i_literal inner) (s_subject sub)) \<longleftrightarrow>
      sub_key sub \<in> sub_key ` set (vals (i_literal inner))"
    using literal_value(1) [OF assms(1)] literal_entry(3) [OF assms(1)]
    by (force simp: image_iff sub_key_def)
  show "fst (inner_insert sub inner) \<longleftrightarrow> sub_key sub \<notin> sub_key ` set (all_subs inner)"
    using no_lit no_wild ent
    by (auto simp: inner_insert_def all_subs_def entry_def [symmetric] Let_def ex image_Un)
  show "mset (all_subs (snd (inner_insert sub inner))) =
       (if fst (inner_insert sub inner) then add_mset sub (mset (all_subs inner)) else mset (all_subs inner))"
  proof (cases "s_wildcard sub")
    case True
    then show ?thesis by (simp add: inner_insert_def all_subs_def)
  next
    case False
    let ?e = "entry (i_literal inner) (s_subject sub)"
    have same_entry: "mset (vals (AList.update (s_subject sub) ?e (i_literal inner))) = mset (vals (i_literal inner))"
      using mset_vals_update [OF d, of "s_subject sub" ?e] by simp
    have "mset (vals (AList.update (s_subject sub) (?e @ [sub]) (AList.update (s_subject sub) ?e (i_literal inner)))) =
        add_mset sub (mset (vals (i_literal inner)))"
      using mset_vals_update [OF d, of "s_subject sub" "?e @ [sub]"] by (simp add: update_again)
    with False same_entry show ?thesis
      by (simp add: inner_insert_def all_subs_def entry_def [symmetric] Let_def)
  qed
qed

lemma set_update_subset: "set (AList.update k v al) \<subseteq> insert (k, v) (set al)"
  by (induction al) auto

lemma inner_insert_ok:
  assumes "inner_ok inner" "sub_ok sub"
  shows "inner_ok (snd (inner_insert sub inner))"
proof -
  let ?inner = "snd (inner_insert sub inner)" and ?e = "entry (i_literal inner) (s_subject sub)"
  have w: "s_wildcard sub = has_wildcard (s_subject sub)" using assms(2) by (simp add: sub_ok_def)
  note subs = inner_insert_subs [OF assms(1) w]
  have set_subs: "set (all_subs ?inner) =
      (if fst (inner_insert sub inner) then insert sub (set (all_subs inner)) else set (all_subs inner))"
    by (metis set_mset_add_mset_insert set_mset_mset subs(2))
  have "distinct (map sub_key (all_subs ?inner))"
  proof -
    have "mset (all_subs ?inner) =
        mset ((if fst (inner_insert sub inner) then [sub] else []) @ all_subs inner)"
      using subs(2) by simp
    from distinct_map_mset [OF this, of sub_key] show ?thesis
      using subs(1) inner_okD(6) [OF assms(1)] by (auto split: if_splits)
  qed
  moreover have "i_total ?inner = of_nat (length (all_subs ?inner))"
  proof -
    have "i_total ?inner = i_total inner + of_bool (fst (inner_insert sub inner))"
      by (auto simp: inner_insert_def Let_def)
    moreover have "length (all_subs ?inner) = length (all_subs inner) + of_bool (fst (inner_insert sub inner))"
      using arg_cong [OF subs(2), of size] by auto
    ultimately show ?thesis using assms(1) by (auto simp: inner_ok_def)
  qed
  moreover have "distinct (map fst (i_literal ?inner))"
    using inner_okD(1) [OF assms(1)]
    by (auto simp: inner_insert_def Let_def intro!: distinct_update)
  moreover have "\<forall>(k, l)\<in>set (i_literal ?inner). l \<noteq> [] \<and> (\<forall>s\<in>set l. s_subject s = k \<and> \<not> s_wildcard s)"
  proof (cases "s_wildcard sub")
    case True
    with assms(1) show ?thesis by (auto simp: inner_insert_def inner_ok_def)
  next
    case False
    have e: "s \<in> set ?e \<Longrightarrow> s_subject s = s_subject sub \<and> \<not> s_wildcard s" for s
      using literal_entry [OF assms(1)] by blast
    have up: "set (i_literal ?inner) \<subseteq> insert (s_subject sub, if fst (inner_insert sub inner) then ?e @ [sub] else ?e)
        (set (i_literal inner))"
      using False set_update_subset [of "s_subject sub" "?e @ [sub]" "i_literal inner"]
        set_update_subset [of "s_subject sub" ?e "i_literal inner"]
      by (simp add: inner_insert_def Let_def update_again entry_def)
    have ne: "?e \<noteq> []" if "\<not> fst (inner_insert sub inner)"
      using that False by (auto simp: inner_insert_def Let_def entry_def [symmetric] split: if_splits)
    show ?thesis using up e ne False assms(1) by (fastforce simp: inner_ok_def split: if_splits)
  qed
  moreover have "\<forall>s\<in>set (i_wildcard ?inner). s_wildcard s"
    using inner_okD(2) [OF assms(1)] by (auto simp: inner_insert_def Let_def)
  ultimately show ?thesis
    using set_subs assms(2) inner_okD(5) [OF assms(1)] by (auto simp: inner_ok_def split: if_splits)
qed

section \<open>Removing\<close>

definition hits :: "Sub \<Rightarrow> Sub \<Rightarrow> bool" where
  "hits sub s \<longleftrightarrow>
     s_sid s = s_sid sub \<and> s_conn s = s_conn sub \<and> s_wildcard s = s_wildcard sub \<and>
     (s_wildcard sub \<or> s_subject s = s_subject sub)"

text \<open>The invariant survives taking subscriptions out, if the literal lists stay in shape.\<close>

lemma inner_ok_shrink:
  assumes "inner_ok inner" "mset (all_subs inner') = filter_mset P (mset (all_subs inner))"
    and "distinct (map fst (i_literal inner'))"
    and "\<And>k l s. (k, l) \<in> set (i_literal inner') \<Longrightarrow> l \<noteq> [] \<and> (s \<in> set l \<longrightarrow> s_subject s = k \<and> \<not> s_wildcard s)"
    and "set (i_wildcard inner') \<subseteq> set (i_wildcard inner)"
    and "i_total inner' = of_nat (length (all_subs inner'))"
  shows "inner_ok inner'"
proof -
  have m: "mset (all_subs inner') = mset (filter P (all_subs inner))" using assms(2) by simp
  then have "set (all_subs inner') = set (filter P (all_subs inner))" by (rule mset_eq_setD)
  moreover have "distinct (map sub_key (all_subs inner'))"
    using distinct_map_mset [OF m, of sub_key] inner_okD(6) [OF assms(1)]
    by (simp add: distinct_map_filter)
  ultimately show ?thesis
    using assms(3-6) inner_okD [OF assms(1)] by (auto simp: inner_ok_def subset_iff)
qed

lemma vals_split:
  assumes "inner_ok inner"
  shows "mset (vals (i_literal inner)) =
    mset (entry (i_literal inner) k) + filter_mset (\<lambda>s. s_subject s \<noteq> k) (mset (vals (i_literal inner)))"
proof -
  have "filter (\<lambda>s. s_subject s = k) (vals (i_literal inner)) = entry (i_literal inner) k"
    using assms by (intro filter_vals) (auto simp: inner_ok_def)
  then have "mset (entry (i_literal inner) k) = filter_mset (\<lambda>s. s_subject s = k) (mset (vals (i_literal inner)))"
    by (metis mset_filter)
  then show ?thesis using multiset_partition [of "mset (vals (i_literal inner))" "\<lambda>s. s_subject s = k"] by simp
qed

lemma remove_sub_literal:
  assumes "inner_ok inner" "\<not> s_wildcard sub" "map_of (i_literal inner) (s_subject sub) = Some l"
  shows "mset (vals (i_literal (remove_sub sub inner))) = filter_mset (\<lambda>s. \<not> hits sub s) (mset (vals (i_literal inner)))"
    "length (vals (i_literal (remove_sub sub inner))) + length l = length (vals (i_literal inner)) +
       length (filter (\<lambda>s. \<not> (s_sid s = s_sid sub \<and> s_conn s = s_conn sub)) l)"
proof -
  let ?k = "s_subject sub" and ?lit = "i_literal inner"
  let ?l' = "filter (\<lambda>s. \<not> (s_sid s = s_sid sub \<and> s_conn s = s_conn sub)) l"
  let ?rest = "filter_mset (\<lambda>s. s_subject s \<noteq> ?k) (mset (vals ?lit))"
  note d = inner_okD(1) [OF assms(1)]
  have e: "entry ?lit ?k = l" using assms(3) by (simp add: entry_def)
  have split: "mset (vals ?lit) = mset l + ?rest" using vals_split [OF assms(1), of ?k] e by simp
  have up: "mset (vals (AList.update ?k ?l' ?lit)) = mset ?l' + ?rest"
  proof -
    have "mset (vals (AList.update ?k ?l' ?lit)) + mset l = mset (vals ?lit) + mset ?l'"
      using mset_vals_update [OF d, of ?k ?l'] e by simp
    also have "\<dots> = (mset ?l' + ?rest) + mset l" by (subst split) (simp add: ac_simps)
    finally show ?thesis by (rule add_right_imp_eq)
  qed
  have new: "mset (vals (i_literal (remove_sub sub inner))) = mset ?l' + ?rest"
  proof (cases "?l' = []")
    case True
    have "mset (vals (AList.delete ?k (AList.update ?k ?l' ?lit))) = ?rest"
      using mset_vals_delete [OF distinct_update [OF d], of ?k ?k ?l'] up True
      by (simp add: entry_def update_conv)
    with True assms(2,3) show ?thesis by (simp add: remove_sub_def Let_def)
  next
    case False
    with assms(2,3) up show ?thesis by (simp add: remove_sub_def Let_def)
  qed
  have l: "s_subject s = ?k \<and> \<not> s_wildcard s" if "s \<in> set l" for s
    using literal_entry [OF assms(1), of s ?k] that e by simp
  have "filter_mset (\<lambda>s. \<not> hits sub s) (mset l) = mset ?l'"
    unfolding mset_filter [symmetric] using l assms(2)
    by (intro arg_cong [where f = mset] filter_cong) (auto simp: hits_def)
  moreover have "filter_mset (\<lambda>s. \<not> hits sub s) ?rest = ?rest"
    using assms(2) by (auto simp: filter_filter_mset hits_def intro!: filter_mset_cong)
  ultimately have "mset ?l' + ?rest = filter_mset (\<lambda>s. \<not> hits sub s) (mset l + ?rest)" by simp
  also have "\<dots> = filter_mset (\<lambda>s. \<not> hits sub s) (mset (vals ?lit))"
    by (rule arg_cong [OF split [symmetric]])
  finally show "mset (vals (i_literal (remove_sub sub inner))) =
      filter_mset (\<lambda>s. \<not> hits sub s) (mset (vals ?lit))" using new by simp
  show "length (vals (i_literal (remove_sub sub inner))) + length l = length (vals ?lit) + length ?l'"
    using arg_cong [OF new, of size] arg_cong [OF split, of size] by (simp del: mset_filter)
qed

lemma remove_sub_subs:
  assumes "inner_ok inner"
  shows "mset (all_subs (remove_sub sub inner)) = filter_mset (\<lambda>s. \<not> hits sub s) (mset (all_subs inner))"
proof (cases "s_wildcard sub")
  case True
  have "filter_mset (\<lambda>s. \<not> hits sub s) (mset (vals (i_literal inner))) = mset (vals (i_literal inner))"
    using True literal_value(2) [OF assms] by (auto simp: hits_def filter_mset_eq_conv)
  moreover have "filter_mset (\<lambda>s. \<not> hits sub s) (mset (i_wildcard inner)) =
      mset (filter (\<lambda>s. \<not> (s_sid s = s_sid sub \<and> s_conn s = s_conn sub)) (i_wildcard inner))"
    unfolding mset_filter [symmetric] using True inner_okD(2) [OF assms]
    by (intro arg_cong [where f = mset] filter_cong) (auto simp: hits_def)
  ultimately show ?thesis using True by (simp add: remove_sub_def all_subs_def Let_def)
next
  case False
  have wild: "filter_mset (\<lambda>s. \<not> hits sub s) (mset (i_wildcard inner)) = mset (i_wildcard inner)"
    using False inner_okD(2) [OF assms] by (auto simp: hits_def filter_mset_eq_conv)
  have w: "i_wildcard (remove_sub sub inner) = i_wildcard inner"
    using False by (auto simp: remove_sub_def Let_def split: option.split)
  show ?thesis
  proof (cases "map_of (i_literal inner) (s_subject sub)")
    case None
    have "\<not> hits sub s" if "s \<in> set (vals (i_literal inner))" for s
      using that None literal_value(1) [OF assms that] False by (auto simp: hits_def entry_def)
    then have "filter_mset (\<lambda>s. \<not> hits sub s) (mset (vals (i_literal inner))) = mset (vals (i_literal inner))"
      by (auto simp: filter_mset_eq_conv)
    with None False wild show ?thesis by (simp add: remove_sub_def all_subs_def)
  next
    case (Some l)
    from remove_sub_literal(1) [OF assms False Some] wild w show ?thesis by (simp add: all_subs_def)
  qed
qed

lemma of_nat_total:
  fixes a b :: nat
  shows "b \<le> a \<Longrightarrow> of_nat a - of_nat b = (of_nat (a - b) :: u64)"
  by (simp add: of_nat_diff)

lemma remove_sub_total:
  assumes "inner_ok inner"
  shows "i_total (remove_sub sub inner) = of_nat (length (all_subs (remove_sub sub inner)))"
proof -
  have t: "i_total inner = of_nat (length (vals (i_literal inner)) + length (i_wildcard inner))"
    using assms by (simp add: inner_ok_def all_subs_def)
  consider (wild) "s_wildcard sub" | (none) "\<not> s_wildcard sub" "map_of (i_literal inner) (s_subject sub) = None"
    | (lit) l where "\<not> s_wildcard sub" "map_of (i_literal inner) (s_subject sub) = Some l"
    by (cases "map_of (i_literal inner) (s_subject sub)") auto
  then show ?thesis
  proof cases
    case wild
    then show ?thesis
      by (simp add: t remove_sub_def Let_def all_subs_def length_filter_le of_nat_diff)
  next
    case none
    then show ?thesis by (simp add: t remove_sub_def all_subs_def)
  next
    case lit
    let ?l' = "filter (\<lambda>s. \<not> (s_sid s = s_sid sub \<and> s_conn s = s_conn sub)) l"
    let ?lit' = "i_literal (remove_sub sub inner)"
    have "length (vals ?lit') + length l = length (vals (i_literal inner)) + length ?l'"
      by (rule remove_sub_literal(2) [OF assms lit])
    moreover have "length ?l' \<le> length l" by (rule length_filter_le)
    ultimately have "length (vals ?lit') = length (vals (i_literal inner)) - (length l - length ?l')"
      "length l - length ?l' \<le> length (vals (i_literal inner))" by linarith+
    moreover have "i_total (remove_sub sub inner) = i_total inner - of_nat (length l - length ?l')"
      "i_wildcard (remove_sub sub inner) = i_wildcard inner"
      using lit by (simp_all add: remove_sub_def Let_def)
    ultimately show ?thesis by (simp add: t all_subs_def of_nat_diff)
  qed
qed

lemma remove_sub_ok:
  assumes "inner_ok inner"
  shows "inner_ok (remove_sub sub inner)"
proof (rule inner_ok_shrink [OF assms remove_sub_subs [OF assms] _ _ _ remove_sub_total [OF assms]])
  let ?l' = "filter (\<lambda>s. \<not> (s_sid s = s_sid sub \<and> s_conn s = s_conn sub)) (entry (i_literal inner) (s_subject sub))"
  note d = inner_okD(1) [OF assms]
  show "distinct (map fst (i_literal (remove_sub sub inner)))"
    using d by (auto simp: remove_sub_def Let_def intro!: distinct_update distinct_delete split: option.split)
  show "set (i_wildcard (remove_sub sub inner)) \<subseteq> set (i_wildcard inner)"
    by (auto simp: remove_sub_def Let_def split: option.split)
  have shape: "l \<noteq> [] \<and> (s \<in> set l \<longrightarrow> s_subject s = k \<and> \<not> s_wildcard s)" if "(k, l) \<in> set (i_literal inner)" for k l s
    using assms that by (auto simp: inner_ok_def)
  fix k l s
  assume kl: "(k, l) \<in> set (i_literal (remove_sub sub inner))"
  then have "(k, l) \<in> set (i_literal inner) \<or> (k = s_subject sub \<and> l = ?l' \<and> ?l' \<noteq> [])"
  proof (cases "s_wildcard sub \<or> map_of (i_literal inner) (s_subject sub) = None")
    case True
    then have "i_literal (remove_sub sub inner) = i_literal inner"
      by (cases "s_wildcard sub") (simp_all add: remove_sub_def Let_def)
    with kl show ?thesis by simp
  next
    case False
    then obtain l0 where l0: "map_of (i_literal inner) (s_subject sub) = Some l0" by auto
    then have e: "entry (i_literal inner) (s_subject sub) = l0" by (simp add: entry_def)
    have "set (AList.delete (s_subject sub) (AList.update (s_subject sub) ?l' (i_literal inner))) \<subseteq> set (i_literal inner)"
      using set_update_subset [of "s_subject sub" ?l' "i_literal inner"]
      by (auto simp: AList.delete_eq)
    with kl False l0 e set_update_subset [of "s_subject sub" ?l' "i_literal inner"] show ?thesis
      by (auto simp: remove_sub_def Let_def split: if_splits)
  qed
  then show "l \<noteq> [] \<and> (s \<in> set l \<longrightarrow> s_subject s = k \<and> \<not> s_wildcard s)"
    using shape literal_entry [OF assms, of s "s_subject sub"] by auto
qed

lemma remove_conn_subs:
  "all_subs (snd (remove_conn_inner conn inner)) = filter (\<lambda>s. s_conn s \<noteq> conn) (all_subs inner)"
proof -
  have "vals (filter (\<lambda>(k, l). l \<noteq> []) (map (\<lambda>(k, l). (k, filter (\<lambda>s. s_conn s \<noteq> conn) l)) al)) =
      filter (\<lambda>s. s_conn s \<noteq> conn) (vals al)" for al :: "(bytes \<times> Sub list) list"
    by (induction al) (auto simp: vals_def)
  then show ?thesis by (simp add: remove_conn_inner_def all_subs_def Let_def)
qed

lemma remove_conn_removed:
  "fst (remove_conn_inner conn inner) + length (filter (\<lambda>s. s_conn s \<noteq> conn) (all_subs inner)) = length (all_subs inner)"
proof -
  let ?keep = "filter (\<lambda>s. s_conn s \<noteq> conn) :: Sub list \<Rightarrow> Sub list"
  have "sum_list (map (\<lambda>(k, l). length l - length (?keep l)) al) + length (?keep (vals al)) = length (vals al)"
    for al :: "(bytes \<times> Sub list) list"
  proof (induction al)
    case (Cons x al)
    obtain k l where "x = (k, l)" by (cases x)
    moreover obtain d where "length l = length (?keep l) + d"
      using le_Suc_ex [OF length_filter_le] by blast
    ultimately show ?case using Cons by simp
  qed simp
  note lits = this [of "i_literal inner"]
  obtain d where "length (i_wildcard inner) = length (?keep (i_wildcard inner)) + d"
    using le_Suc_ex [OF length_filter_le] by blast
  with lits show ?thesis by (simp add: remove_conn_inner_def all_subs_def Let_def)
qed

lemma remove_conn_inner_ok:
  assumes "inner_ok inner"
  shows "inner_ok (snd (remove_conn_inner conn inner))"
proof (rule inner_ok_shrink [OF assms, of _ "\<lambda>s. s_conn s \<noteq> conn"])
  let ?inner = "snd (remove_conn_inner conn inner)"
  show "mset (all_subs ?inner) = filter_mset (\<lambda>s. s_conn s \<noteq> conn) (mset (all_subs inner))"
    by (simp add: remove_conn_subs)
  show "distinct (map fst (i_literal ?inner))"
    using inner_okD(1) [OF assms]
    by (auto simp: remove_conn_inner_def Let_def comp_def case_prod_unfold intro!: distinct_map_filter)
  show "set (i_wildcard ?inner) \<subseteq> set (i_wildcard inner)"
    by (auto simp: remove_conn_inner_def Let_def)
  show "l \<noteq> [] \<and> (s \<in> set l \<longrightarrow> s_subject s = k \<and> \<not> s_wildcard s)" if "(k, l) \<in> set (i_literal ?inner)" for k l s
    using that assms by (auto simp: remove_conn_inner_def Let_def inner_ok_def)
  show "i_total ?inner = of_nat (length (all_subs ?inner))"
  proof -
    have "i_total ?inner = i_total inner - of_nat (fst (remove_conn_inner conn inner))"
      unfolding remove_conn_inner_def Let_def by (simp del: of_nat_add)
    also have "\<dots> = of_nat (length (all_subs inner)) - of_nat (fst (remove_conn_inner conn inner))"
      using assms by (simp add: inner_ok_def)
    also have "\<dots> = of_nat (length (all_subs ?inner))"
      unfolding remove_conn_subs remove_conn_removed [of conn inner, symmetric] by simp
    finally show ?thesis .
  qed
qed

section \<open>Resolving a subject\<close>

definition interested :: "bytes \<Rightarrow> Registry \<Rightarrow> Sub list" where
  "interested subject r = filter (\<lambda>s. matches (s_subject s) subject) (all_subs (r_inner r))"

lemma literal_lookup:
  assumes "inner_ok inner"
  shows "filter (\<lambda>s. matches (s_subject s) subject) (vals (i_literal inner)) = entry (i_literal inner) subject"
proof (rule filter_vals [OF inner_okD(1) [OF assms]])
  fix k l s
  assume "(k, l) \<in> set (i_literal inner)" "s \<in> set l"
  then have "s \<in> set (all_subs inner)" "s_subject s = k" "\<not> s_wildcard s"
    using assms by (force simp: all_subs_def vals_def, (auto simp: inner_ok_def)+)
  with inner_okD(3) [OF assms, of s] show "matches (s_subject s) subject \<longleftrightarrow> k = subject"
    by (simp add: matches_literal)
qed

lemma resolve_subs:
  assumes "inner_ok (r_inner r)"
  shows "in_subs (resolve subject r it) = interested subject r"
    "in_queue (resolve subject r it) \<longleftrightarrow> (\<exists>s\<in>set (interested subject r). s_queue s \<noteq> None)"
    "in_generation (resolve subject r it) = r_generation r" "in_subject (resolve subject r it) = subject"
proof -
  let ?w = "filter (\<lambda>s. matches (s_subject s) subject) (i_wildcard (r_inner r))"
  have i: "interested subject r = entry (i_literal (r_inner r)) subject @ ?w"
    using literal_lookup [OF assms, of subject] by (simp add: interested_def all_subs_def)
  then show "in_subs (resolve subject r it) = interested subject r"
    by (simp add: resolve_def entry_def Let_def)
  have "s_queued s \<longleftrightarrow> s_queue s \<noteq> None" if "s \<in> set (interested subject r)" for s
    using that inner_okD(4) [OF assms, of s] by (simp add: interested_def)
  then show "in_queue (resolve subject r it) \<longleftrightarrow> (\<exists>s\<in>set (interested subject r). s_queue s \<noteq> None)"
    using i by (auto simp: resolve_def entry_def [symmetric] Let_def list_ex_iff)
  show "in_generation (resolve subject r it) = r_generation r" "in_subject (resolve subject r it) = subject"
    by (simp_all add: resolve_def Let_def)
qed

lemma matching_of_subs:
  assumes "inner_ok (r_inner r)"
  shows "matching_of conn subject r = filter (\<lambda>s. s_conn s = conn) (interested subject r)"
  using literal_lookup [OF assms, of subject]
  by (simp add: matching_of_def interested_def all_subs_def entry_def conj_commute split: option.split)

end
