(* ===== verification/Interest_Cache.thy ===== *)
theory Interest_Cache
  imports Registry_Laws Transition
begin

text \<open>
  The changes a registry goes through, as a step relation, and what the generation counter is
  good for: a cached resolution whose generation is the current one is what resolving would
  give now, as long as fewer than \<^verbatim>\<open>2^64\<close> changes happened in between.
\<close>

section \<open>Versioned stores\<close>

text \<open>A store whose version moves by one whenever its view may have changed.\<close>

locale versioned =
  fixes version :: "'r \<Rightarrow> u64" and view :: "'r \<Rightarrow> 'v" and step :: "'r \<Rightarrow> 'r \<Rightarrow> bool"
  assumes step_version: "step r r' \<Longrightarrow> (version r' = version r \<and> view r' = view r) \<or> version r' = version r + 1"
begin

lemma steps_version:
  "(step ^^ n) r r' \<Longrightarrow> \<exists>k\<le>n. version r' = version r + of_nat k \<and> (k = 0 \<longrightarrow> view r' = view r)"
proof (induction n arbitrary: r')
  case (Suc n)
  then obtain r1 where r1: "(step ^^ n) r r1" "step r1 r'" by auto
  then obtain k where k: "k \<le> n" "version r1 = version r + of_nat k" "k = 0 \<longrightarrow> view r1 = view r"
    using Suc.IH by blast
  from step_version [OF r1(2)] show ?case
  proof
    assume "version r' = version r1 \<and> view r' = view r1"
    with k show ?thesis by (intro exI [of _ k]) auto
  next
    assume "version r' = version r1 + 1"
    with k show ?thesis by (intro exI [of _ "Suc k"]) (auto simp: ac_simps)
  qed
qed auto

lemma same_version_same_view:
  assumes "(step ^^ n) r r'" "n < 2 ^ 64" "version r' = version r"
  shows "view r' = view r"
proof -
  obtain k where k: "k \<le> n" "version r' = version r + of_nat k" "k = 0 \<longrightarrow> view r' = view r"
    using steps_version [OF assms(1)] by blast
  then have "of_nat k = (0 :: u64)" using assms(3) by simp
  then have "unat (of_nat k :: u64) = 0" by simp
  then have "k = 0" using k(1) assms(2) by (simp add: unat_of_nat)
  with k(3) show ?thesis by simp
qed

lemma version_below:
  assumes "(step ^^ n) r r'" "version r = 0" "n < 2 ^ 64 - 1"
  shows "version r' \<noteq> -1"
proof -
  obtain k where k: "k \<le> n" "version r' = of_nat k"
    using steps_version [OF assms(1)] assms(2) by auto
  then have "unat (version r') = k" using assms(3) by (simp add: unat_of_nat)
  moreover have "unat (-1 :: u64) = 2 ^ 64 - 1" by (simp add: unsigned_minus_1_eq_mask mask_eq_exp_minus_1)
  ultimately show ?thesis using k(1) assms(3) by auto
qed

end

section \<open>Steps of the registry\<close>

inductive reg_step :: "Registry \<Rightarrow> Registry \<Rightarrow> bool" where
  ins: "s_wildcard sub = has_wildcard (s_subject sub) \<Longrightarrow> s_queued sub = (s_queue sub \<noteq> None) \<Longrightarrow>
    insert_sub sub r = (ok, r') \<Longrightarrow> reg_step r r'"
| rem: "reg_step r (remove sub r)"
| rem_conn: "reg_step r (remove_conn conn r)"
| expire: "reg_step r (changed (r\<lparr>r_inner := fold remove_sub subs (r_inner r)\<rparr>))"
| draw: "reg_step r (r\<lparr>r_rng := g\<rparr>)"

inductive_cases reg_stepE: "reg_step r r'"

definition reg_ok :: "Registry \<Rightarrow> bool" where
  "reg_ok r \<longleftrightarrow> inner_ok (r_inner r)"

lemma changed_fields [simp]:
  "r_inner (changed r) = r_inner r" "r_generation (changed r) = r_generation r + 1" "r_rng (changed r) = r_rng r"
  by (simp_all add: changed_def)

lemma fold_remove_ok: "inner_ok inner \<Longrightarrow> inner_ok (fold remove_sub subs inner)"
  by (induction subs arbitrary: inner) (simp_all add: remove_sub_ok)

lemma reg_step_ok: "reg_step r r' \<Longrightarrow> reg_ok r \<Longrightarrow> reg_ok r'"
proof (induction rule: reg_step.induct)
  case (ins sub r ok r')
  then show ?case
    using inner_insert_ok [of "r_inner r" sub]
    by (auto simp: reg_ok_def insert_sub_def sub_ok_def Let_def split: if_splits prod.splits)
next
  case (rem_conn r conn)
  then show ?case
    using remove_conn_inner_ok [of "r_inner r" conn]
    by (auto simp: reg_ok_def remove_conn_def Let_def split: prod.split)
qed (simp_all add: reg_ok_def remove_def remove_sub_ok fold_remove_ok)

lemma update_same: "map_of al k = Some v \<Longrightarrow> AList.update k v al = al"
  by (induction al) (auto split: if_splits)

lemma insert_not_added: "\<not> fst (inner_insert sub inner) \<Longrightarrow> snd (inner_insert sub inner) = inner"
  by (cases "map_of (i_literal inner) (s_subject sub)")
    (auto simp: inner_insert_def Let_def update_same split: if_splits)

lemma interested_cong: "all_subs (r_inner r) = all_subs (r_inner r') \<Longrightarrow> interested subject r = interested subject r'"
  by (simp add: interested_def)

lemma remove_conn_none:
  assumes "fst (remove_conn_inner conn inner) = 0"
  shows "all_subs (snd (remove_conn_inner conn inner)) = all_subs inner"
proof -
  have "length (filter (\<lambda>s. s_conn s \<noteq> conn) (all_subs inner)) = length (all_subs inner)"
    using remove_conn_removed [of conn inner] assms by simp
  then have "filter (\<lambda>s. s_conn s \<noteq> conn) (all_subs inner) = all_subs inner"
    by (metis filter_True length_filter_less less_irrefl_nat)
  then show ?thesis by (simp add: remove_conn_subs)
qed

interpretation interest: versioned r_generation "\<lambda>r subject. interested subject r" reg_step
proof
  fix r r'
  assume "reg_step r r'"
  then show "(r_generation r' = r_generation r \<and> (\<lambda>subject. interested subject r') = (\<lambda>subject. interested subject r)) \<or>
      r_generation r' = r_generation r + 1"
  proof cases
    case (ins sub ok)
    then show ?thesis
      using insert_not_added [of sub "r_inner r"]
      by (auto simp: insert_sub_def Let_def split: if_splits prod.splits)
  next
    case (rem_conn conn)
    then show ?thesis
      using remove_conn_none [of conn "r_inner r"]
      by (auto simp: remove_conn_def Let_def interested_def split: prod.splits)
  next
    case (draw g)
    then show ?thesis by (simp add: interested_def)
  qed (simp_all add: remove_def)
qed

lemma resolved_stays_good:
  assumes "reg_ok r0" "(reg_step ^^ n) r0 r" "n < 2 ^ 64"
    and "in_generation (resolve subject r0 it) = r_generation r"
  shows "in_subs (resolve subject r0 it) = interested subject r"
proof -
  have "r_generation r = r_generation r0" using assms(4) by (simp add: resolve_def Let_def)
  from interest.same_version_same_view [OF assms(2,3) this] show ?thesis
    using resolve_subs(1) [of r0 subject it] assms(1) by (simp add: reg_ok_def fun_eq_iff)
qed

interpretation registry: keeps reg_step reg_ok
  by unfold_locales (rule reg_step_ok)

section \<open>Properties\<close>

text \<open>C17. However subscriptions come and go, the registry stays well formed: literal filters under their own
  subject, no empty list, wildcard filters apart, no subscription twice, and the counter equal to the
  number of subscriptions.\<close>

theorem registry_invariant:
  assumes "(reg_step ^^ n) (registry_new g) r"
  shows "inner_ok (r_inner r) \<and> subscription_count r = of_nat (length (all_subs (r_inner r)))"
proof -
  have "inner_ok (r_inner r)"
    using registry.after_steps [OF assms] inner_new_ok [of g] by (simp add: reg_ok_def)
  then show ?thesis by (simp add: subscription_count_def inner_ok_def)
qed

theorem registry_invariant_witness:
  "\<exists>r. (reg_step ^^ 2) (registry_new (rng_new 7)) r \<and> inner_ok (r_inner r) \<and> subscription_count r = 1"
proof -
  let ?s = "sub_new 1 ''foo.*'' None ''9'' 4" and ?start = "registry_new (rng_new 7)"
  obtain ok r1 where r1: "insert_sub ?s ?start = (ok, r1)" by (cases "insert_sub ?s ?start")
  have count: "length (all_subs (r_inner (remove_conn 5 (snd (insert_sub ?s ?start))))) = 1" by code_simp
  have "reg_step ?start r1" by (rule reg_step.ins [OF _ _ r1]) (simp_all add: sub_new_def)
  then have two: "(reg_step ^^ 2) ?start (remove_conn 5 r1)"
    by (auto simp: numeral_2_eq_2 intro: reg_step.rem_conn)
  from registry_invariant [OF two] two count r1 show ?thesis by auto
qed

text \<open>C13. The interest cache is sound: a resolution made earlier, with any fewer than 2^64 changes in between, is
  used only while it is exactly the list of subscriptions whose filter matches the subject now; and a
  cache that never resolved anything is not taken for one that did.\<close>

theorem interest_cache_sound:
  assumes "(reg_step ^^ m) (registry_new g) r0" "(reg_step ^^ n) r0 r" "m + n < 2 ^ 64 - 1"
  shows "(in_generation (resolve subject r0 it) = r_generation r \<longrightarrow>
      in_subs (resolve subject r0 it) = filter (\<lambda>s. matches (s_subject s) subject) (all_subs (r_inner r))) \<and>
    in_generation interest_new \<noteq> r_generation r"
proof -
  have ok: "reg_ok r0" using registry.after_steps [OF assms(1)] inner_new_ok [of g] by (simp add: reg_ok_def)
  have "(reg_step ^^ (m + n)) (registry_new g) r" using assms(1,2) by (auto simp: relpowp_add)
  then have "r_generation r \<noteq> -1"
    using interest.version_below [of "m + n" "registry_new g" r] assms(3) by (simp add: registry_new_def)
  then show ?thesis
    using resolved_stays_good [OF ok assms(2)] assms(3) by (auto simp: interested_def interest_new_def)
qed

theorem interest_cache_sound_witness:
  "in_generation (resolve ''foo.a'' (snd (insert_sub (sub_new 1 ''foo.*'' None ''9'' 4) (registry_new (rng_new 7)))) interest_new) = 1 \<and>
   in_subs (resolve ''foo.a'' (snd (insert_sub (sub_new 1 ''foo.*'' None ''9'' 4) (registry_new (rng_new 7)))) interest_new) =
     [sub_new 1 ''foo.*'' None ''9'' 4]"
proof -
  let ?s = "sub_new 1 ''foo.*'' None ''9'' 4" and ?g = "rng_new 7"
  let ?start = "registry_new ?g"
  let ?r = "snd (insert_sub ?s ?start)"
  obtain ok r1 where r1: "insert_sub ?s ?start = (ok, r1)" by (cases "insert_sub ?s ?start")
  have step: "(reg_step ^^ 1) ?start ?r"
    using reg_step.ins [OF _ _ r1] r1 by (auto simp: sub_new_def)
  have "filter (\<lambda>s. matches (s_subject s) ''foo.a'') (all_subs (r_inner ?r)) = [?s]"
    "in_generation (resolve ''foo.a'' ?r interest_new) = 1" "r_generation ?r = 1" by code_simp+
  with interest_cache_sound [OF step, of 0 ?r "''foo.a''" interest_new] show ?thesis by auto
qed

end
