(* ===== verification/Queue_Groups.thy ===== *)
theory Queue_Groups
  imports Registry
begin

text \<open>
  The sampling of queue groups: every plain subscription is kept, and of every group one member
  that may have the message is chosen, one with room if there is one. This needs that the random
  start does not make the probe's index wrap around, which the code does not exclude.
\<close>

section \<open>The probe\<close>

lemma residues:
  assumes "j < n"
  shows "\<exists>k<n. ((s::nat) + k) mod n = j"
proof (intro exI conjI)
  let ?k = "(j + n - s mod n) mod n"
  show "?k < n" using assms by simp
  have "s mod n \<le> j + n" using assms mod_less_divisor [of n s] by linarith
  then have "(s mod n + (j + n - s mod n)) mod n = j" using assms by simp
  then show "(s + ?k) mod n = j" by (simp add: mod_simps)
qed

definition no_wrap :: "u64 \<Rightarrow> 'a list \<Rightarrow> bool" where
  "no_wrap start xs \<longleftrightarrow> unat start + length xs \<le> 2 ^ 64"

lemma probe_index: "no_wrap start xs \<Longrightarrow> k < length xs \<Longrightarrow> unat (start + of_nat k) = unat start + k"
  by (simp add: no_wrap_def unat_word_ariths unat_of_nat)

lemma probe_Some: "probe start xs p = Some x \<Longrightarrow> x \<in> set xs \<and> p x"
  by (auto simp: probe_def Let_def find_Some_iff intro!: nth_mem mod_less_divisor)

lemma probe_None:
  assumes "no_wrap start xs"
  shows "probe start xs p = None \<longleftrightarrow> (\<forall>x\<in>set xs. \<not> p x)"
proof -
  have "x \<in> set (map (\<lambda>k. xs ! (unat (start + of_nat k) mod length xs)) [0..<length xs])" if x: "x \<in> set xs" for x
  proof -
    obtain j where j: "j < length xs" "xs ! j = x" using x by (auto simp: in_set_conv_nth)
    obtain k where k: "k < length xs" "(unat start + k) mod length xs = j" using residues [OF j(1)] by blast
    with j probe_index [OF assms k(1)] show ?thesis by force
  qed
  moreover have "x \<in> set xs" if "x \<in> set (map (\<lambda>k. xs ! (unat (start + of_nat k) mod length xs)) [0..<length xs])" for x
    using that by (auto intro!: nth_mem mod_less_divisor)
  ultimately show ?thesis unfolding probe_def Let_def find_None_iff by blast
qed

lemma probe_Nil [simp]: "probe start [] p = None"
  by (simp add: probe_def)

lemma pick_Nil [simp]: "pick start [] el rm = None"
  by (simp add: pick_def)

lemma pick_Some: "pick start xs el rm = Some x \<Longrightarrow> x \<in> set xs \<and> el x"
  by (auto simp: pick_def split: option.splits dest: probe_Some)

lemma pick_None: "no_wrap start xs \<Longrightarrow> pick start xs el rm = None \<longleftrightarrow> (\<forall>x\<in>set xs. \<not> el x)"
  by (auto simp: pick_def probe_None split: option.split dest: probe_Some)

lemma pick_room:
  "no_wrap start xs \<Longrightarrow> pick start xs el rm = Some x \<Longrightarrow> y \<in> set xs \<Longrightarrow> el y \<Longrightarrow> rm y \<Longrightarrow> rm x"
  by (auto simp: pick_def probe_None split: option.splits dest: probe_Some)

section \<open>The loop\<close>

lemma pick_loop_spec:
  "\<exists>new. snd (pick_loop start el rm subs groups out) = out @ new \<and>
     filter (\<lambda>s. s_queue s = None) new = filter (\<lambda>s. s_queue s = None) subs \<and>
     (\<forall>g. filter (\<lambda>s. s_queue s = Some g) new =
        (if g \<in> set groups then []
         else case pick start (filter (\<lambda>s. s_queue s = Some g) subs) el rm of Some s \<Rightarrow> [s] | None \<Rightarrow> []))"
proof (induction subs arbitrary: groups out)
  case (Cons sub subs)
  show ?case
  proof (cases "s_queue sub")
    case None
    from Cons [of groups "out @ [sub]"] obtain new where
      "snd (pick_loop start el rm subs groups (out @ [sub])) = (out @ [sub]) @ new"
      "filter (\<lambda>s. s_queue s = None) new = filter (\<lambda>s. s_queue s = None) subs"
      "\<forall>g. filter (\<lambda>s. s_queue s = Some g) new = (if g \<in> set groups then []
        else case pick start (filter (\<lambda>s. s_queue s = Some g) subs) el rm of Some s \<Rightarrow> [s] | None \<Rightarrow> [])"
      by blast
    with None show ?thesis by (intro exI [of _ "sub # new"]) simp
  next
    case (Some grp)
    show ?thesis
    proof (cases "grp \<in> set groups")
      case True
      from Cons [of groups out] obtain new where
        "snd (pick_loop start el rm subs groups out) = out @ new"
        "filter (\<lambda>s. s_queue s = None) new = filter (\<lambda>s. s_queue s = None) subs"
        "\<forall>g. filter (\<lambda>s. s_queue s = Some g) new = (if g \<in> set groups then []
          else case pick start (filter (\<lambda>s. s_queue s = Some g) subs) el rm of Some s \<Rightarrow> [s] | None \<Rightarrow> [])"
        by blast
      with Some True show ?thesis by (intro exI [of _ new]) auto
    next
      case False
      define members where "members = filter (\<lambda>s. s_queue s = Some grp) (sub # subs)"
      define sel where "sel = (case pick start members el rm of Some s \<Rightarrow> [s] | None \<Rightarrow> [])"
      have sel: "s_queue s = Some grp" if "s \<in> set sel" for s
      proof (cases "pick start members el rm")
        case (Some t)
        with that pick_Some [OF Some] show ?thesis by (auto simp: sel_def members_def split: if_splits)
      qed (use that in \<open>simp add: sel_def\<close>)
      have step: "pick_loop start el rm (sub # subs) groups out =
          pick_loop start el rm subs (groups @ [grp]) (out @ sel)"
        using Some False by (auto simp: Let_def sel_def members_def split: option.split)
      from Cons [of "groups @ [grp]" "out @ sel"] obtain new where new:
        "snd (pick_loop start el rm subs (groups @ [grp]) (out @ sel)) = (out @ sel) @ new"
        "filter (\<lambda>s. s_queue s = None) new = filter (\<lambda>s. s_queue s = None) subs"
        "\<forall>g. filter (\<lambda>s. s_queue s = Some g) new = (if g \<in> set (groups @ [grp]) then []
          else case pick start (filter (\<lambda>s. s_queue s = Some g) subs) el rm of Some s \<Rightarrow> [s] | None \<Rightarrow> [])"
        by blast
      have plain: "filter (\<lambda>s. s_queue s = None) sel = []" using sel by (auto simp: filter_empty_conv)
      have "filter (\<lambda>s. s_queue s = Some g) sel = (if g = grp then sel else [])" for g
        using sel by (auto simp: filter_empty_conv filter_id_conv)
      with new plain Some False step show ?thesis
        by (intro exI [of _ "sel @ new"]) (auto simp: sel_def members_def)
    qed
  qed
qed simp

lemma pick_groups_spec:
  assumes "pick_groups el rm r it = (it', r')"
  shows "filter (\<lambda>s. s_queue s = None) (in_chosen it') = filter (\<lambda>s. s_queue s = None) (in_subs it)"
    "filter (\<lambda>s. s_queue s = Some g) (in_chosen it') =
       (case pick (fst (next_u64 (r_rng r))) (filter (\<lambda>s. s_queue s = Some g) (in_subs it)) el rm of
          Some s \<Rightarrow> [s] | None \<Rightarrow> [])"
    "in_subs it' = in_subs it" "in_generation it' = in_generation it" "in_subject it' = in_subject it"
    "in_queue it' = in_queue it" "r_inner r' = r_inner r" "r_generation r' = r_generation r"
  using assms pick_loop_spec [of "fst (next_u64 (r_rng r))" el rm "in_subs it" "[]" "[]"]
  by (auto simp: pick_groups_def split: prod.splits)

lemma pick_groups_members:
  assumes "pick_groups el rm r it = (it', r')" "no_wrap (fst (next_u64 (r_rng r))) (in_subs it)"
  shows "filter (\<lambda>s. s_queue s = None) (in_chosen it') = filter (\<lambda>s. s_queue s = None) (in_subs it)"
    and "length (filter (\<lambda>s. s_queue s = Some g) (in_chosen it')) =
      of_bool (\<exists>m\<in>set (in_subs it). s_queue m = Some g \<and> el m)"
    and "s \<in> set (in_chosen it') \<Longrightarrow> s_queue s = Some g \<Longrightarrow>
      s \<in> set (in_subs it) \<and> el s \<and> (rm s \<or> (\<forall>m\<in>set (in_subs it). s_queue m = Some g \<and> el m \<longrightarrow> \<not> rm m))"
proof -
  let ?start = "fst (next_u64 (r_rng r))" and ?ms = "filter (\<lambda>s. s_queue s = Some g) (in_subs it)"
  have nw: "no_wrap ?start ?ms"
    unfolding no_wrap_def
    by (rule order_trans [OF add_left_mono [OF length_filter_le] assms(2) [unfolded no_wrap_def]])
  show "filter (\<lambda>s. s_queue s = None) (in_chosen it') = filter (\<lambda>s. s_queue s = None) (in_subs it)"
    by (rule pick_groups_spec(1) [OF assms(1)])
  show "length (filter (\<lambda>s. s_queue s = Some g) (in_chosen it')) =
      of_bool (\<exists>m\<in>set (in_subs it). s_queue m = Some g \<and> el m)"
  proof (cases "pick ?start ?ms el rm")
    case None
    with pick_None [OF nw, of el rm] pick_groups_spec(2) [OF assms(1), of g] show ?thesis by auto
  next
    case (Some t)
    with pick_Some [OF Some] pick_groups_spec(2) [OF assms(1), of g] show ?thesis by auto
  qed
  assume "s \<in> set (in_chosen it')" "s_queue s = Some g"
  then have "s \<in> set (filter (\<lambda>s. s_queue s = Some g) (in_chosen it'))" by simp
  then have "pick ?start ?ms el rm = Some s"
    using pick_groups_spec(2) [OF assms(1), of g] by (cases "pick ?start ?ms el rm") auto
  with pick_Some [OF this] pick_room [OF nw this]
  show "s \<in> set (in_subs it) \<and> el s \<and> (rm s \<or> (\<forall>m\<in>set (in_subs it). s_queue m = Some g \<and> el m \<longrightarrow> \<not> rm m))"
    by auto
qed

section \<open>Properties\<close>



text \<open>The probe is not exhaustive for every start: from the largest start the index wraps around, two of
  three members are looked at, and the group's only eligible member is passed over.\<close>

theorem probe_can_miss_a_member:
  "pick (- 1) [sub_new 1 ''a'' (Some ''q'') ''1'' 1, sub_new 2 ''a'' (Some ''q'') ''2'' 2, sub_new 3 ''a'' (Some ''q'') ''3'' 3]
     (\<lambda>s. s_conn s = 3) (\<lambda>s. True) = None \<and>
   pick 0 [sub_new 1 ''a'' (Some ''q'') ''1'' 1, sub_new 2 ''a'' (Some ''q'') ''2'' 2, sub_new 3 ''a'' (Some ''q'') ''3'' 3]
     (\<lambda>s. s_conn s = 3) (\<lambda>s. True) = Some (sub_new 3 ''a'' (Some ''q'') ''3'' 3)"
  by code_simp

end
