(* ===== verification/Delivery.thy ===== *)
theory Delivery
  imports Broker Interest_Cache Queue_Groups
begin

text \<open>
  What routing a message does: to which connections it appends which frames, what it counts, and
  that one subscriber's trouble stays its own.
\<close>

section \<open>What an operation on one connection leaves alone\<close>

lemma upd_conn_simps [simp]:
  "w_conns (upd_conn c f w) = (w_conns w)(c := f (w_conns w c))"
  "w_registry (upd_conn c f w) = w_registry w" "w_cells (upd_conn c f w) = w_cells w"
  "w_next (upd_conn c f w) = w_next w" "w_cfg (upd_conn c f w) = w_cfg w"
  by (simp_all add: upd_conn_def)

lemma same_out: "\<exists>ob. (k :: 'ch Conn) = k\<lparr>c_out := ob\<rparr>"
  by (rule exI [of _ "c_out k"]) simp

lemma conn_enqueue_other:
  assumes "conn_enqueue E c frame w = (r, w')"
  shows "d \<noteq> c \<Longrightarrow> w_conns w' d = w_conns w d" "w_registry w' = w_registry w" "w_cells w' = w_cells w"
    "w_next w' = w_next w" "w_cfg w' = w_cfg w"
    "\<exists>ob. w_conns w' c = (w_conns w c)\<lparr>c_out := ob\<rparr>"
proof -
  show "d \<noteq> c \<Longrightarrow> w_conns w' d = w_conns w d" "w_registry w' = w_registry w" "w_cells w' = w_cells w"
    "w_next w' = w_next w" "w_cfg w' = w_cfg w" "\<exists>ob. w_conns w' c = (w_conns w c)\<lparr>c_out := ob\<rparr>"
    using assms by (auto simp: conn_enqueue_def same_out split: if_splits prod.splits)
qed

lemma send_other:
  "d \<noteq> c \<Longrightarrow> w_conns (send E c frame w) d = w_conns w d" "w_registry (send E c frame w) = w_registry w"
  "w_cells (send E c frame w) = w_cells w" "w_next (send E c frame w) = w_next w"
  "w_cfg (send E c frame w) = w_cfg w"
  by (cases "conn_enqueue E c frame w", auto simp: send_def dest: conn_enqueue_other)+

lemma send_out: "\<exists>ob. w_conns (send E c frame w) c = (w_conns w c)\<lparr>c_out := ob\<rparr>"
  using conn_enqueue_other(6) [of E c frame w] by (cases "conn_enqueue E c frame w") (simp add: send_def)

lemma deliver_other:
  assumes "deliver E sub msg w = (r, w')"
  shows "d \<noteq> s_conn sub \<Longrightarrow> w_conns w' d = w_conns w d" "w_registry w' = w_registry w" "w_cells w' = w_cells w"
    "w_next w' = w_next w" "w_cfg w' = w_cfg w"
    "\<exists>ob. w_conns w' (s_conn sub) = (w_conns w (s_conn sub))\<lparr>c_out := ob\<rparr>"
proof -
  show "d \<noteq> s_conn sub \<Longrightarrow> w_conns w' d = w_conns w d" "w_registry w' = w_registry w" "w_cells w' = w_cells w"
    "w_next w' = w_next w" "w_cfg w' = w_cfg w"
    "\<exists>ob. w_conns w' (s_conn sub) = (w_conns w (s_conn sub))\<lparr>c_out := ob\<rparr>"
    using assms by (auto simp: deliver_def Let_def same_out split: if_splits prod.splits)
qed

lemma finish_other:
  "d \<noteq> c \<Longrightarrow> w_conns (finish c reason hard w) d = w_conns w d"
  "w_cells (finish c reason hard w) = w_cells w" "w_next (finish c reason hard w) = w_next w"
  "w_cfg (finish c reason hard w) = w_cfg w" "c_flags (w_conns (finish c reason hard w) d) = c_flags (w_conns w d)"
  by (simp_all add: finish_def Let_def)

lemmas close_defs = close_def close_now_def close_slow_consumer_def

lemma give_other:
  assumes "give E sub msg expired w = (g, expired', w')"
  shows "d \<noteq> s_conn sub \<Longrightarrow> w_conns w' d = w_conns w d" "w_next w' = w_next w" "w_cfg w' = w_cfg w"
    "c_flags (w_conns w' d) = c_flags (w_conns w d)"
proof -
  obtain r w1 where d: "deliver E sub msg w = (r, w1)" by (cases "deliver E sub msg w")
  note o = deliver_other [OF d]
  have fl: "c_flags (w_conns w1 d) = c_flags (w_conns w d)" for d
    using o(1) [of d] o(6) by (cases "d = s_conn sub") auto
  have "(d \<noteq> s_conn sub \<longrightarrow> w_conns w' d = w_conns w d) \<and> w_next w' = w_next w \<and> w_cfg w' = w_cfg w \<and>
      c_flags (w_conns w' d) = c_flags (w_conns w d)" for d
    using assms d o(1) [of d] o(4,5) fl
    by (cases r) (auto simp: give_def account_sub_def close_defs finish_other split: prod.splits)
  then show "d \<noteq> s_conn sub \<Longrightarrow> w_conns w' d = w_conns w d" "w_next w' = w_next w" "w_cfg w' = w_cfg w"
    "c_flags (w_conns w' d) = c_flags (w_conns w d)" by blast+
qed

section \<open>One connection with room\<close>

definition sub_frame :: "'ch World \<Rightarrow> Sub \<Rightarrow> Msg \<Rightarrow> Frame" where
  "sub_frame w sub msg = msg_frame (m_hdr msg > 0 \<and> supports_headers w (s_conn sub)) (s_sid sub) msg"

text \<open>
  An open connection whose books are in order, with a live writer, \<open>i\<close> bytes in the writer's hands
  and room for \<open>n\<close> bytes more.
\<close>

definition conn_room :: "('ch, 'j) Deps \<Rightarrow> nat \<Rightarrow> nat \<Rightarrow> 'ch Conn \<Rightarrow> bool" where
  "conn_room E i n k \<longleftrightarrow>
     outbox_ok E i (c_out k) \<and> \<not> c_closed k \<and> \<not> ob_gone (c_out k) \<and> ob_tx (c_out k) \<noteq> None \<and>
     ch_live E (ob_chan (c_out k)) \<and>
     frames_bytes (queued E (c_out k)) + i + n \<le> unat (ob_hard (c_out k)) \<and> 2 * unat (ob_hard (c_out k)) < 2 ^ 64"

lemma conn_room_less: "conn_room E i n k \<Longrightarrow> m \<le> n \<Longrightarrow> conn_room E i m k"
  by (simp add: conn_room_def)

text \<open>With room for it, a frame is queued at the end and nothing else changes.\<close>

lemma push_room:
  assumes "deps_ok E" "outbox_ok E i ob" "\<not> ob_gone ob" "ch_live E (ob_chan ob)"
    and "frames_bytes (queued E ob) + i + length f \<le> unat (ob_hard ob)" "2 * unat (ob_hard ob) < 2 ^ 64"
    and "push E f ob = (r, ob')"
  shows "accepted r" "outbox_ok E i ob'" "\<not> ob_gone ob'" "ch_live E (ob_chan ob')" "ob_hard ob' = ob_hard ob"
    "ob_tx ob' = ob_tx ob" "queued E ob' = queued E ob @ [f]"
proof -
  have p: "ob_pending ob \<le> ob_hard ob" "unat (ob_pending ob) = frames_bytes (queued E ob) + i"
    using assms(2,3) by (auto simp: outbox_ok_def word_le_nat_alt)
  have fits: "ob_fits ob (length f)" using assms(5,6) by (simp add: ob_fits_def)
  obtain ch where ch: "ch_send E f (ob_chan ob) = Some ch"
      and eq: "push E f ob = (if unat (ob_pending ob) + length f > unat (ob_soft ob) then SoftLimit else EnqOk,
        ob\<lparr>ob_pending := ob_pending ob + of_nat (length f), ob_chan := ch\<rparr>)"
    using push_cases(3) [OF assms(1) p(1) fits] p(2) assms(4,5) by auto
  then show "accepted r" using assms(7) by (auto simp: accepted_def)
  with push_ok [OF assms(1-3) fits assms(7)] show "outbox_ok E i ob'" "\<not> ob_gone ob'"
    "ob_hard ob' = ob_hard ob" "ob_tx ob' = ob_tx ob" "queued E ob' = queued E ob @ [f]" by auto
  show "ch_live E (ob_chan ob')" using eq assms(7) deps_okD(7) [OF assms(1) ch] by auto
qed

lemma deliver_room:
  assumes "deps_ok E" "conn_room E i n (w_conns w (s_conn sub))" "length (sub_frame w sub msg) \<le> n"
    and "deliver E sub msg w = (r, w')"
  shows "accepted r" "conn_room E i (n - length (sub_frame w sub msg)) (w_conns w' (s_conn sub))"
    "queued E (c_out (w_conns w' (s_conn sub))) =
       queued E (c_out (w_conns w (s_conn sub))) @ [sub_frame w sub msg]"
proof -
  let ?c = "s_conn sub" and ?f = "sub_frame w sub msg"
  let ?ob = "c_out (w_conns w ?c)"
  have room: "outbox_ok E i ?ob" "\<not> ob_gone ?ob" "ch_live E (ob_chan ?ob)"
    "frames_bytes (queued E ?ob) + i + n \<le> unat (ob_hard ?ob)" "2 * unat (ob_hard ?ob) < 2 ^ 64" "\<not> is_closed w ?c"
    using assms(2) by (auto simp: conn_room_def is_closed_def)
  obtain a where a: "ob_tx ?ob = Some a" using assms(2) by (auto simp: conn_room_def)
  then have ca: "chunk a = []" using room(1) by (auto simp: outbox_ok_def)
  obtain a' where b: "build_frame E a (supports_headers w ?c) (s_sid sub) msg = (?f, a')" "chunk a' = []"
    using build_frame_bytes [OF ca, of E "supports_headers w ?c" "s_sid sub" msg]
    by (cases "build_frame E a (supports_headers w ?c) (s_sid sub) msg") (auto simp: sub_frame_def)
  have ok: "outbox_ok E i (?ob\<lparr>ob_tx := Some a'\<rparr>)" using outbox_set_arena [OF room(1) _ b(2)] a by simp
  obtain ob' where p: "push E ?f (?ob\<lparr>ob_tx := Some a'\<rparr>) = (r, ob')"
    and w': "w' = upd_conn ?c (\<lambda>k. k\<lparr>c_out := ob'\<rparr>) w"
    using assms(4) room(6) a b by (auto simp: deliver_def queue_with_def Let_def split: prod.splits)
  have q: "queued E (?ob\<lparr>ob_tx := Some a'\<rparr>) = queued E ?ob" by (simp add: queued_def)
  note k = push_room [OF assms(1) ok _ _ _ _ p, unfolded q]
  have len: "frames_bytes (queued E ?ob) + i + length ?f \<le> unat (ob_hard ?ob)" using room(4) assms(3) by simp
  show "accepted r" using k(1) room len by simp
  show "queued E (c_out (w_conns w' ?c)) = queued E ?ob @ [?f]" using k(7) room len w' by simp
  show "conn_room E i (n - length ?f) (w_conns w' ?c)"
    using k room len w' assms(3) by (simp add: conn_room_def is_closed_def)
qed

lemma account_sub_other [simp]:
  "w_conns (snd (account_sub sub w)) = w_conns w" "w_registry (snd (account_sub sub w)) = w_registry w"
  "w_next (snd (account_sub sub w)) = w_next w"
  by (simp_all add: account_sub_def split: prod.split)

lemma give_room:
  assumes "deps_ok E" "conn_room E i n (w_conns w (s_conn sub))" "length (sub_frame w sub msg) \<le> n"
    and "give E sub msg expired w = (g, expired', w')"
  shows "g = GiveOk \<or> g = Stall (s_conn sub)"
    "conn_room E i (n - length (sub_frame w sub msg)) (w_conns w' (s_conn sub))"
    "queued E (c_out (w_conns w' (s_conn sub))) =
       queued E (c_out (w_conns w (s_conn sub))) @ [sub_frame w sub msg]"
    "w_registry w' = w_registry w"
proof -
  obtain r w1 where d: "deliver E sub msg w = (r, w1)" by (cases "deliver E sub msg w")
  note k = deliver_room [OF assms(1-3) d]
  then have "(g = GiveOk \<or> g = Stall (s_conn sub)) \<and> w' = snd (account_sub sub w1)"
    using assms(4) d by (auto simp: give_def accepted_def split: prod.splits)
  with k deliver_other(2) [OF d] show "g = GiveOk \<or> g = Stall (s_conn sub)"
    "conn_room E i (n - length (sub_frame w sub msg)) (w_conns w' (s_conn sub))"
    "queued E (c_out (w_conns w' (s_conn sub))) =
       queued E (c_out (w_conns w (s_conn sub))) @ [sub_frame w sub msg]"
    "w_registry w' = w_registry w" by auto
qed

section \<open>The loop, seen from one connection\<close>

lemma same_flags:
  assumes "\<And>d. c_flags (w_conns w' d) = c_flags (w_conns w d)"
  shows "supports_headers w' d = supports_headers w d" "conn_echo w' d = conn_echo w d"
    "sub_frame w' sub msg = sub_frame w sub msg" "opts w' d = opts w d"
  using assms by (simp_all add: supports_headers_def conn_echo_def sub_frame_def opts_def)

text \<open>The subscriptions of a connection that a message from \<open>from\<close> is for.\<close>

definition addressed :: "'ch World \<Rightarrow> nat \<Rightarrow> nat \<Rightarrow> Sub list \<Rightarrow> Sub list" where
  "addressed w from c subs = filter (\<lambda>s. s_conn s = c \<and> eligible w from s) subs"

definition frames_for :: "'ch World \<Rightarrow> nat \<Rightarrow> nat \<Rightarrow> Msg \<Rightarrow> Sub list \<Rightarrow> Frame list" where
  "frames_for w from c msg subs = map (\<lambda>s. sub_frame w s msg) (addressed w from c subs)"

lemma frames_for_simps [simp]:
  "frames_for w from c msg [] = []"
  "frames_for w from c msg (s # subs) =
     (if s_conn s = c \<and> eligible w from s then sub_frame w s msg # frames_for w from c msg subs
      else frames_for w from c msg subs)"
  by (simp_all add: frames_for_def addressed_def)

lemma frames_for_cong:
  assumes "\<And>d. c_flags (w_conns w' d) = c_flags (w_conns w d)" "is_closed w' c = is_closed w c"
  shows "frames_for w' from c msg subs = frames_for w from c msg subs"
  using assms(2) by (auto simp: frames_for_def addressed_def eligible_def same_flags [OF assms(1)] intro!: map_cong filter_cong)

lemma route_loop_conn:
  assumes "deps_ok E" "conn_room E i n (w_conns w c)" "frames_bytes (frames_for w from c msg subs) \<le> n"
    and "route_loop E msg from subs cnt stall expired w = (cnt', stall', expired', w')"
  shows "conn_room E i (n - frames_bytes (frames_for w from c msg subs)) (w_conns w' c) \<and>
    queued E (c_out (w_conns w' c)) = queued E (c_out (w_conns w c)) @ frames_for w from c msg subs"
  using assms(2-4)
proof (induction subs arbitrary: cnt stall expired w n)
  case Nil
  then show ?case by simp
next
  case (Cons sub subs)
  show ?case
  proof (cases "eligible w from sub")
    case False
    with Cons show ?thesis by simp
  next
    case True
    obtain g ex1 w1 where g: "give E sub msg expired w = (g, ex1, w1)" by (cases "give E sub msg expired w")
    note o = give_other [OF g]
    have open_c: "\<not> is_closed w c" using Cons.prems(1) by (simp add: conn_room_def is_closed_def)
    obtain cnt1 stall1 where rest: "route_loop E msg from subs cnt1 stall1 ex1 w1 = (cnt', stall', expired', w')"
      using Cons.prems(3) True g by (cases g) auto
    show ?thesis
    proof (cases "s_conn sub = c")
      case True
      note k = give_room [OF assms(1) _ _ g, unfolded True, OF Cons.prems(1)]
      have len: "length (sub_frame w sub msg) + frames_bytes (frames_for w from c msg subs) \<le> n"
        using Cons.prems(2) True \<open>eligible w from sub\<close> by simp
      then have k2: "conn_room E i (n - length (sub_frame w sub msg)) (w_conns w1 c)"
        and k3: "queued E (c_out (w_conns w1 c)) = queued E (c_out (w_conns w c)) @ [sub_frame w sub msg]"
        using k(2,3) by auto
      have cong: "frames_for w1 from c msg subs = frames_for w from c msg subs"
        using o(4) k2 open_c by (intro frames_for_cong) (auto simp: conn_room_def is_closed_def)
      from Cons.IH [OF k2 _ rest] len cong k3 True \<open>eligible w from sub\<close> show ?thesis by simp
    next
      case False
      then have same: "w_conns w1 c = w_conns w c" using o(1) by auto
      then have cong: "frames_for w1 from c msg subs = frames_for w from c msg subs"
        using o(4) by (intro frames_for_cong) (auto simp: is_closed_def)
      from Cons.IH [OF _ _ rest, of n] Cons.prems same cong False show ?thesis by simp
    qed
  qed
qed

text \<open>A connection the message is not for is not touched.\<close>

lemma route_loop_untouched:
  assumes "addressed w from c subs = []"
    and "route_loop E msg from subs cnt stall expired w = (cnt', stall', expired', w')"
  shows "w_conns w' c = w_conns w c"
  using assms
proof (induction subs arbitrary: cnt stall expired w)
  case (Cons sub subs)
  show ?case
  proof (cases "eligible w from sub")
    case False
    with Cons show ?thesis by (simp add: addressed_def)
  next
    case True
    obtain g ex1 w1 where g: "give E sub msg expired w = (g, ex1, w1)" by (cases "give E sub msg expired w")
    note o = give_other [OF g]
    have same: "w_conns w1 c = w_conns w c"
      using o(1) [of c] Cons.prems(1) True by (auto simp: addressed_def split: if_splits)
    then have "s_conn s = c \<Longrightarrow> eligible w1 from s = eligible w from s" for s
      using same_flags(2) [OF o(4)] by (simp add: eligible_def is_closed_def)
    then have "addressed w1 from c subs = addressed w from c subs"
      by (auto simp: addressed_def intro!: filter_cong)
    then have none: "addressed w1 from c subs = []" using Cons.prems(1) by (auto simp: addressed_def split: if_splits)
    obtain cnt1 stall1 where rest: "route_loop E msg from subs cnt1 stall1 ex1 w1 = (cnt', stall', expired', w')"
      using Cons.prems(2) True g by (cases g) auto
    from Cons.IH [OF none rest] same show ?thesis by simp
  qed
qed simp

text \<open>When every addressed connection has room, every addressed subscription is counted.\<close>

definition all_room :: "('ch, 'j) Deps \<Rightarrow> (nat \<Rightarrow> nat) \<Rightarrow> 'ch World \<Rightarrow> nat \<Rightarrow> Msg \<Rightarrow> Sub list \<Rightarrow> bool" where
  "all_room E infl w from msg subs \<longleftrightarrow>
     (\<forall>c. addressed w from c subs \<noteq> [] \<longrightarrow>
        conn_room E (infl c) (frames_bytes (frames_for w from c msg subs)) (w_conns w c))"

lemma eligible_cong:
  assumes "\<And>d. c_flags (w_conns w' d) = c_flags (w_conns w d)" "is_closed w' (s_conn s) = is_closed w (s_conn s)"
  shows "eligible w' from s = eligible w from s"
  using assms(2) same_flags(2) [OF assms(1)] by (simp add: eligible_def)

lemma route_loop_count:
  assumes "deps_ok E" "all_room E infl w from msg subs"
    and "route_loop E msg from subs cnt stall expired w = (cnt', stall', expired', w')"
  shows "cnt' = cnt + length (filter (eligible w from) subs) \<and> w_registry w' = w_registry w"
  using assms(2,3)
proof (induction subs arbitrary: cnt stall expired w)
  case (Cons sub subs)
  show ?case
  proof (cases "eligible w from sub")
    case False
    with Cons.prems(1) have "all_room E infl w from msg subs"
      by (fastforce simp: all_room_def addressed_def)
    with Cons.IH Cons.prems(2) False show ?thesis by simp
  next
    case True
    let ?c = "s_conn sub"
    obtain g ex1 w1 where g: "give E sub msg expired w = (g, ex1, w1)" by (cases "give E sub msg expired w")
    note o = give_other [OF g]
    have room: "conn_room E (infl ?c) (frames_bytes (frames_for w from ?c msg (sub # subs))) (w_conns w ?c)"
      using Cons.prems(1) [unfolded all_room_def, rule_format, of ?c] True by (simp add: addressed_def)
    then have len: "length (sub_frame w sub msg) \<le> frames_bytes (frames_for w from ?c msg (sub # subs))"
      using True by simp
    note k = give_room [OF assms(1) room len g]
    have cl: "is_closed w1 d = is_closed w d" for d
      using k(2) room o(1) [of d] by (cases "d = ?c") (auto simp: conn_room_def is_closed_def)
    note el = eligible_cong [OF o(4) cl] and ff = frames_for_cong [OF o(4) cl]
    have ad: "addressed w1 from c subs = addressed w from c subs" for c by (simp add: addressed_def el)
    have "conn_room E (infl c) (frames_bytes (frames_for w1 from c msg subs)) (w_conns w1 c)"
      if "addressed w1 from c subs \<noteq> []" for c
    proof (cases "c = ?c")
      case True
      with k(2) ff \<open>eligible w from sub\<close> show ?thesis by (simp add: conn_room_def)
    next
      case False
      moreover from this have "addressed w from c (sub # subs) = addressed w from c subs"
        "frames_for w from c msg (sub # subs) = frames_for w from c msg subs" by (auto simp: addressed_def)
      ultimately show ?thesis
        using Cons.prems(1) [unfolded all_room_def, rule_format, of c] that ad ff o(1) [of c] by simp
    qed
    then have rm: "all_room E infl w1 from msg subs" by (simp add: all_room_def)
    obtain stall1 where "route_loop E msg from subs (cnt + 1) stall1 ex1 w1 = (cnt', stall', expired', w')"
      using Cons.prems(2) True g k(1) by auto
    from Cons.IH [OF rm this] el k(4) True show ?thesis by simp
  qed
qed simp

section \<open>The list a message is offered to\<close>

definition interest_ok :: "Registry \<Rightarrow> Interest \<Rightarrow> bool" where
  "interest_ok r it \<longleftrightarrow>
     (in_generation it = r_generation r \<longrightarrow>
        in_subs it = interested (in_subject it) r \<and> in_queue it = (\<exists>s\<in>set (in_subs it). s_queue s \<noteq> None))"

text \<open>Whether the cache was used or not, the list comes from a resolution that is right now.\<close>

lemma route_list_resolved:
  assumes "reg_ok (w_registry w)" "interest_ok (w_registry w) it"
  obtains jt where "in_subs jt = interested subject (w_registry w)"
    "in_queue jt = (\<exists>s\<in>set (interested subject (w_registry w)). s_queue s \<noteq> None)"
    "route_list subject from it w =
      (if in_queue jt then
         (case pick_groups (eligible w from) (\<lambda>s. conn_has_room w (s_conn s)) (w_registry w) jt of
            (kt, r') \<Rightarrow> (in_chosen kt, kt, w\<lparr>w_registry := r'\<rparr>))
       else (in_subs jt, jt, w))"
proof (rule that [of "if in_generation it \<noteq> r_generation (w_registry w) \<or> in_subject it \<noteq> subject
    then resolve subject (w_registry w) it else it"])
qed (use assms resolve_subs [of "w_registry w" subject it] in
    \<open>auto simp: interest_ok_def reg_ok_def route_list_def Let_def\<close>)

lemma route_list_spec:
  assumes "reg_ok (w_registry w)" "interest_ok (w_registry w) it"
    and "route_list subject from it w = (subs, it', w')"
    and "no_wrap (fst (next_u64 (r_rng (w_registry w)))) (interested subject (w_registry w))"
  shows "filter (\<lambda>s. s_queue s = None) subs = filter (\<lambda>s. s_queue s = None) (interested subject (w_registry w))"
    "length (filter (\<lambda>s. s_queue s = Some g) subs) =
       of_bool (\<exists>m\<in>set (interested subject (w_registry w)). s_queue m = Some g \<and> eligible w from m)"
    "set subs \<subseteq> set (interested subject (w_registry w))"
    "w_conns w' = w_conns w" "r_inner (w_registry w') = r_inner (w_registry w)"
proof -
  obtain jt where jt: "in_subs jt = interested subject (w_registry w)"
    "in_queue jt = (\<exists>s\<in>set (interested subject (w_registry w)). s_queue s \<noteq> None)"
    and rl: "route_list subject from it w =
      (if in_queue jt then
         (case pick_groups (eligible w from) (\<lambda>s. conn_has_room w (s_conn s)) (w_registry w) jt of
            (kt, r') \<Rightarrow> (in_chosen kt, kt, w\<lparr>w_registry := r'\<rparr>))
       else (in_subs jt, jt, w))"
    by (rule route_list_resolved [OF assms(1,2)])
  let ?I = "interested subject (w_registry w)"
  have "filter (\<lambda>s. s_queue s = None) subs = filter (\<lambda>s. s_queue s = None) ?I \<and>
      (\<forall>g. length (filter (\<lambda>s. s_queue s = Some g) subs) = of_bool (\<exists>m\<in>set ?I. s_queue m = Some g \<and> eligible w from m)) \<and>
      set subs \<subseteq> set ?I \<and> w_conns w' = w_conns w \<and> r_inner (w_registry w') = r_inner (w_registry w)"
  proof (cases "in_queue jt")
    case False
    then have plain: "\<And>s. s \<in> set ?I \<Longrightarrow> s_queue s = None" using jt(2) by blast
    have "subs = ?I" "w' = w" using assms(3) jt(1) False rl by auto
    with plain show ?thesis by (auto simp: filter_empty_conv)
  next
    case True
    obtain kt r' where p: "pick_groups (eligible w from) (\<lambda>s. conn_has_room w (s_conn s)) (w_registry w) jt = (kt, r')"
      by (cases "pick_groups (eligible w from) (\<lambda>s. conn_has_room w (s_conn s)) (w_registry w) jt")
    have eq: "subs = in_chosen kt" "w' = w\<lparr>w_registry := r'\<rparr>"
      using assms(3) True p rl by auto
    note m = pick_groups_members [OF p assms(4) [folded jt(1)], unfolded jt(1)]
    have "s \<in> set ?I" if "s \<in> set (in_chosen kt)" for s
    proof (cases "s_queue s")
      case None
      with that have "s \<in> set (filter (\<lambda>s. s_queue s = None) (in_chosen kt))" by simp
      then show ?thesis unfolding m(1) by simp
    next
      case (Some g)
      with m(3) that show ?thesis by blast
    qed
    with m(1,2) eq pick_groups_spec(7) [OF p] show ?thesis by auto
  qed
  then show "filter (\<lambda>s. s_queue s = None) subs = filter (\<lambda>s. s_queue s = None) ?I"
    "length (filter (\<lambda>s. s_queue s = Some g) subs) = of_bool (\<exists>m\<in>set ?I. s_queue m = Some g \<and> eligible w from m)"
    "set subs \<subseteq> set ?I" "w_conns w' = w_conns w" "r_inner (w_registry w') = r_inner (w_registry w)" by blast+
qed

section \<open>A fresh world\<close>

definition world_new :: "('ch, 'j) Deps \<Rightarrow> Config \<Rightarrow> Rng \<Rightarrow> 'ch World" where
  "world_new E cfg g =
     \<lparr>w_cfg = cfg, w_registry = registry_new g, w_conns = (\<lambda>c. conn_new E cfg (of_nat c)),
      w_cells = (\<lambda>a. cell_new), w_next = 0\<rparr>"

lemma conn_new_room:
  "deps_ok E \<Longrightarrow> n \<le> unat (cfg_max_pending cfg) \<Longrightarrow> 2 * unat (cfg_max_pending cfg) < 2 ^ 64 \<Longrightarrow>
     conn_room E 0 n (conn_new E cfg cid)"
  using outbox_new_ok [of E "cfg_max_pending cfg"]
  by (simp add: conn_room_def conn_new_def outbox_new_def queued_def deps_okD)

lemma insert_sub_ok: "reg_ok r \<Longrightarrow> sub_ok sub \<Longrightarrow> reg_ok (snd (insert_sub sub r))"
  using inner_insert_ok [of "r_inner r" sub]
  by (auto simp: reg_ok_def insert_sub_def Let_def split: prod.splits)

lemma registry_new_ok: "reg_ok (registry_new g)"
  by (simp add: reg_ok_def inner_new_ok)

section \<open>Properties\<close>

text \<open>C4. A published message reaches who it is for, whatever happens to the others: a connection with room for
  them gets, behind what it had queued and in registration order, one frame for each of its
  subscriptions the message is offered to. Offered are all plain subscriptions whose filter matches, and
  of every matching queue group one member, if the message may go to any.\<close>

theorem publish_reaches_the_subscribers:
  assumes "deps_ok E" "reg_ok (w_registry w)" "interest_ok (w_registry w) it"
    and "no_wrap (fst (next_u64 (r_rng (w_registry w)))) (interested (m_subject msg) (w_registry w))"
    and "route_list (m_subject msg) from it w = (subs, it1, w1)"
    and "route E msg from it w = (cnt, stall, it2, w2)"
    and "conn_room E i n (w_conns w c)" "frames_bytes (frames_for w from c msg subs) \<le> n"
  shows "queued E (c_out (w_conns w2 c)) = queued E (c_out (w_conns w c)) @ frames_for w from c msg subs \<and>
    filter (\<lambda>s. s_queue s = None) subs = filter (\<lambda>s. s_queue s = None) (interested (m_subject msg) (w_registry w)) \<and>
    (\<forall>g. length (filter (\<lambda>s. s_queue s = Some g) subs) =
       of_bool (\<exists>m\<in>set (interested (m_subject msg) (w_registry w)). s_queue m = Some g \<and> eligible w from m))"
proof -
  note rl = route_list_spec [OF assms(2,3,5,4)]
  have ff: "frames_for w1 from c msg subs = frames_for w from c msg subs"
    using rl(4) by (intro frames_for_cong) (auto simp: is_closed_def)
  have "queued E (c_out (w_conns w2 c)) = queued E (c_out (w_conns w c)) @ frames_for w from c msg subs"
  proof (cases "subs = []")
    case True
    with assms(5,6) rl(4) show ?thesis by (auto simp: route_def)
  next
    case False
    then obtain ex w3 where l: "route_loop E msg from subs 0 [] [] w1 = (cnt, stall, ex, w3)"
      and w2: "w2 = w3\<lparr>w_registry := expire ex (w_registry w3)\<rparr>"
      using assms(5,6) by (auto simp: route_def split: prod.splits)
    from route_loop_conn [OF assms(1) _ _ l, of i n c] assms(7,8) rl(4) ff w2 show ?thesis by simp
  qed
  with rl(1,2) show ?thesis by blast
qed

theorem publish_reaches_the_subscribers_witness:
  "let w = (world_new list_deps default_config (rng_new 5))\<lparr>w_registry :=
         snd (insert_sub (sub_new 0 ''foo.*'' None ''9'' 2) (registry_new (rng_new 5)))\<rparr>;
       msg = \<lparr>m_subject = ''foo.a'', m_reply = None, m_hdr = 0, m_body = ''hi''\<rparr>
   in queued list_deps (c_out (w_conns (snd (snd (snd (route list_deps msg 1 interest_new w)))) 2)) =
        [''MSG foo.a 9 2'' @ CRLF @ ''hi'' @ CRLF]"
proof -
  define r where "r = snd (insert_sub (sub_new 0 ''foo.*'' None ''9'' 2) (registry_new (rng_new 5)))"
  define w where "w = (world_new list_deps default_config (rng_new 5))\<lparr>w_registry := r\<rparr>"
  define msg where "msg = \<lparr>m_subject = ''foo.a'', m_reply = None, m_hdr = 0, m_body = ''hi''\<rparr>"
  have "reg_ok r" unfolding r_def
    by (rule insert_sub_ok [OF registry_new_ok]) (rule sub_new_ok, code_simp)
  then have ok: "reg_ok (w_registry w)" by (simp add: w_def)
  have g: "r_generation r = 1" "r_rng r = rng_new 5" unfolding r_def by code_simp+
  then have it: "interest_ok (w_registry w) interest_new" by (simp add: interest_ok_def interest_new_def w_def)
  have int: "interested ''foo.a'' r = [sub_new 0 ''foo.*'' None ''9'' 2]" unfolding r_def by code_simp
  have "unat (fst (next_u64 (rng_new 5))) + 1 \<le> 2 ^ 64" by code_simp
  then have nw: "no_wrap (fst (next_u64 (r_rng (w_registry w)))) (interested (m_subject msg) (w_registry w))"
    by (simp add: no_wrap_def w_def msg_def int g)
  obtain subs it1 w1 where rl: "route_list (m_subject msg) 1 interest_new w = (subs, it1, w1)"
    by (cases "route_list (m_subject msg) 1 interest_new w")
  obtain cnt stall it2 w2 where rt: "route list_deps msg 1 interest_new w = (cnt, stall, it2, w2)"
    by (cases "route list_deps msg 1 interest_new w")
  have "fst (route_list (m_subject msg) 1 interest_new w) = [sub_new 0 ''foo.*'' None ''9'' 2]"
    unfolding msg_def w_def r_def by code_simp
  then have subs: "subs = [sub_new 0 ''foo.*'' None ''9'' 2]" using rl by simp
  have fr: "frames_for w 1 2 msg subs = [''MSG foo.a 9 2'' @ CRLF @ ''hi'' @ CRLF]"
    unfolding subs msg_def w_def r_def by code_simp
  have room: "conn_room list_deps 0 19 (w_conns w 2)"
    unfolding w_def world_new_def
    by (simp, rule conn_new_room [OF deps_ok_list]) (simp_all add: default_config_def CFG_MAX_PENDING_def)
  have "frames_bytes (frames_for w 1 2 msg subs) \<le> 19" unfolding fr by (simp add: CRLF_def)
  from publish_reaches_the_subscribers [OF deps_ok_list ok it nw rl rt room this]
  have "queued list_deps (c_out (w_conns w2 2)) =
      queued list_deps (c_out (w_conns w 2)) @ [''MSG foo.a 9 2'' @ CRLF @ ''hi'' @ CRLF]" unfolding fr by blast
  moreover have "queued list_deps (c_out (w_conns w 2)) = []" unfolding w_def r_def by code_simp
  ultimately show ?thesis unfolding Let_def msg_def [symmetric] r_def [symmetric] w_def [symmetric] rt by simp
qed

text \<open>C21. With echo off, nothing a connection publishes comes back to it: routing leaves the publisher's own
  connection exactly as it was.\<close>

theorem no_echo:
  assumes "\<not> o_echo (opts w from)" "route E msg from it w = (cnt, stall, it', w')"
  shows "w_conns w' from = w_conns w from"
proof -
  obtain subs it1 w1 where rl: "route_list (m_subject msg) from it w = (subs, it1, w1)"
    by (cases "route_list (m_subject msg) from it w")
  have same: "w_conns w1 = w_conns w"
    using rl by (auto simp: route_list_def Let_def split: if_splits prod.splits)
  have "\<not> conn_echo w1 from"
    using assms(1) by (simp add: conn_echo_def same opts_def unpack_def)
  then have none: "addressed w1 from from subs = []" by (simp add: addressed_def eligible_def filter_empty_conv)
  show ?thesis
    using assms(2) rl same route_loop_untouched [OF none, of E msg 0 "[]" "[]"]
    by (auto simp: route_def split: if_splits prod.splits)
qed

theorem no_echo_witness:
  "let w = set_opts 2 (default_options\<lparr>o_echo := False\<rparr>) ((world_new list_deps default_config (rng_new 5))\<lparr>w_registry :=
         snd (insert_sub (sub_new 0 ''foo.*'' None ''9'' 2) (registry_new (rng_new 5)))\<rparr>);
       msg = \<lparr>m_subject = ''foo.a'', m_reply = None, m_hdr = 0, m_body = ''hi''\<rparr>
   in w_conns (snd (snd (snd (route list_deps msg 2 interest_new w)))) 2 = w_conns w 2"
proof -
  define w where "w = set_opts 2 (default_options\<lparr>o_echo := False\<rparr>) ((world_new list_deps default_config (rng_new 5))\<lparr>w_registry :=
         snd (insert_sub (sub_new 0 ''foo.*'' None ''9'' 2) (registry_new (rng_new 5)))\<rparr>)"
  let ?msg = "\<lparr>m_subject = ''foo.a'', m_reply = None, m_hdr = 0, m_body = ''hi''\<rparr>"
  obtain cnt stall it' w' where rt: "route list_deps ?msg 2 interest_new w = (cnt, stall, it', w')"
    by (cases "route list_deps ?msg 2 interest_new w")
  have "\<not> o_echo (opts w 2)" by (simp add: w_def set_opts_def opts_def unpack_pack)
  from no_echo [OF this rt] rt show ?thesis unfolding Let_def w_def [symmetric] by simp
qed

end
