(* ===== verification/World_Inv.thy ===== *)
theory World_Inv
  imports Delivery
begin

text \<open>
  The invariant of the shared world and that every operation of a connection keeps it: the registry
  is well formed, every registered subscription is in its connection's own table, a closed
  connection's queue is given up, and a subscription with a delivery limit is registered only
  while it is below it.
\<close>

section \<open>The invariant\<close>

definition cell_open :: "SubCell \<Rightarrow> bool" where
  "cell_open c \<longleftrightarrow> limit c = 0 \<or> delivered c < limit c"

definition cell_ok :: "SubCell \<Rightarrow> bool" where
  "cell_ok c \<longleftrightarrow> limit c = 0 \<or> delivered c \<le> limit c"

definition table :: "'ch World \<Rightarrow> nat \<Rightarrow> bytes \<Rightarrow> Sub option" where
  "table w c sid = map_of (c_subs (w_conns w c)) sid"

definition registered :: "'ch World \<Rightarrow> Sub set" where
  "registered w = set (all_subs (r_inner (w_registry w)))"

text \<open>Each entry of a table describes itself; entries at the same address are the same.\<close>

definition tables_ok :: "'ch World \<Rightarrow> bool" where
  "tables_ok w \<longleftrightarrow>
     (\<forall>c sid s. table w c sid = Some s \<longrightarrow>
        s_sid s = sid \<and> s_conn s = c \<and> s_addr s < w_next w \<and> sub_ok s) \<and>
     (\<forall>c sid s d tid t. table w c sid = Some s \<longrightarrow> table w d tid = Some t \<longrightarrow> s_addr s = s_addr t \<longrightarrow> s = t)"

text \<open>\<open>X\<close> are the subscriptions that are spent and about to be unregistered.\<close>

definition world_wf :: "Sub set \<Rightarrow> 'ch World \<Rightarrow> bool" where
  "world_wf X w \<longleftrightarrow>
     reg_ok (w_registry w) \<and> tables_ok w \<and>
     (\<forall>s\<in>registered w. table w (s_conn s) (s_sid s) = Some s) \<and>
     (\<forall>s\<in>registered w - X. cell_open (w_cells w (s_addr s))) \<and>
     (\<forall>c sid s. table w c sid = Some s \<longrightarrow> cell_ok (w_cells w (s_addr s))) \<and>
     (\<forall>c. ob_gone (c_out (w_conns w c)) = c_closed (w_conns w c) \<and>
          (c_closed (w_conns w c) \<longrightarrow> ob_tx (c_out (w_conns w c)) = None))"

lemma world_wfD:
  assumes "world_wf X w"
  shows "reg_ok (w_registry w)" "tables_ok w"
    "s \<in> registered w \<Longrightarrow> table w (s_conn s) (s_sid s) = Some s"
    "s \<in> registered w \<Longrightarrow> s \<notin> X \<Longrightarrow> cell_open (w_cells w (s_addr s))"
    "table w c sid = Some s \<Longrightarrow> cell_ok (w_cells w (s_addr s))"
    "ob_gone (c_out (w_conns w c)) = c_closed (w_conns w c)"
    "c_closed (w_conns w c) \<Longrightarrow> ob_tx (c_out (w_conns w c)) = None"
  using assms by (auto simp: world_wf_def)

lemma world_wf_mono: "world_wf X w \<Longrightarrow> X \<subseteq> Y \<Longrightarrow> world_wf Y w"
  by (auto simp: world_wf_def)

lemma cell_open_ok: "cell_open c \<Longrightarrow> cell_ok c"
  by (auto simp: cell_open_def cell_ok_def)

text \<open>Only these parts of the world matter.\<close>

definition same_wf :: "'ch World \<Rightarrow> 'ch World \<Rightarrow> bool" where
  "same_wf w w' \<longleftrightarrow>
     r_inner (w_registry w') = r_inner (w_registry w) \<and> w_cells w' = w_cells w \<and> w_next w' = w_next w \<and>
     (\<forall>c. c_subs (w_conns w' c) = c_subs (w_conns w c) \<and> c_closed (w_conns w' c) = c_closed (w_conns w c) \<and>
          ob_gone (c_out (w_conns w' c)) = ob_gone (c_out (w_conns w c)) \<and>
          (ob_tx (c_out (w_conns w' c)) = None \<longleftrightarrow> ob_tx (c_out (w_conns w c)) = None))"

lemma world_wf_cong: "same_wf w w' \<Longrightarrow> world_wf X w' = world_wf X w"
  by (simp add: same_wf_def world_wf_def reg_ok_def tables_ok_def table_def registered_def)

lemma push_keeps:
  assumes "push E f ob = (r, ob')"
  shows "ob_gone ob' = ob_gone ob" "ob_tx ob' = ob_tx ob"
  using assms by (auto simp: push_def Let_def split: if_splits option.splits)

lemma same_wf_refl: "same_wf w w"
  by (simp add: same_wf_def)

lemma same_wf_trans: "same_wf w w1 \<Longrightarrow> same_wf w1 w2 \<Longrightarrow> same_wf w w2"
  by (simp add: same_wf_def)

lemma same_wf_out:
  assumes "ob_gone ob = ob_gone (c_out (w_conns w c))" "ob_tx ob = None \<longleftrightarrow> ob_tx (c_out (w_conns w c)) = None"
  shows "same_wf w (upd_conn c (\<lambda>k. k\<lparr>c_out := ob\<rparr>) w)"
  using assms by (simp add: same_wf_def)

lemma send_same_wf: "same_wf w (send E c f w)"
proof (cases "is_closed w c \<or> ob_tx (c_out (w_conns w c)) = None")
  case True
  have "w_conns w c = (w_conns w c)\<lparr>c_out := c_out (w_conns w c)\<rparr>" by simp
  with True show ?thesis
    by (auto simp: send_def conn_enqueue_def outbox_enqueue_def intro: same_wf_refl same_wf_out)
next
  case False
  then obtain a where a: "ob_tx (c_out (w_conns w c)) = Some a" by auto
  obtain r ob where p: "push E f (c_out (w_conns w c)) = (r, ob)" by (cases "push E f (c_out (w_conns w c))")
  from same_wf_out [of ob w c] push_keeps [OF p] False a p show ?thesis
    by (simp add: send_def conn_enqueue_def outbox_enqueue_def)
qed

lemma deliver_same_wf: "deliver E sub msg w = (r, w') \<Longrightarrow> same_wf w w'"
proof -
  let ?c = "s_conn sub"
  assume d: "deliver E sub msg w = (r, w')"
  show ?thesis
  proof (cases "is_closed w ?c \<or> ob_tx (c_out (w_conns w ?c)) = None")
    case True
    with d show ?thesis
      by (auto simp: deliver_def queue_with_def Let_def intro: same_wf_refl same_wf_out split: if_splits)
  next
    case False
    then obtain a where a: "ob_tx (c_out (w_conns w ?c)) = Some a" by auto
    obtain f a' where b: "build_frame E a (supports_headers w ?c) (s_sid sub) msg = (f, a')"
      by (cases "build_frame E a (supports_headers w ?c) (s_sid sub) msg")
    obtain r' ob where p: "push E f ((c_out (w_conns w ?c))\<lparr>ob_tx := Some a'\<rparr>) = (r', ob)"
      by (cases "push E f ((c_out (w_conns w ?c))\<lparr>ob_tx := Some a'\<rparr>)")
    from same_wf_out [of ob w ?c] push_keeps [OF p] False a b p d show ?thesis
      by (auto simp: deliver_def queue_with_def Let_def)
  qed
qed

section \<open>Closing\<close>

lemma registered_remove_conn:
  "set (all_subs (r_inner (remove_conn c r))) = {s \<in> set (all_subs (r_inner r)). s_conn s \<noteq> c}"
  using remove_conn_subs [of c "r_inner r"]
  by (auto simp: remove_conn_def Let_def split: prod.split)

lemma remove_conn_ok: "reg_ok r \<Longrightarrow> reg_ok (remove_conn c r)"
  by (rule reg_step_ok [OF reg_step.rem_conn])

lemma finish_registered:
  "\<not> is_closed w c \<Longrightarrow> registered (finish c reason hard w) = {s \<in> registered w. s_conn s \<noteq> c}"
  by (simp add: finish_def Let_def registered_def registered_remove_conn)

lemma finish_table:
  "\<not> is_closed w c \<Longrightarrow> table (finish c reason hard w) d sid = (if d = c then None else table w d sid)"
  by (simp add: finish_def Let_def table_def)

lemma finish_closed: "is_closed (finish c reason hard w) d \<longleftrightarrow> d = c \<or> is_closed w d"
  by (auto simp: finish_def Let_def is_closed_def)

lemma finish_wf:
  assumes "world_wf X w"
  shows "world_wf X (finish c reason hard w)"
proof (cases "is_closed w c")
  case True
  with assms show ?thesis by (simp add: finish_def)
next
  case False
  let ?w = "finish c reason hard w"
  have "reg_ok (w_registry ?w)"
    using False world_wfD(1) [OF assms] by (simp add: finish_def Let_def remove_conn_ok)
  moreover have "tables_ok ?w"
    using world_wfD(2) [OF assms] False by (auto simp: tables_ok_def finish_table finish_other split: if_splits)
  moreover have "ob_gone (c_out (w_conns ?w d)) = c_closed (w_conns ?w d) \<and>
      (c_closed (w_conns ?w d) \<longrightarrow> ob_tx (c_out (w_conns ?w d)) = None)" for d
    using False world_wfD(6,7) [OF assms, of d] by (auto simp: finish_def Let_def no_more_writes_def)
  ultimately show ?thesis
    using world_wfD(3-5) [OF assms] False
    by (auto simp: world_wf_def finish_registered finish_table finish_other split: if_splits)
qed

section \<open>Unregistering\<close>

lemma hits_self: "hits s s"
  by (simp add: hits_def)

lemma registered_remove_sub:
  "inner_ok inner \<Longrightarrow> set (all_subs (remove_sub sub inner)) = {s \<in> set (all_subs inner). \<not> hits sub s}"
  using arg_cong [OF remove_sub_subs, of inner set_mset sub] by auto

lemma registered_fold_remove:
  "inner_ok inner \<Longrightarrow>
     set (all_subs (fold remove_sub subs inner)) = {s \<in> set (all_subs inner). \<forall>x\<in>set subs. \<not> hits x s}"
  by (induction subs arbitrary: inner) (auto simp: registered_remove_sub remove_sub_ok)

lemma registry_shrinks_wf:
  assumes "world_wf X w" "reg_ok r" "set (all_subs (r_inner r)) \<subseteq> registered w"
  shows "world_wf X (w\<lparr>w_registry := r\<rparr>)"
  using assms by (auto simp: world_wf_def registered_def tables_ok_def table_def subset_iff)

lemma expire_wf:
  assumes "world_wf (X \<union> set expired) w" "X = {}"
  shows "world_wf {} (w\<lparr>w_registry := expire expired (w_registry w)\<rparr>)"
proof -
  have ok: "inner_ok (r_inner (w_registry w))" using world_wfD(1) [OF assms(1)] by (simp add: reg_ok_def)
  have sub: "set (all_subs (r_inner (expire expired (w_registry w)))) = {s \<in> registered w. \<forall>x\<in>set expired. \<not> hits x s}"
    using registered_fold_remove [OF ok] by (simp add: expire_def registered_def)
  have "reg_ok (expire expired (w_registry w))"
    using ok by (simp add: expire_def reg_ok_def fold_remove_ok)
  with assms(1) sub have wf: "world_wf (X \<union> set expired) (w\<lparr>w_registry := expire expired (w_registry w)\<rparr>)"
    by (intro registry_shrinks_wf) auto
  have "s \<notin> set expired" if "s \<in> registered (w\<lparr>w_registry := expire expired (w_registry w)\<rparr>)" for s
    using that sub hits_self [of s] by (auto simp: registered_def)
  with wf assms(2) show ?thesis by (auto simp: world_wf_def)
qed

section \<open>Giving a message\<close>

lemma account_open:
  assumes "cell_open c" "account c = (spent, c')"
  shows "cell_ok c'" "\<not> spent \<Longrightarrow> cell_open c'" "limit c' = limit c" "delivered c' = delivered c + 1"
proof -
  have "limit c \<noteq> 0 \<Longrightarrow> delivered c < limit c \<Longrightarrow> delivered c + 1 \<le> limit c"
    by (rule inc_le)
  with assms show "cell_ok c'" "\<not> spent \<Longrightarrow> cell_open c'" "limit c' = limit c" "delivered c' = delivered c + 1"
    by (auto simp: account_def cell_open_def cell_ok_def Let_def not_le)
qed

lemma set_cell_wf:
  assumes "world_wf X w" "table w (s_conn s) (s_sid s) = Some s" "cell_ok cell"
    and "s \<notin> Y \<Longrightarrow> cell_open cell" "X \<subseteq> Y"
  shows "world_wf Y (w\<lparr>w_cells := (w_cells w)(s_addr s := cell)\<rparr>)"
proof -
  have uniq: "t = s" if "table w d tid = Some t" "s_addr t = s_addr s" for d tid t
    using world_wfD(2) [OF assms(1)] assms(2) that by (auto simp: tables_ok_def)
  have reg: "t = s" if "t \<in> registered w" "s_addr t = s_addr s" for t
    using uniq [OF world_wfD(3) [OF assms(1) that(1)] that(2)] .
  let ?w = "w\<lparr>w_cells := (w_cells w)(s_addr s := cell)\<rparr>"
  have same: "registered ?w = registered w" "table ?w = table w" "tables_ok ?w = tables_ok w"
    by (auto simp: registered_def table_def tables_ok_def fun_eq_iff)
  have "cell_open (w_cells ?w (s_addr t))" if "t \<in> registered w" "t \<notin> Y" for t
    using that reg [OF that(1)] assms(4,5) world_wfD(4) [OF assms(1) that(1)] by (auto split: if_splits)
  moreover have "cell_ok (w_cells ?w (s_addr t))" if "table w d tid = Some t" for d tid t
    using that assms(3) world_wfD(5) [OF assms(1) that] by auto
  ultimately show ?thesis
    using world_wfD(1-3,6,7) [OF assms(1)] unfolding world_wf_def same by auto
qed

lemma give_wf:
  assumes "world_wf (set expired) w" "sub \<in> registered w" "sub \<notin> set expired"
    and "give E sub msg expired w = (g, expired', w')"
  shows "world_wf (set expired') w'" "set expired' \<subseteq> insert sub (set expired)"
    "registered w' = registered w \<or> registered w' = {s \<in> registered w. s_conn s \<noteq> s_conn sub} \<and> is_closed w' (s_conn sub)"
    "d \<noteq> s_conn sub \<Longrightarrow> is_closed w' d = is_closed w d"
proof -
  obtain r w1 where d: "deliver E sub msg w = (r, w1)" by (cases "deliver E sub msg w")
  have wf1: "world_wf (set expired) w1" using world_wf_cong [OF deliver_same_wf [OF d]] assms(1) by simp
  have reg1: "registered w1 = registered w" using deliver_same_wf [OF d] by (simp add: same_wf_def registered_def)
  have cl1: "is_closed w1 c = is_closed w c" for c using deliver_same_wf [OF d] by (simp add: same_wf_def is_closed_def)
  obtain spent cell where a: "account (w_cells w1 (s_addr sub)) = (spent, cell)"
    by (cases "account (w_cells w1 (s_addr sub))")
  let ?ex = "if spent then expired @ [sub] else expired" and ?w = "w1\<lparr>w_cells := (w_cells w1)(s_addr sub := cell)\<rparr>"
  have op: "cell_open (w_cells w1 (s_addr sub))"
    using world_wfD(4) [OF wf1, of sub] assms(2,3) reg1 by simp
  have wf2: "world_wf (set ?ex) ?w"
    using account_open(1,2) [OF op a] assms(2) reg1 world_wfD(3) [OF wf1, of sub]
    by (intro set_cell_wf [OF wf1]) (auto split: if_splits)
  have "world_wf (set expired') w' \<and> set expired' \<subseteq> insert sub (set expired) \<and>
      (registered w' = registered w \<or> registered w' = {s \<in> registered w. s_conn s \<noteq> s_conn sub} \<and> is_closed w' (s_conn sub)) \<and>
      (\<forall>d. d \<noteq> s_conn sub \<longrightarrow> is_closed w' d = is_closed w d)"
  proof (cases r)
    case SlowConsumer
    then have eq: "expired' = expired @ [sub]" "w' = finish (s_conn sub) ''slow consumer: max_pending exceeded'' True w1"
      using assms(4) d by (auto simp: give_def close_defs)
    have "\<not> is_closed w1 (s_conn sub)"
      using SlowConsumer d cl1 by (auto simp: deliver_def Let_def split: if_splits)
    with eq finish_wf [OF world_wf_mono [OF wf1, of "set expired'"]] reg1 cl1 show ?thesis
      by (auto simp: finish_registered finish_closed)
  qed (use assms(4) d a wf1 wf2 reg1 cl1 in
      \<open>auto simp: give_def account_sub_def registered_def is_closed_def split: if_splits\<close>)
  then show "world_wf (set expired') w'" "set expired' \<subseteq> insert sub (set expired)"
    "registered w' = registered w \<or> registered w' = {s \<in> registered w. s_conn s \<noteq> s_conn sub} \<and> is_closed w' (s_conn sub)"
    "d \<noteq> s_conn sub \<Longrightarrow> is_closed w' d = is_closed w d" by blast+
qed

text \<open>
  The loop: what is left of the list is registered, or its connection is closed by now, and none of it
  is spent.
\<close>

lemma route_loop_wf:
  assumes "world_wf (set expired) w" "distinct subs" "set subs \<inter> set expired = {}"
    and "\<And>s. s \<in> set subs \<Longrightarrow> s \<in> registered w \<or> is_closed w (s_conn s)"
    and "route_loop E msg from subs cnt stall expired w = (cnt', stall', expired', w')"
  shows "world_wf (set expired') w'"
  using assms
proof (induction subs arbitrary: cnt stall expired w)
  case (Cons sub subs)
  show ?case
  proof (cases "eligible w from sub")
    case False
    with Cons show ?thesis by simp
  next
    case True
    then have reg: "sub \<in> registered w" using Cons.prems(4) [of sub] by (simp add: eligible_def)
    obtain g ex1 w1 where g: "give E sub msg expired w = (g, ex1, w1)" by (cases "give E sub msg expired w")
    have nex: "sub \<notin> set expired" using Cons.prems(3) by auto
    note k = give_wf [OF Cons.prems(1) reg nex g]
    obtain cnt1 stall1 where rest: "route_loop E msg from subs cnt1 stall1 ex1 w1 = (cnt', stall', expired', w')"
      using Cons.prems(5) True g by (cases g) auto
    show ?thesis
    proof (rule Cons.IH [OF k(1) _ _ _ rest])
      show "distinct subs" "set subs \<inter> set ex1 = {}" using Cons.prems(2,3) k(2) by auto
      show "s \<in> registered w1 \<or> is_closed w1 (s_conn s)" if "s \<in> set subs" for s
        using k(3,4) Cons.prems(4) [of s] that True by (cases "s_conn s = s_conn sub") (auto simp: eligible_def)
    qed
  qed
qed simp

lemma interested_distinct: "reg_ok r \<Longrightarrow> distinct (interested subject r)"
  using inner_okD(6) [of "r_inner r"] by (auto simp: interested_def reg_ok_def distinct_map)

lemma distinct_by_class: "(\<And>q. distinct (filter (\<lambda>s. f s = q) xs)) \<Longrightarrow> distinct xs"
proof (induction xs)
  case (Cons x xs)
  have "distinct (filter (\<lambda>s. f s = q) xs)" for q
    using Cons.prems [of q] by (auto split: if_splits)
  with Cons.IH Cons.prems [of "f x"] show ?case by auto
qed simp

lemma pick_chosen_distinct:
  assumes "distinct subs"
  shows "distinct (snd (pick_loop start el rm subs groups []))"
proof -
  obtain new where n: "snd (pick_loop start el rm subs groups []) = new"
    "filter (\<lambda>s. s_queue s = None) new = filter (\<lambda>s. s_queue s = None) subs"
    "\<And>g. filter (\<lambda>s. s_queue s = Some g) new =
       (if g \<in> set groups then [] else case pick start (filter (\<lambda>s. s_queue s = Some g) subs) el rm of Some s \<Rightarrow> [s] | None \<Rightarrow> [])"
    using pick_loop_spec [of start el rm subs groups "[]"] by auto
  have "distinct (filter (\<lambda>s. s_queue s = q) new)" for q
    using n(2) n(3) assms by (cases q) (auto split: option.split)
  then show ?thesis unfolding n(1) by (rule distinct_by_class)
qed

lemma route_list_wf:
  assumes "reg_ok (w_registry w)" "interest_ok (w_registry w) it" "route_list subject from it w = (subs, it', w')"
  shows "distinct subs" "set subs \<subseteq> registered w" "same_wf w w'"
proof -
  obtain jt where jt: "in_subs jt = interested subject (w_registry w)"
    and rl: "route_list subject from it w =
      (if in_queue jt then
         (case pick_groups (eligible w from) (\<lambda>s. conn_has_room w (s_conn s)) (w_registry w) jt of
            (kt, r') \<Rightarrow> (in_chosen kt, kt, w\<lparr>w_registry := r'\<rparr>))
       else (in_subs jt, jt, w))"
    by (rule route_list_resolved [OF assms(1,2)])
  have I: "distinct (interested subject (w_registry w))" "set (interested subject (w_registry w)) \<subseteq> registered w"
    using interested_distinct [OF assms(1)] by (auto simp: interested_def registered_def)
  have "distinct subs \<and> set subs \<subseteq> registered w \<and> same_wf w w'"
  proof (cases "in_queue jt")
    case False
    with rl jt I assms(3) show ?thesis by (auto simp: same_wf_refl)
  next
    case True
    obtain kt r' where p: "pick_groups (eligible w from) (\<lambda>s. conn_has_room w (s_conn s)) (w_registry w) jt = (kt, r')"
      by (cases "pick_groups (eligible w from) (\<lambda>s. conn_has_room w (s_conn s)) (w_registry w) jt")
    have eq: "subs = in_chosen kt" "w' = w\<lparr>w_registry := r'\<rparr>" using assms(3) True p rl by auto
    have "distinct (in_chosen kt)"
      using p pick_chosen_distinct [OF I(1)] jt by (auto simp: pick_groups_def split: prod.splits) (metis snd_conv)
    moreover have "s \<in> set (in_subs jt)" if "s \<in> set (in_chosen kt)" for s
    proof (cases "s_queue s")
      case None
      with that have "s \<in> set (filter (\<lambda>s. s_queue s = None) (in_chosen kt))" by simp
      then show ?thesis unfolding pick_groups_spec(1) [OF p] by simp
    next
      case (Some g)
      with that have "s \<in> set (filter (\<lambda>s. s_queue s = Some g) (in_chosen kt))" by simp
      then show ?thesis unfolding pick_groups_spec(2) [OF p] by (auto dest!: pick_Some [OF sym] split: option.splits)
    qed
    ultimately show ?thesis using eq jt I(2) pick_groups_spec(7) [OF p] by (auto simp: same_wf_def)
  qed
  then show "distinct subs" "set subs \<subseteq> registered w" "same_wf w w'" by auto
qed

lemma route_wf:
  assumes "world_wf {} w" "interest_ok (w_registry w) it" "route E msg from it w = (cnt, stall, it', w')"
  shows "world_wf {} w'"
proof -
  obtain subs it1 w1 where rl: "route_list (m_subject msg) from it w = (subs, it1, w1)"
    by (cases "route_list (m_subject msg) from it w")
  note k = route_list_wf [OF world_wfD(1) [OF assms(1)] assms(2) rl]
  have wf1: "world_wf {} w1" using world_wf_cong [OF k(3)] assms(1) by simp
  have reg: "registered w1 = registered w" using k(3) by (simp add: same_wf_def registered_def)
  show ?thesis
  proof (cases "subs = []")
    case True
    with assms(3) rl wf1 show ?thesis by (auto simp: route_def)
  next
    case False
    then obtain ex w2 where l: "route_loop E msg from subs 0 [] [] w1 = (cnt, stall, ex, w2)"
      and w': "w' = w2\<lparr>w_registry := expire ex (w_registry w2)\<rparr>"
      using assms(3) rl by (auto simp: route_def split: prod.splits)
    have "world_wf (set ex) w2"
      using route_loop_wf [OF _ k(1) _ _ l] wf1 k(2) reg by auto
    with expire_wf [of "{}" ex w2] w' show ?thesis by simp
  qed
qed

section \<open>Subscribing and unsubscribing\<close>

lemma map_of_update: "map_of (AList.update k v al) j = (if j = k then Some v else map_of al j)"
  by (simp add: update_conv)

lemma map_of_delete: "map_of (AList.delete k al) j = (if j = k then None else map_of al j)"
  by (simp add: delete_conv)

text \<open>The state change of a \<^verbatim>\<open>SUB\<close> with a fresh sid.\<close>

definition add_sub :: "Sub \<Rightarrow> Registry \<Rightarrow> 'ch World \<Rightarrow> 'ch World" where
  "add_sub sub r w =
     upd_conn (s_conn sub) (\<lambda>k. k\<lparr>c_subs := AList.update (s_sid sub) sub (c_subs k)\<rparr>)
       (w\<lparr>w_next := w_next w + 1, w_cells := (w_cells w)(w_next w := cell_new), w_registry := r\<rparr>)"

lemma insert_sub_registered:
  assumes "reg_ok r" "sub_ok sub" "insert_sub sub r = (ok, r')"
  shows "ok" "reg_ok r'" "set (all_subs (r_inner r')) \<subseteq> insert sub (set (all_subs (r_inner r)))"
    "sub_key sub \<notin> sub_key ` set (all_subs (r_inner r)) \<Longrightarrow>
       set (all_subs (r_inner r')) = insert sub (set (all_subs (r_inner r)))"
proof -
  have w: "s_wildcard sub = has_wildcard (s_subject sub)" using assms(2) by (simp add: sub_ok_def)
  have in_ok: "inner_ok (r_inner r)" using assms(1) by (simp add: reg_ok_def)
  have r': "r_inner r' = snd (inner_insert sub (r_inner r))" and "ok"
    using assms(2,3) by (auto simp: insert_sub_def sub_ok_def Let_def split: if_splits prod.splits)
  note subs = inner_insert_subs [OF in_ok w]
  show "ok" by fact
  show "reg_ok r'" using inner_insert_ok [OF in_ok assms(2)] r' by (simp add: reg_ok_def)
  show "set (all_subs (r_inner r')) \<subseteq> insert sub (set (all_subs (r_inner r)))"
    using arg_cong [OF subs(2), of set_mset] r' by (auto split: if_splits)
  show "sub_key sub \<notin> sub_key ` set (all_subs (r_inner r)) \<Longrightarrow>
      set (all_subs (r_inner r')) = insert sub (set (all_subs (r_inner r)))"
    using arg_cong [OF subs(2), of set_mset] subs(1) r' by auto
qed

lemma add_sub_wf:
  assumes "world_wf {} w" "table w (s_conn sub) (s_sid sub) = None" "sub_ok sub" "s_addr sub = w_next w"
    and "insert_sub sub (w_registry w) = (ok, r)"
  shows "world_wf {} (add_sub sub r w)"
proof -
  let ?w = "add_sub sub r w"
  note ins = insert_sub_registered [OF world_wfD(1) [OF assms(1)] assms(3,5)]
  have tab: "table ?w d tid = (if d = s_conn sub \<and> tid = s_sid sub then Some sub else table w d tid)" for d tid
    by (simp add: add_sub_def table_def map_of_update)
  have cells: "w_cells ?w = (w_cells w)(w_next w := cell_new)" "w_next ?w = w_next w + 1"
    by (simp_all add: add_sub_def)
  have reg: "registered ?w \<subseteq> insert sub (registered w)" using ins(3) by (simp add: add_sub_def registered_def)
  have old: "s_addr s < w_next w" if "table w d tid = Some s" for d tid s
    using world_wfD(2) [OF assms(1)] that by (auto simp: tables_ok_def)
  have "tables_ok ?w"
    using world_wfD(2) [OF assms(1)] assms(3,4) old
    unfolding tables_ok_def tab cells by (fastforce split: if_splits)
  moreover have "table ?w (s_conn s) (s_sid s) = Some s \<and> cell_open (w_cells ?w (s_addr s))" if "s \<in> registered ?w" for s
  proof (cases "s = sub")
    case True
    then show ?thesis using assms(4) by (simp add: tab cells cell_open_def cell_new_def)
  next
    case False
    with that reg have s: "s \<in> registered w" by auto
    from world_wfD(3,4) [OF assms(1) s] have t: "table w (s_conn s) (s_sid s) = Some s" "cell_open (w_cells w (s_addr s))"
      by auto
    moreover from t assms(2) have "\<not> (s_conn s = s_conn sub \<and> s_sid s = s_sid sub)" by auto
    ultimately show ?thesis using old [OF t(1)] by (auto simp: tab cells)
  qed
  moreover have "cell_ok (w_cells ?w (s_addr s))" if "table ?w d tid = Some s" for d tid s
    using that assms(4) world_wfD(5) [OF assms(1), of d tid s] old [of d tid s]
    by (auto simp: tab cells cell_ok_def cell_new_def split: if_splits)
  moreover have "reg_ok (w_registry ?w)" using ins(2) by (simp add: add_sub_def)
  moreover have "ob_gone (c_out (w_conns ?w d)) = c_closed (w_conns ?w d) \<and>
      (c_closed (w_conns ?w d) \<longrightarrow> ob_tx (c_out (w_conns ?w d)) = None)" for d
    using world_wfD(6,7) [OF assms(1), of d] by (auto simp: add_sub_def)
  ultimately show ?thesis by (auto simp: world_wf_def)
qed

lemma handle_subscribe_wf:
  assumes "world_wf {} w"
  shows "world_wf {} (handle_subscribe E c subject queue sid w)"
proof (cases "\<not> is_valid subject \<or> (\<exists>q\<in>set_option queue. \<not> is_valid q)")
  case True
  then show ?thesis
    using assms by (simp add: handle_subscribe_def send_err_def world_wf_cong [OF send_same_wf])
next
  case False
  let ?sub = "sub_new (w_next w) subject queue sid c"
  obtain ok r where i: "insert_sub ?sub (w_registry w) = (ok, r)" by (cases "insert_sub ?sub (w_registry w)")
  have sok: "sub_ok ?sub" using False by (simp add: sub_new_ok)
  have "ok" using insert_sub_registered(1) [OF world_wfD(1) [OF assms] sok i] .
  then have "handle_subscribe E c subject queue sid w =
      (let w1 = (if table w c sid \<noteq> None then w else add_sub ?sub r w)
       in if o_verbose (opts w c) then send E c frame_ok w1 else w1)"
    using False i by (simp add: handle_subscribe_def table_def add_sub_def Let_def sub_new_def upd_conn_def)
  then show ?thesis
    using assms add_sub_wf [OF assms _ sok _ i]
    by (simp add: Let_def world_wf_cong [OF send_same_wf] sub_new_def)
qed

lemma set_limit_ok:
  assumes "set_limit m cell = (gone, cell')"
  shows "cell_open cell'"
  using assms by (auto simp: set_limit_def cell_open_def split: if_splits)

lemma tables_ok_less:
  assumes "tables_ok w" "\<And>d tid s. table w' d tid = Some s \<Longrightarrow> table w d tid = Some s" "w_next w' = w_next w"
  shows "tables_ok w'"
  using assms(1) unfolding tables_ok_def assms(3) by (meson assms(2))

lemma drop_sub_wf:
  assumes "world_wf {} w" "table w c sid = Some sub"
    and v: "v = (upd_conn c (\<lambda>k. k\<lparr>c_subs := AList.delete sid (c_subs k)\<rparr>) w)\<lparr>w_registry := remove sub (w_registry w)\<rparr>"
  shows "world_wf {} v"
proof -
  have tab: "table v d tid = (if d = c \<and> tid = sid then None else table w d tid)" for d tid
    by (simp add: v table_def map_of_delete)
  have fields: "w_cells v = w_cells w" "w_next v = w_next w" "w_registry v = remove sub (w_registry w)"
    "c_out (w_conns v d) = c_out (w_conns w d)" "c_closed (w_conns v d) = c_closed (w_conns w d)" for d
    by (simp_all add: v)
  have in_ok: "inner_ok (r_inner (w_registry w))" using world_wfD(1) [OF assms(1)] by (simp add: reg_ok_def)
  have reg: "registered v = {s \<in> registered w. \<not> hits sub s}"
    using registered_remove_sub [OF in_ok] by (simp add: registered_def remove_def fields)
  have keep: "\<not> (s_conn s = c \<and> s_sid s = sid)" if "s \<in> registered v" for s
  proof
    assume "s_conn s = c \<and> s_sid s = sid"
    moreover have "table w (s_conn s) (s_sid s) = Some s" using that reg world_wfD(3) [OF assms(1), of s] by simp
    ultimately have "s = sub" using assms(2) by simp
    with that reg hits_self [of sub] show False by simp
  qed
  have "tables_ok v"
    by (rule tables_ok_less [OF world_wfD(2) [OF assms(1)]]) (auto simp: tab fields split: if_splits)
  moreover have "reg_ok (w_registry v)"
    unfolding fields by (rule reg_step_ok [OF reg_step.rem world_wfD(1) [OF assms(1)]])
  moreover have "table v (s_conn s) (s_sid s) = Some s \<and> cell_open (w_cells v (s_addr s))" if "s \<in> registered v" for s
    using that keep [OF that] reg world_wfD(3,4) [OF assms(1), of s] by (simp add: tab fields)
  moreover have "cell_ok (w_cells v (s_addr s))" if "table v d tid = Some s" for d tid s
    using that world_wfD(5) [OF assms(1), of d tid s] by (simp add: tab fields split: if_splits)
  moreover have "ob_gone (c_out (w_conns v d)) = c_closed (w_conns v d) \<and>
      (c_closed (w_conns v d) \<longrightarrow> ob_tx (c_out (w_conns v d)) = None)" for d
    using world_wfD(6,7) [OF assms(1), of d] by (simp add: fields)
  ultimately show ?thesis unfolding world_wf_def by blast
qed

lemma handle_unsubscribe_wf:
  assumes "world_wf {} w"
  shows "world_wf {} (handle_unsubscribe E c sid m w)"
proof (cases "table w c sid")
  case None
  then show ?thesis
    using assms by (simp add: handle_unsubscribe_def table_def Let_def world_wf_cong [OF send_same_wf])
next
  case (Some sub)
  have sub: "s_sid sub = sid" "s_conn sub = c" using world_wfD(2) [OF assms] Some by (auto simp: tables_ok_def)
  obtain gone cell where l: "set_limit m (w_cells w (s_addr sub)) = (gone, cell)"
    by (cases "set_limit m (w_cells w (s_addr sub))")
  let ?wa = "w\<lparr>w_cells := (w_cells w)(s_addr sub := cell)\<rparr>"
  have wa: "world_wf {} ?wa"
    using set_cell_wf [OF assms, of sub cell "{}"] Some sub set_limit_ok [OF l] cell_open_ok by auto
  have "table ?wa c sid = Some sub" using Some by (simp add: table_def)
  note drop = drop_sub_wf [OF wa this refl]
  show ?thesis
    using Some l wa drop
    by (simp add: handle_unsubscribe_def table_def Let_def world_wf_cong [OF send_same_wf])
qed

section \<open>The handler\<close>

lemma fold_send_wf: "world_wf X (fold (\<lambda>s. send E c (f s)) ss w) = world_wf X w"
  by (induction ss arbitrary: w) (simp_all add: world_wf_cong [OF send_same_wf])

lemma no_responder_check_wf: "world_wf X (no_responder_check E c msg reply n w) = world_wf X w"
  by (simp add: no_responder_check_def fold_send_wf split: option.split)

lemma handle_publish_wf:
  assumes "world_wf {} w" "interest_ok (w_registry w) it"
    and "handle_publish E c subject reply hdr hpub body it w = (ok, it', ws, w')"
  shows "world_wf {} w'"
proof (cases "hpub \<and> \<not> o_headers (opts w c)")
  case True
  with assms show ?thesis by (simp add: handle_publish_def Let_def)
next
  case False
  define w1 where "w1 = (if o_pedantic (opts w c) \<and> \<not> is_valid_publish subject then send_err E c INVALID_PUBLISH_SUBJECT w else w)"
  define w2 where "w2 = (if o_verbose (opts w c) then send E c frame_ok w1 else w1)"
  let ?msg = "\<lparr>m_subject = subject, m_reply = reply, m_hdr = hdr, m_body = body\<rparr>"
  have eq: "handle_publish E c subject reply hdr hpub body it w =
      (if subject = [] then (True, it, [], w2)
       else case route E ?msg c it w2 of
         (cnt, stall, it1, w3) \<Rightarrow> (True, it1, stall, no_responder_check E c ?msg reply cnt w3))"
    unfolding handle_publish_def Let_def w2_def w1_def by (rule if_not_P [OF False])
  have wf2: "world_wf {} w2" and reg2: "w_registry w2 = w_registry w"
    using assms(1) by (auto simp: w1_def w2_def send_err_def world_wf_cong [OF send_same_wf] send_other)
  show ?thesis
    using assms(2,3) eq wf2 reg2 route_wf [OF wf2, of it E ?msg c]
    by (auto simp: no_responder_check_wf split: if_splits prod.splits)
qed

lemma upd_same_wf:
  assumes "\<And>k. c_subs (f k) = c_subs k" "\<And>k. c_closed (f k) = c_closed k" "\<And>k. c_out (f k) = c_out k"
  shows "same_wf w (upd_conn c f w)"
  using assms by (simp add: same_wf_def)

lemma handle_wf:
  assumes "world_wf {} w" "interest_ok (w_registry w) it" "handle E c ev it w = (ok, it', ws, w')"
  shows "world_wf {} w'"
proof -
  have s: "world_wf {} (send E c f v) = world_wf {} v" for f v by (rule world_wf_cong [OF send_same_wf])
  have o: "world_wf {} (set_opts c o' v) = world_wf {} v" for o' v
    unfolding set_opts_def by (rule world_wf_cong [OF upd_same_wf]) simp_all
  have p: "world_wf {} (note_pong c v) = world_wf {} v" for v
    unfolding note_pong_def by (rule world_wf_cong [OF upd_same_wf]) simp_all
  show ?thesis
  proof (cases ev)
    case (Publish subject reply hdr n body hpub)
    with assms(3) handle_publish_wf [OF assms(1,2)] show ?thesis by (simp add: handle_def)
  next
    case (HpubAttempt outcome)
    have "w' = w \<or> (\<exists>text. w' = send E c (frame_err text) w)"
      using assms(3) HpubAttempt by (cases outcome) (auto simp: handle_def send_err_def split: if_splits)
    with assms(1) s show ?thesis by auto
  next
    case (Connect json)
    have "w' = w \<or> (\<exists>o'. w' = set_opts c o' w \<or> w' = send E c frame_ok (set_opts c o' w))"
      using assms(3) Connect by (auto simp: handle_def Let_def split: if_splits prod.splits)
    with assms(1) s o show ?thesis by auto
  next
    case (Subscribe subject queue sid)
    with assms(3) handle_subscribe_wf [OF assms(1)] show ?thesis by (auto simp: handle_def)
  next
    case (Unsubscribe sid m)
    with assms(3) handle_unsubscribe_wf [OF assms(1)] show ?thesis by (auto simp: handle_def)
  next
    case Ping
    with assms(1,3) s show ?thesis by (auto simp: handle_def)
  next
    case Pong
    with assms(1,3) p show ?thesis by (auto simp: handle_def)
  qed (use assms(1,3) in \<open>simp_all add: handle_def\<close>)
qed

lemma world_new_wf: "world_wf X (world_new E cfg g)"
proof -
  have "registered (world_new E cfg g) = {}" "\<And>c sid. table (world_new E cfg g) c sid = None"
    by (simp_all add: world_new_def registered_def registry_new_def all_subs_def table_def conn_new_def)
  moreover have "reg_ok (w_registry (world_new E cfg g))" by (simp add: world_new_def registry_new_ok)
  ultimately show ?thesis
    by (simp add: world_wf_def tables_ok_def) (simp add: world_new_def conn_new_def outbox_new_def)
qed

section \<open>Properties\<close>

text \<open>C6. Whatever operation a connection performs, the shared world stays well formed: the registry is, every
  registered subscription is the one its connection holds under its sid, a subscription with a limit is
  registered only while below it and never gets more messages than its limit, and exactly the closed
  connections have given up their queue.\<close>

theorem handler_keeps_the_world:
  assumes "world_wf {} w" "interest_ok (w_registry w) it" "handle E c ev it w = (ok, it', ws, w')"
  shows "world_wf {} w' \<and>
    (\<forall>s\<in>registered w'. table w' (s_conn s) (s_sid s) = Some s \<and> cell_open (w_cells w' (s_addr s))) \<and>
    (\<forall>d sid s. table w' d sid = Some s \<longrightarrow> cell_ok (w_cells w' (s_addr s)))"
  using handle_wf [OF assms] world_wfD(3-5) [OF handle_wf [OF assms]] by blast

theorem handler_keeps_the_world_witness:
  "world_wf {} (snd (snd (snd (handle list_deps 1 (Subscribe ''foo'' None ''1'') interest_new
     (world_new list_deps default_config (rng_new 3))))))"
proof -
  let ?w = "world_new list_deps default_config (rng_new 3)"
  obtain ok it' ws w' where h: "handle list_deps 1 (Subscribe ''foo'' None ''1'') interest_new ?w = (ok, it', ws, w')"
    by (cases "handle list_deps 1 (Subscribe ''foo'' None ''1'') interest_new ?w")
  have "interest_ok (w_registry ?w) interest_new"
    by (simp add: interest_ok_def interest_new_def world_new_def registry_new_def)
  from handler_keeps_the_world [OF world_new_wf this h] h show ?thesis by simp
qed

text \<open>C19. Closing a connection takes all its subscriptions out of the registry and no other, empties its table,
  leaves every other connection alone, lets a publisher that waits for it go on, and makes every later
  frame for it be dropped; closing again changes nothing.\<close>

theorem closing_unregisters:
  assumes "world_wf {} w" "\<not> is_closed w c"
  shows "registered (finish c reason hard w) = {s \<in> registered w. s_conn s \<noteq> c} \<and>
    table (finish c reason hard w) c sid = None \<and>
    (d \<noteq> c \<longrightarrow> w_conns (finish c reason hard w) d = w_conns w d) \<and>
    wait_over (finish c reason hard w) c \<and> room (c_out (w_conns (finish c reason hard w) c)) \<and>
    conn_enqueue E c frame (finish c reason hard w) = (Dropped, finish c reason hard w) \<and>
    finish c reason' hard' (finish c reason hard w) = finish c reason hard w"
proof -
  have "is_closed (finish c reason hard w) c" by (simp add: finish_closed)
  moreover have "room (c_out (w_conns (finish c reason hard w) c))"
    using assms(2) by (simp add: finish_def Let_def no_more_writes_room)
  ultimately show ?thesis
    using assms(2) by (simp add: finish_registered finish_table finish_other wait_over_def conn_enqueue_def)
      (simp add: finish_def [of c reason'])
qed

theorem closing_unregisters_witness:
  "registered (finish 1 ''bye'' False (world_new list_deps default_config (rng_new 3))) = {} \<and>
   wait_over (finish 1 ''bye'' False (world_new list_deps default_config (rng_new 3))) 1"
proof -
  let ?w = "world_new list_deps default_config (rng_new 3)"
  have "\<not> is_closed ?w 1" "registered ?w = {}"
    by (simp_all add: is_closed_def world_new_def conn_new_def registered_def registry_new_def all_subs_def)
  with closing_unregisters [OF world_new_wf this(1), of "''bye''" False "[]" 0 list_deps "[]" "[]" False] show ?thesis by simp
qed

end
