(* ===== verification/Client.thy ===== *)
theory Client
  imports World_Inv
begin

text \<open>
  The reader task of a connection (\<^verbatim>\<open>read_loop\<close> of \<^verbatim>\<open>crates/server/src/client.rs\<close>): its buffer size,
  the keepalive, reading and parsing a segment, and running the operations of a batch one after
  another. A \<open>Reader\<close> holds the loop's local variables; \<open>rd_events\<close> are the operations of the batch
  still to run and \<open>rd_waiting\<close> the connections the current publish still waits for.
\<close>

section \<open>Limits, keepalive, buffer size\<close>

definition limits_of :: "Config \<Rightarrow> Limits" where
  "limits_of cfg =
     \<lparr>max_control_line = unat (cfg_max_control_line cfg), max_payload = unat (cfg_max_payload cfg)\<rparr>"

text \<open>The first probe, in nanoseconds: milliseconds of jitter on top of the shorter interval.\<close>

definition keepalive_first :: "Rng \<Rightarrow> nat \<Rightarrow> nat" where
  "keepalive_first rng interval =
     (let cap = min FIRST_PING_INTERVAL interval;
          bound = max ((of_nat (cap div 10 ^ 6) :: u64) div 5) 1;
          jitter = unat (fst (below bound rng))
      in cap + jitter * 10 ^ 6)"

definition START_READ_BUF :: nat where "START_READ_BUF = 16 * 1024"
definition MAX_READ_BUF :: nat where "MAX_READ_BUF = 64 * 1024"
definition SHORTS_TO_SHRINK :: "32 word" where "SHORTS_TO_SHRINK = 2"

text \<open>The buffer size and the count of short reads, a \<^verbatim>\<open>u32\<close> that wraps, after a read of \<open>n\<close> bytes.\<close>

definition adapt :: "nat \<Rightarrow> nat \<times> 32 word \<Rightarrow> nat \<times> 32 word" where
  "adapt n cs =
     (case cs of (cap, short) \<Rightarrow>
        if n \<ge> cap then (min (cap * 2) MAX_READ_BUF, 0)
        else if n < cap div 2 then
          (let short' = short + 1 in
           if short' > SHORTS_TO_SHRINK \<and> cap > START_READ_BUF then (cap div 2, 0) else (cap, short'))
        else (cap, short))"

section \<open>The loop\<close>

record Reader =
  rd_cap :: nat
  rd_short :: "32 word"
  rd_buf :: bytes
  rd_parser :: State
  rd_interest :: Interest
  rd_events :: "Event list"
  rd_waiting :: "nat list"
  rd_done :: bool

definition reader_new :: Reader where
  "reader_new =
     \<lparr>rd_cap = START_READ_BUF, rd_short = 0, rd_buf = [], rd_parser = Line, rd_interest = interest_new,
      rd_events = [], rd_waiting = [], rd_done = False\<rparr>"

text \<open>The arm of the ticker: two unanswered probes end the connection.\<close>

definition on_tick :: "('ch, 'j) Deps \<Rightarrow> nat \<Rightarrow> Reader \<Rightarrow> 'ch World \<Rightarrow> Reader \<times> 'ch World" where
  "on_tick E c rd w =
     (if c_pings_out (w_conns w c) \<ge> MAX_PINGS_OUT then
        (rd\<lparr>rd_done := True\<rparr>,
         close c ''ended'' (close c ''stale connection'' (send E c (frame_err STALE_CONNECTION) w)))
      else (rd, send E c frame_ping (note_ping_sent c w)))"

text \<open>The debug form of an error, which ends up in the reason of a close.\<close>

definition debug_error :: "ProtoError \<Rightarrow> bytes" where
  "debug_error e =
     (case e of
        Fatal t \<Rightarrow> ''Fatal('' @ [CHR 0x22] @ t @ [CHR 0x22] @ '')''
      | Soft t \<Rightarrow> ''Soft('' @ [CHR 0x22] @ t @ [CHR 0x22] @ '')''
      | Silent \<Rightarrow> ''Silent'')"

text \<open>A read that returned bytes: adapt the buffer, parse the segment, keep the batch.\<close>

definition on_read :: "('ch, 'j) Deps \<Rightarrow> nat \<Rightarrow> bytes \<Rightarrow> Reader \<Rightarrow> 'ch World \<Rightarrow> Reader \<times> 'ch World" where
  "on_read E c bs rd w =
     (case adapt (length bs) (rd_cap rd, rd_short rd) of
        (cap, short) \<Rightarrow>
          (case feed_into (limits_of (w_cfg w)) (rd_parser rd) (rd_buf rd @ bs) [] of
             (st, buf, events, res) \<Rightarrow>
               let rd1 = rd\<lparr>rd_cap := cap, rd_short := short, rd_parser := st, rd_buf := buf\<rparr> in
               (case res of
                  Inl err \<Rightarrow>
                    let w1 = (case err_line err of Some text \<Rightarrow> send E c (frame_err text) w | None \<Rightarrow> w)
                    in if closes err
                       then (rd1\<lparr>rd_done := True\<rparr>,
                             close c ''ended'' (close c (''protocol error: '' @ debug_error err) w1))
                       else (rd1, w1)
                | Inr _ \<Rightarrow> (rd1\<lparr>rd_events := events\<rparr>, w))))"

text \<open>The end of the stream, a read error, and a wake-up by a foreign close.\<close>

definition on_eof :: "nat \<Rightarrow> Reader \<Rightarrow> 'ch World \<Rightarrow> Reader \<times> 'ch World" where
  "on_eof c rd w = (rd\<lparr>rd_done := True\<rparr>, close c ''ended'' (close c ''client closed'' w))"

definition on_error :: "nat \<Rightarrow> bytes \<Rightarrow> Reader \<Rightarrow> 'ch World \<Rightarrow> Reader \<times> 'ch World" where
  "on_error c e rd w = (rd\<lparr>rd_done := True\<rparr>, close c ''ended'' (close c (''read error: '' @ e) w))"

definition on_wake :: "nat \<Rightarrow> Reader \<Rightarrow> 'ch World \<Rightarrow> Reader \<times> 'ch World" where
  "on_wake c rd w = (rd\<lparr>rd_done := True\<rparr>, close c ''ended'' w)"

text \<open>One operation of the batch.\<close>

definition on_event :: "('ch, 'j) Deps \<Rightarrow> nat \<Rightarrow> Reader \<Rightarrow> 'ch World \<Rightarrow> Reader \<times> 'ch World" where
  "on_event E c rd w =
     (case rd_events rd of
        [] \<Rightarrow> (rd, w)
      | ev # evs \<Rightarrow>
          (case handle E c ev (rd_interest rd) w of
             (ok, it, stall, w1) \<Rightarrow>
               if ok then (rd\<lparr>rd_events := evs, rd_interest := it, rd_waiting := stall\<rparr>, w1)
               else (rd\<lparr>rd_events := [], rd_interest := it, rd_done := True\<rparr>,
                     close c ''connection closed by protocol'' w1)))"

text \<open>
  What one reader may do next. Between two batches it stops if it sees the connection closed, but it
  may also not have seen it yet and take the next read, tick or error; while a batch runs, the
  operations follow one another, each after the waits of the one before.
\<close>

inductive reader_step :: "('ch, 'j) Deps \<Rightarrow> nat \<Rightarrow> Reader \<times> 'ch World \<Rightarrow> Reader \<times> 'ch World \<Rightarrow> bool"
  for E :: "('ch, 'j) Deps" and c :: nat where
  stop: "\<not> rd_done rd \<Longrightarrow> rd_events rd = [] \<Longrightarrow> rd_waiting rd = [] \<Longrightarrow> is_closed w c \<Longrightarrow>
    reader_step E c (rd, w) (on_wake c rd w)"
| tick: "\<not> rd_done rd \<Longrightarrow> rd_events rd = [] \<Longrightarrow> rd_waiting rd = [] \<Longrightarrow>
    reader_step E c (rd, w) (on_tick E c rd w)"
| got: "\<not> rd_done rd \<Longrightarrow> rd_events rd = [] \<Longrightarrow> rd_waiting rd = [] \<Longrightarrow> bs \<noteq> [] \<Longrightarrow>
    reader_step E c (rd, w) (on_read E c bs rd w)"
| eof: "\<not> rd_done rd \<Longrightarrow> rd_events rd = [] \<Longrightarrow> rd_waiting rd = [] \<Longrightarrow>
    reader_step E c (rd, w) (on_eof c rd w)"
| err: "\<not> rd_done rd \<Longrightarrow> rd_events rd = [] \<Longrightarrow> rd_waiting rd = [] \<Longrightarrow>
    reader_step E c (rd, w) (on_error c e rd w)"
| ev: "\<not> rd_done rd \<Longrightarrow> rd_events rd \<noteq> [] \<Longrightarrow> rd_waiting rd = [] \<Longrightarrow>
    reader_step E c (rd, w) (on_event E c rd w)"
| resume: "\<not> rd_done rd \<Longrightarrow> rd_waiting rd = d # ds \<Longrightarrow> wait_over w d \<Longrightarrow>
    reader_step E c (rd, w) (rd\<lparr>rd_waiting := ds\<rparr>, w)"

inductive_cases reader_stepE: "reader_step E c (rd, w) (rd', w')"

text \<open>The run of a whole batch when no wait interrupts it, for evaluation.\<close>

fun run_batch :: "('ch, 'j) Deps \<Rightarrow> nat \<Rightarrow> nat \<Rightarrow> Reader \<times> 'ch World \<Rightarrow> Reader \<times> 'ch World" where
  "run_batch E c 0 s = s"
| "run_batch E c (Suc n) s =
     (case s of (rd, w) \<Rightarrow>
        if rd_done rd \<or> rd_events rd = [] then (rd, w) else run_batch E c n (on_event E c rd w))"

section \<open>Lemmas\<close>

definition buffer_sizes :: "nat set" where
  "buffer_sizes = {16 * 1024, 32 * 1024, 64 * 1024}"

lemma adapt_sizes: "fst cs \<in> buffer_sizes \<Longrightarrow> fst (adapt n cs) \<in> buffer_sizes"
  by (cases cs) (auto simp: buffer_sizes_def adapt_def Let_def START_READ_BUF_def MAX_READ_BUF_def)

lemma fold_adapt_sizes: "fst cs \<in> buffer_sizes \<Longrightarrow> fst (fold adapt ns cs) \<in> buffer_sizes"
  by (induction ns arbitrary: cs) (simp_all add: adapt_sizes)

end
