(* ===== verification/Writer.thy ===== *)
theory Writer
  imports Delivery
begin

text \<open>
  The writer task of a connection (\<^verbatim>\<open>write_loop\<close> of \<^verbatim>\<open>crates/server/src/client.rs\<close>): it collects queued
  frames into a batch of buffers, offers the batch to the socket, and reports the bytes taken. A
  \<open>Writer\<close> holds the loop's local variables; \<open>wr_socket\<close> are the bytes the socket has taken so far.
  What the socket answers to an attempt (a byte count or an error), when the deadline expires and
  when a close wakes the task up are the inputs of the steps.
\<close>

section \<open>Batches\<close>

definition MAX_BATCH_BYTES :: nat where "MAX_BATCH_BYTES = 256 * 1024"
definition MAX_BATCH_PARTS :: nat where "MAX_BATCH_PARTS = 1000"
definition STACK_IOV :: nat where "STACK_IOV = 32"

definition frame_len :: "Frame \<Rightarrow> nat" where "frame_len f = length f"

definition write_into :: "Frame \<Rightarrow> bytes list \<Rightarrow> bytes list" where
  "write_into f dst = (if f \<noteq> [] then dst @ [f] else dst)"

text \<open>The inner loop of \<^verbatim>\<open>try_recv\<close>, until nothing is queued or the batch is large enough.\<close>

partial_function (option) collect ::
    "('ch, 'j) Deps \<Rightarrow> 'ch \<Rightarrow> bytes list \<Rightarrow> nat \<Rightarrow> ('ch \<times> bytes list \<times> nat) option" where
  "collect E ch parts batch =
     (case ch_recv E ch of
        None \<Rightarrow> Some (ch, parts, batch)
      | Some (f, ch') \<Rightarrow>
          if length (write_into f parts) \<ge> MAX_BATCH_PARTS \<or> batch + frame_len f \<ge> MAX_BATCH_BYTES
          then Some (ch', write_into f parts, batch + frame_len f)
          else collect E ch' (write_into f parts) (batch + frame_len f))"

declare collect.simps [code]

section \<open>One attempt\<close>

datatype IoError = TimedOut | Interrupted | OtherError bytes

definition error_at_deadline :: IoError where "error_at_deadline = TimedOut"

text \<open>The buffers the socket is offered: none, the one, a prefix of a padded array, or all of them.\<close>

definition offered :: "bytes list \<Rightarrow> bytes list" where
  "offered parts =
     (let n = length parts in
      if n \<le> 1 then parts
      else if n \<le> STACK_IOV then
        take n (map (\<lambda>i. if i < length parts then parts ! i else []) [0..<STACK_IOV])
      else parts)"

text \<open>
  \<^verbatim>\<open>write_batch\<close>, given the socket's answer: the result and the buffers left in the list. A single
  buffer is taken out for the attempt; what is put back of it is what the socket did not take.
\<close>

definition write_batch :: "IoError + nat \<Rightarrow> bytes list \<Rightarrow> (IoError + nat) \<times> bytes list" where
  "write_batch r parts =
     (case parts of
        [] \<Rightarrow> (Inr 0, parts)
      | [buf] \<Rightarrow>
          (case r of
             Inr n \<Rightarrow> if n < length buf then (Inr n, [drop n buf]) else (Inr n, [])
           | Inl e \<Rightarrow> (Inl e, [buf]))
      | _ \<Rightarrow> (r, parts))"

text \<open>The attempt is cancelled while the socket makes it wait: the buffer taken out is dropped with it.\<close>

definition write_cancelled :: "bytes list \<Rightarrow> bytes list" where
  "write_cancelled parts = (case parts of [buf] \<Rightarrow> [] | _ \<Rightarrow> parts)"

text \<open>What an answer means for the socket: it can only take bytes it was offered.\<close>

definition answer_ok :: "IoError + nat \<Rightarrow> bytes list \<Rightarrow> bool" where
  "answer_ok r parts = (case r of Inr n \<Rightarrow> n \<le> length (concat (offered parts)) | Inl e \<Rightarrow> True)"

definition socket_took :: "IoError + nat \<Rightarrow> bytes list \<Rightarrow> bytes" where
  "socket_took r parts = (case r of Inr n \<Rightarrow> take n (concat (offered parts)) | Inl e \<Rightarrow> [])"

fun consume :: "bytes list \<Rightarrow> nat \<Rightarrow> bytes list" where
  "consume parts 0 = parts"
| "consume [] left = []"
| "consume (front # parts) left =
     (if length front \<le> left then consume parts (left - length front) else drop left front # parts)"

section \<open>The loop\<close>

record Writer =
  wr_parts :: "bytes list"
  wr_batch :: nat
  wr_socket :: bytes
  wr_seen :: nat
  wr_done :: bool

definition writer_new :: Writer where
  "writer_new = \<lparr>wr_parts = [], wr_batch = 0, wr_socket = [], wr_seen = 0, wr_done = False\<rparr>"

definition hard_closed :: "'ch World \<Rightarrow> nat \<Rightarrow> bool" where
  "hard_closed w c = c_hard (w_conns w c)"

definition report :: "nat \<Rightarrow> nat \<Rightarrow> 'ch World \<Rightarrow> 'ch World" where
  "report c n w = upd_conn c (\<lambda>k. k\<lparr>c_out := drained (of_nat n) (c_out k)\<rparr>) w"

text \<open>Returning from the task drops the receiving half of the channel.\<close>

definition writer_return :: "('ch, 'j) Deps \<Rightarrow> nat \<Rightarrow> Writer \<Rightarrow> 'ch World \<Rightarrow> Writer \<times> 'ch World" where
  "writer_return E c wr w =
     (wr\<lparr>wr_done := True\<rparr>, upd_conn c (\<lambda>k. k\<lparr>c_out := (c_out k)\<lparr>ob_chan := ch_drop E (ob_chan (c_out k))\<rparr>\<rparr>) w)"

text \<open>Idle: a frame is there, and as many more as fit the batch.\<close>

definition writer_recv :: "('ch, 'j) Deps \<Rightarrow> nat \<Rightarrow> Writer \<Rightarrow> 'ch World \<Rightarrow> (Writer \<times> 'ch World) option" where
  "writer_recv E c wr w =
     (case ch_recv E (ob_chan (c_out (w_conns w c))) of
        None \<Rightarrow> Some (wr, w)
      | Some (f, ch) \<Rightarrow>
          map_option (\<lambda>(ch', parts, batch).
              (wr\<lparr>wr_parts := parts, wr_batch := batch\<rparr>,
               upd_conn c (\<lambda>k. k\<lparr>c_out := (c_out k)\<lparr>ob_chan := ch'\<rparr>\<rparr>) w))
            (collect E ch (write_into f (wr_parts wr)) (wr_batch wr + frame_len f)))"

text \<open>Idle: the sender is gone and nothing is queued.\<close>

definition writer_finished :: "('ch, 'j) Deps \<Rightarrow> nat \<Rightarrow> Writer \<Rightarrow> 'ch World \<Rightarrow> Writer \<times> 'ch World" where
  "writer_finished E c wr w = writer_return E c wr (close c ''written'' w)"

text \<open>Idle, woken by a close.\<close>

definition writer_wake_idle :: "('ch, 'j) Deps \<Rightarrow> nat \<Rightarrow> Writer \<Rightarrow> 'ch World \<Rightarrow> Writer \<times> 'ch World" where
  "writer_wake_idle E c wr w =
     (let wr1 = wr\<lparr>wr_seen := c_wakes (w_conns w c)\<rparr> in
      if hard_closed w c then writer_return E c wr1 w else (wr1, w))"

text \<open>Writing: the check before an attempt, the answer to it, its cancellation by a close.\<close>

definition writer_stop :: "('ch, 'j) Deps \<Rightarrow> nat \<Rightarrow> Writer \<Rightarrow> 'ch World \<Rightarrow> Writer \<times> 'ch World" where
  "writer_stop E c wr w = writer_return E c wr (report c (wr_batch wr) w)"

definition writer_answer :: "('ch, 'j) Deps \<Rightarrow> nat \<Rightarrow> IoError + nat \<Rightarrow> Writer \<Rightarrow> 'ch World \<Rightarrow> Writer \<times> 'ch World" where
  "writer_answer E c written wr w =
     (case written of
        Inr n \<Rightarrow>
          if n = 0 then
            writer_return E c wr (close c ''socket stopped accepting data'' (report c (wr_batch wr) w))
          else
            let parts = consume (wr_parts wr) n; batch = wr_batch wr - n
            in (wr\<lparr>wr_parts := if batch = 0 then [] else parts, wr_batch := batch\<rparr>, report c n w)
      | Inl TimedOut \<Rightarrow>
          writer_return E c wr (close_now c ''write deadline exceeded'' (report c (wr_batch wr) w))
      | Inl Interrupted \<Rightarrow> (wr, w)
      | Inl (OtherError e) \<Rightarrow>
          writer_return E c wr (close c (''write error: '' @ e) (report c (wr_batch wr) w)))"

definition writer_write :: "('ch, 'j) Deps \<Rightarrow> nat \<Rightarrow> IoError + nat \<Rightarrow> Writer \<Rightarrow> 'ch World \<Rightarrow> Writer \<times> 'ch World" where
  "writer_write E c r wr w =
     (if is_closed w c \<and> hard_closed w c then writer_stop E c wr w
      else case write_batch r (wr_parts wr) of
        (written, parts) \<Rightarrow>
          writer_answer E c written
            (wr\<lparr>wr_parts := parts, wr_socket := wr_socket wr @ socket_took r (wr_parts wr)\<rparr>) w)"

definition writer_timeout :: "('ch, 'j) Deps \<Rightarrow> nat \<Rightarrow> Writer \<Rightarrow> 'ch World \<Rightarrow> Writer \<times> 'ch World" where
  "writer_timeout E c wr w =
     (if is_closed w c \<and> hard_closed w c then writer_stop E c wr w
      else writer_answer E c (Inl error_at_deadline) (wr\<lparr>wr_parts := write_cancelled (wr_parts wr)\<rparr>) w)"

definition writer_wake :: "('ch, 'j) Deps \<Rightarrow> nat \<Rightarrow> Writer \<Rightarrow> 'ch World \<Rightarrow> Writer \<times> 'ch World" where
  "writer_wake E c wr w =
     (let wr1 = wr\<lparr>wr_parts := write_cancelled (wr_parts wr), wr_seen := c_wakes (w_conns w c)\<rparr> in
      if hard_closed w c then writer_stop E c wr1 w else (wr1, w))"

inductive writer_step :: "('ch, 'j) Deps \<Rightarrow> nat \<Rightarrow> Writer \<times> 'ch World \<Rightarrow> Writer \<times> 'ch World \<Rightarrow> bool"
  for E :: "('ch, 'j) Deps" and c :: nat where
  received: "\<not> wr_done wr \<Longrightarrow> wr_batch wr = 0 \<Longrightarrow> writer_recv E c wr w = Some s \<Longrightarrow> writer_step E c (wr, w) s"
| finished: "\<not> wr_done wr \<Longrightarrow> wr_batch wr = 0 \<Longrightarrow> ch_recv E (ob_chan (c_out (w_conns w c))) = None \<Longrightarrow>
    ob_tx (c_out (w_conns w c)) = None \<Longrightarrow> writer_step E c (wr, w) (writer_finished E c wr w)"
| woken_idle: "\<not> wr_done wr \<Longrightarrow> wr_batch wr = 0 \<Longrightarrow> wr_seen wr < c_wakes (w_conns w c) \<Longrightarrow>
    writer_step E c (wr, w) (writer_wake_idle E c wr w)"
| wrote: "\<not> wr_done wr \<Longrightarrow> wr_batch wr > 0 \<Longrightarrow> answer_ok r (wr_parts wr) \<Longrightarrow>
    writer_step E c (wr, w) (writer_write E c r wr w)"
| timed_out: "\<not> wr_done wr \<Longrightarrow> wr_batch wr > 0 \<Longrightarrow> writer_step E c (wr, w) (writer_timeout E c wr w)"
| woken: "\<not> wr_done wr \<Longrightarrow> wr_batch wr > 0 \<Longrightarrow> wr_seen wr < c_wakes (w_conns w c) \<Longrightarrow>
    writer_step E c (wr, w) (writer_wake E c wr w)"

inductive_cases writer_stepE: "writer_step E c (wr, w) (wr', w')"

section \<open>Batches, lemmas\<close>

lemma offered_id [simp]: "offered parts = parts"
proof -
  have "take n (map (\<lambda>i. if i < n then parts ! i else []) [0..<STACK_IOV]) = parts"
    if "length parts = n" "n \<le> STACK_IOV" for n
    using that by (auto intro!: nth_equalityI)
  then show ?thesis by (simp add: offered_def Let_def)
qed

lemma concat_consume: "concat (consume parts n) = drop n (concat parts)"
  by (induction parts n rule: consume.induct) auto

lemma consume_Nil [simp]: "consume [] n = []"
  by (cases n) simp_all

lemma concat_write_into [simp]: "concat (write_into f parts) = concat parts @ f"
  by (simp add: write_into_def)

lemma write_into_length: "length (write_into f parts) \<le> Suc (length parts)"
  by (simp add: write_into_def)

lemma write_into_nonempty: "[] \<notin> set parts \<Longrightarrow> [] \<notin> set (write_into f parts)"
  by (auto simp: write_into_def)

text \<open>
  Collecting ends, and moves a prefix \<open>fs\<close> of the queue to the batch. \<open>[] \<notin> set parts\<close> holds
  throughout: an empty buffer in the list would be offered for ever.
\<close>

lemma collect_spec:
  assumes "deps_ok E"
  shows "\<exists>ch' parts' batch' fs. collect E ch parts batch = Some (ch', parts', batch') \<and>
    ch_frames E ch = fs @ ch_frames E ch' \<and> ch_live E ch' = ch_live E ch \<and>
    concat parts' = concat parts @ concat fs \<and> batch' = batch + frames_bytes fs \<and>
    ([] \<notin> set parts \<longrightarrow> [] \<notin> set parts') \<and>
    (length parts < MAX_BATCH_PARTS \<longrightarrow> length parts' \<le> MAX_BATCH_PARTS)"
proof (induction "length (ch_frames E ch)" arbitrary: ch parts batch rule: less_induct)
  case less
  show ?case
  proof (cases "ch_recv E ch")
    case None
    then show ?thesis by (subst collect.simps) (auto intro: exI [of _ "[]"])
  next
    case (Some r)
    obtain f ch1 where r: "ch_recv E ch = Some (f, ch1)" using Some by (cases r) auto
    note fr = deps_okD(9,10) [OF assms r]
    have w: "length (write_into f parts) \<le> MAX_BATCH_PARTS" if "length parts < MAX_BATCH_PARTS"
      using that write_into_length [of f parts] by simp
    show ?thesis
    proof (cases "length (write_into f parts) \<ge> MAX_BATCH_PARTS \<or> batch + frame_len f \<ge> MAX_BATCH_BYTES")
      case True
      then show ?thesis
        using r fr w write_into_nonempty [of parts f]
        by (subst collect.simps) (auto intro!: exI [of _ "[f]"] simp: frame_len_def)
    next
      case False
      then have eq: "collect E ch parts batch = collect E ch1 (write_into f parts) (batch + frame_len f)"
        by (subst collect.simps) (simp add: r)
      have "length (ch_frames E ch1) < length (ch_frames E ch)" using fr by simp
      from less [OF this, of "write_into f parts" "batch + frame_len f"]
      obtain ch' parts' batch' fs where
        "collect E ch1 (write_into f parts) (batch + frame_len f) = Some (ch', parts', batch')"
        "ch_frames E ch1 = fs @ ch_frames E ch'" "ch_live E ch' = ch_live E ch1"
        "concat parts' = concat (write_into f parts) @ concat fs" "batch' = batch + frame_len f + frames_bytes fs"
        "[] \<notin> set (write_into f parts) \<longrightarrow> [] \<notin> set parts'"
        "length (write_into f parts) < MAX_BATCH_PARTS \<longrightarrow> length parts' \<le> MAX_BATCH_PARTS"
        by blast
      then show ?thesis
        using eq fr False write_into_nonempty [of parts f]
        by (intro exI [of _ ch'] exI [of _ parts'] exI [of _ batch'] exI [of _ "f # fs"])
          (auto simp: frame_len_def not_le)
    qed
  qed
qed

section \<open>The byte stream\<close>

text \<open>Everything accepted for a connection: taken by the socket, in the batch, or still queued.\<close>

definition stream :: "('ch, 'j) Deps \<Rightarrow> nat \<Rightarrow> Writer \<Rightarrow> 'ch World \<Rightarrow> bytes" where
  "stream E c wr w = wr_socket wr @ concat (wr_parts wr) @ concat (queued E (c_out (w_conns w c)))"

text \<open>A buffer that is alone in the batch is written whole or not at all.\<close>

definition whole :: "Writer \<Rightarrow> Writer \<Rightarrow> bool" where
  "whole wr wr' \<longleftrightarrow>
     (length (wr_parts wr) = 1 \<longrightarrow>
        wr_done wr' \<or> wr_parts wr' = wr_parts wr \<or> wr_socket wr' = wr_socket wr @ concat (wr_parts wr))"

text \<open>
  The producers and the writer of one queue, in any interleaving: frames are queued (\<open>fs\<close> collects the
  accepted ones), anything that leaves the channel alone happens, or the writer makes a step.
\<close>

inductive pipe :: "('ch, 'j) Deps \<Rightarrow> nat \<Rightarrow> Frame list \<Rightarrow> Writer \<times> 'ch World \<Rightarrow> Writer \<times> 'ch World \<Rightarrow> bool"
  for E :: "('ch, 'j) Deps" and c :: nat where
  start: "pipe E c [] s s"
| queue: "pipe E c fs s (wr, w) \<Longrightarrow> ob_tx (c_out (w_conns w c)) = Some a \<Longrightarrow>
    queue_with E build (c_out (w_conns w c)) = (r, ob) \<Longrightarrow>
    pipe E c (fs @ (if accepted r then [fst (build a)] else [])) s (wr, upd_conn c (\<lambda>k. k\<lparr>c_out := ob\<rparr>) w)"
| aside: "pipe E c fs s (wr, w) \<Longrightarrow> ob_chan (c_out (w_conns w' c)) = ob_chan (c_out (w_conns w c)) \<Longrightarrow>
    pipe E c fs s (wr, w')"
| writer: "pipe E c fs s (wr, w) \<Longrightarrow> writer_step E c (wr, w) (wr', w') \<Longrightarrow> whole wr wr' \<Longrightarrow>
    pipe E c fs s (wr', w')"

definition writer_ok :: "Writer \<Rightarrow> bool" where
  "writer_ok wr \<longleftrightarrow> wr_done wr \<or> wr_batch wr = length (concat (wr_parts wr)) \<and> [] \<notin> set (wr_parts wr)"

lemma conns_upd [simp]: "w_conns (upd_conn c f w) = (w_conns w)(c := f (w_conns w c))"
  by (simp add: upd_conn_def)

lemma chan_report [simp]: "ob_chan (c_out (w_conns (report d n w) c)) = ob_chan (c_out (w_conns w c))"
  by (simp add: report_def drained_def Let_def)

lemma chan_finish [simp]: "ob_chan (c_out (w_conns (finish d reason hard w) c)) = ob_chan (c_out (w_conns w c))"
  by (simp add: finish_def Let_def no_more_writes_def)

lemmas chan_close [simp] = chan_finish [folded close_def] chan_finish [folded close_now_def]

lemma push_queued:
  assumes "deps_ok E" "push E f ob = (r, ob')"
  shows "queued E ob' = queued E ob @ (if accepted r then [f] else [])" "ch_live E (ob_chan ob') = ch_live E (ob_chan ob)"
    "accepted r \<Longrightarrow> ch_live E (ob_chan ob)"
  using assms(2) deps_okD(5-7) [OF assms(1), of f "ob_chan ob"]
  by (auto simp: push_def Let_def accepted_def queued_def split: if_splits option.splits)

lemma queue_with_queued:
  assumes "deps_ok E" "ob_tx ob = Some a" "queue_with E build ob = (r, ob')"
  shows "queued E ob' = queued E ob @ (if accepted r then [fst (build a)] else [])"
    "ch_live E (ob_chan ob') = ch_live E (ob_chan ob)" "accepted r \<Longrightarrow> ch_live E (ob_chan ob)"
  using assms(2,3) push_queued [OF assms(1), of "fst (build a)" "ob\<lparr>ob_tx := Some (snd (build a))\<rparr>" r ob']
  by (auto simp: queue_with_def queued_def split: prod.splits)

lemma consume_nonempty: "[] \<notin> set parts \<Longrightarrow> [] \<notin> set (consume parts n)"
  by (induction parts n rule: consume.induct) auto

text \<open>What a step may do to the stream: keep it, or end the task and give up a tail of it.\<close>

definition step_good :: "('ch, 'j) Deps \<Rightarrow> nat \<Rightarrow> Writer \<Rightarrow> 'ch World \<Rightarrow> Writer \<times> 'ch World \<Rightarrow> bool" where
  "step_good E c wr w s' \<longleftrightarrow>
     (case s' of (wr', w') \<Rightarrow>
        writer_ok wr' \<and> prefix (stream E c wr' w') (stream E c wr w) \<and>
        (if wr_done wr' then \<not> ch_live E (ob_chan (c_out (w_conns w' c))) else stream E c wr' w' = stream E c wr w))"

lemma step_good_return:
  assumes "deps_ok E" "prefix (concat (wr_parts wr1)) (concat (wr_parts wr))" "wr_socket wr1 = wr_socket wr"
  shows "step_good E c wr w (writer_return E c wr1 w1)"
  using assms(2,3) deps_okD(11,12) [OF assms(1)]
  by (auto simp: step_good_def writer_return_def writer_ok_def stream_def queued_def prefix_def)

lemma step_good_same:
  assumes "writer_ok wr1" "\<not> wr_done wr1" "wr_socket wr1 @ concat (wr_parts wr1) = wr_socket wr @ concat (wr_parts wr)"
    and "ob_chan (c_out (w_conns w1 c)) = ob_chan (c_out (w_conns w c))"
  shows "step_good E c wr w (wr1, w1)"
proof -
  have "stream E c wr1 w1 = stream E c wr w"
    using assms(3,4) by (metis append_assoc queued_def stream_def)
  with assms(1,2) show ?thesis by (simp add: step_good_def)
qed

lemma step_good_recv:
  assumes "deps_ok E" "writer_ok wr" "\<not> wr_done wr" "writer_recv E c wr w = Some s'"
  shows "step_good E c wr w s'"
proof (cases "ch_recv E (ob_chan (c_out (w_conns w c)))")
  case None
  with assms(2-4) show ?thesis by (auto simp: writer_recv_def intro!: step_good_same)
next
  case (Some r)
  obtain f ch where r: "ch_recv E (ob_chan (c_out (w_conns w c))) = Some (f, ch)" using Some by (cases r) auto
  from collect_spec [OF assms(1), of ch "write_into f (wr_parts wr)" "wr_batch wr + frame_len f"]
  obtain ch' parts batch fs where
    k: "collect E ch (write_into f (wr_parts wr)) (wr_batch wr + frame_len f) = Some (ch', parts, batch)"
      "ch_frames E ch = fs @ ch_frames E ch'"
      "concat parts = concat (write_into f (wr_parts wr)) @ concat fs"
      "batch = wr_batch wr + frame_len f + frames_bytes fs"
      "[] \<notin> set (write_into f (wr_parts wr)) \<longrightarrow> [] \<notin> set parts" by blast
  have s': "s' = (wr\<lparr>wr_parts := parts, wr_batch := batch\<rparr>,
      upd_conn c (\<lambda>k. k\<lparr>c_out := (c_out k)\<lparr>ob_chan := ch'\<rparr>\<rparr>) w)"
    using assms(4) r k(1) by (simp add: writer_recv_def)
  have "writer_ok (wr\<lparr>wr_parts := parts, wr_batch := batch\<rparr>)"
    using assms(2,3) k(3-5) write_into_nonempty [of "wr_parts wr" f]
    by (simp add: writer_ok_def frame_len_def frames_bytes_def)
  then show ?thesis
    using assms(3) k(2,3) deps_okD(9) [OF assms(1) r] unfolding s'
    by (simp add: step_good_def stream_def queued_def)
qed

text \<open>An answer to an attempt that gives up, or takes nothing.\<close>

lemma step_good_refused:
  assumes "deps_ok E" "r = Inl e \<or> r = Inr 0" "prefix (concat (wr_parts wr1)) (concat (wr_parts wr))"
    and "e = Interrupted \<Longrightarrow> wr_parts wr1 = wr_parts wr" "wr_socket wr1 = wr_socket wr"
    and "wr_batch wr1 = wr_batch wr" "wr_done wr1 = wr_done wr" "writer_ok wr" "\<not> wr_done wr"
  shows "step_good E c wr w (writer_answer E c r wr1 w)"
proof (cases "r = Inl Interrupted")
  case True
  with assms(2,4-9) show ?thesis
    by (auto simp: writer_answer_def writer_ok_def intro!: step_good_same)
next
  case False
  then have "\<exists>w1. writer_answer E c r wr1 w = writer_return E c wr1 w1"
    using assms(2) by (cases e) (auto simp: writer_answer_def)
  with step_good_return [OF assms(1,3,5)] show ?thesis by auto
qed

lemma step_good_took:
  assumes "n > 0" "n \<le> length (concat (wr_parts wr))" "writer_ok wr" "\<not> wr_done wr"
    and "concat (consume (wr_parts wr1) n) = drop n (concat (wr_parts wr))" "[] \<notin> set (wr_parts wr1)"
    and "wr_socket wr1 = wr_socket wr @ take n (concat (wr_parts wr))"
    and "wr_batch wr1 = wr_batch wr" "wr_done wr1 = wr_done wr"
  shows "step_good E c wr w (writer_answer E c (Inr n) wr1 w)"
proof -
  let ?parts = "if wr_batch wr - n = 0 then [] else consume (wr_parts wr1) n"
  have b: "wr_batch wr = length (concat (wr_parts wr))" using assms(3,4) by (simp add: writer_ok_def)
  then have p: "concat ?parts = drop n (concat (wr_parts wr))" using assms(2,5) by auto
  have "writer_ok (wr1\<lparr>wr_parts := ?parts, wr_batch := wr_batch wr - n\<rparr>)"
    using p b consume_nonempty [OF assms(6), of n] by (simp add: writer_ok_def)
  moreover have "writer_answer E c (Inr n) wr1 w =
      (wr1\<lparr>wr_parts := ?parts, wr_batch := wr_batch wr - n\<rparr>, report c n w)"
    using assms(1,8) by (simp add: writer_answer_def Let_def)
  ultimately show ?thesis using p assms(4,7,9) by (auto intro!: step_good_same)
qed

abbreviation attempted :: "IoError + nat \<Rightarrow> Writer \<Rightarrow> bytes list \<Rightarrow> Writer" where
  "attempted r wr parts \<equiv> wr\<lparr>wr_parts := parts, wr_socket := wr_socket wr @ socket_took r (wr_parts wr)\<rparr>"

lemma refused_cases:
  obtains n where "r = Inr n" "n > (0 :: nat)" | e :: IoError where "r = Inl e \<or> r = Inr 0"
  by (cases r) auto

lemma step_good_many:
  assumes "deps_ok E" "writer_ok wr" "\<not> wr_done wr" "answer_ok r (wr_parts wr)"
  shows "step_good E c wr w (writer_answer E c r (attempted r wr (wr_parts wr)) w)"
proof (cases rule: refused_cases [of r])
  case (1 n)
  with assms(4) have "n \<le> length (concat (wr_parts wr))" by (simp add: answer_ok_def)
  moreover have "[] \<notin> set (wr_parts wr)" using assms(2,3) by (simp add: writer_ok_def)
  ultimately show ?thesis
    using 1 step_good_took [OF 1(2) _ assms(2,3), of "attempted r wr (wr_parts wr)" E c w]
    by (simp add: concat_consume socket_took_def)
next
  case (2 e)
  with assms(2,3) show ?thesis
    using step_good_refused [OF assms(1) 2, of "attempted r wr (wr_parts wr)" wr c w] by (auto simp: socket_took_def)
qed

lemma step_good_single:
  assumes "deps_ok E" "writer_ok wr" "\<not> wr_done wr" "answer_ok r (wr_parts wr)" "wr_parts wr = [buf]"
    and "writer_answer E c (fst (write_batch r [buf])) (attempted r wr (snd (write_batch r [buf]))) w = (wr', w')"
    and "whole wr wr'"
  shows "step_good E c wr w (wr', w')"
proof (cases rule: refused_cases [of r])
  case (1 n)
  have len: "wr_batch wr = length buf" using assms(2,3,5) by (simp add: writer_ok_def)
  from 1 assms(4,5) have le: "n \<le> length buf" by (simp add: answer_ok_def)
  show ?thesis
  proof (cases "n < length buf")
    case True
    then have "wr' = (attempted r wr [drop n buf])\<lparr>wr_parts := consume [drop n buf] n, wr_batch := length buf - n\<rparr>"
      using assms(6) 1 len by (simp add: write_batch_def writer_answer_def Let_def)
    then have "concat (wr_parts wr') = drop n (drop n buf)" "wr_socket wr' = wr_socket wr @ take n buf" "\<not> wr_done wr'"
      using 1 assms(3,5) concat_consume [of "[drop n buf]" n] by (auto simp: socket_took_def)
    moreover have "drop n (drop n buf) \<noteq> buf" "take n buf \<noteq> buf"
      using True 1 by (metis add_is_0 drop_drop length_drop diff_less gr_zeroI less_irrefl_nat not_less0)
        (use True in \<open>metis length_take min.absorb4 nat_less_le\<close>)
    ultimately have "wr_parts wr' \<noteq> [buf]" "wr_socket wr' \<noteq> wr_socket wr @ buf" by auto
    with \<open>\<not> wr_done wr'\<close> assms(5,7) show ?thesis by (simp add: whole_def)
  next
    case False
    with le have n: "n = length buf" by simp
    with 1 have "write_batch r [buf] = (r, [])" by (simp add: write_batch_def)
    then show ?thesis
      using 1 n assms(5) step_good_took [OF 1(2) _ assms(2,3), of "attempted r wr []" E c w]
      unfolding assms(6) [symmetric] by (simp add: socket_took_def)
  qed
next
  case (2 e)
  have "buf \<noteq> []" using assms(2,3,5) by (auto simp: writer_ok_def)
  with 2 have "write_batch r [buf] = (r, [buf])" by (auto simp: write_batch_def)
  then show ?thesis
    using assms(2,3,5) 2 step_good_refused [OF assms(1) 2, of "attempted r wr [buf]" wr c w]
    unfolding assms(6) [symmetric] by (auto simp: socket_took_def)
qed

lemma step_good_write:
  assumes "deps_ok E" "writer_ok wr" "\<not> wr_done wr" "wr_batch wr > 0" "answer_ok r (wr_parts wr)"
    and "writer_write E c r wr w = (wr', w')" "whole wr wr'"
  shows "step_good E c wr w (wr', w')"
proof (cases "is_closed w c \<and> hard_closed w c")
  case True
  then show ?thesis
    using step_good_return [OF assms(1), of wr wr c w "report c (wr_batch wr) w"]
    unfolding assms(6) [symmetric] by (simp add: writer_write_def writer_stop_def)
next
  case False
  then have step: "writer_answer E c (fst (write_batch r (wr_parts wr)))
      (attempted r wr (snd (write_batch r (wr_parts wr)))) w = (wr', w')"
    using assms(6) unfolding writer_write_def if_not_P [OF False] by (simp add: case_prod_beta)
  show ?thesis
  proof (cases "length (wr_parts wr) = 1")
    case True
    then obtain buf where "wr_parts wr = [buf]" by (auto simp: length_Suc_conv)
    with step_good_single [OF assms(1-3,5) this _ assms(7)] step show ?thesis by simp
  next
    case False
    have "wr_parts wr \<noteq> []" using assms(2-4) by (auto simp: writer_ok_def)
    with False have "write_batch r (wr_parts wr) = (r, wr_parts wr)"
      by (auto simp: write_batch_def split: list.split)
    with step step_good_many [OF assms(1-3,5), of c w] show ?thesis by simp
  qed
qed

lemma writer_step_good:
  assumes "deps_ok E" "writer_step E c (wr, w) (wr', w')" "whole wr wr'" "writer_ok wr"
  shows "step_good E c wr w (wr', w')"
proof (rule writer_stepE [OF assms(2)], goal_cases)
  case 1
  show ?thesis by (rule step_good_recv [OF assms(1,4) 1(1,3)])
next
  case 2
  show ?thesis unfolding 2(1) writer_finished_def by (intro step_good_return [OF assms(1)]) simp_all
next
  case 3
  show ?thesis
    using assms(4) 3(2) unfolding 3(1) writer_wake_idle_def Let_def
    by (auto intro!: step_good_return [OF assms(1)] step_good_same simp: writer_ok_def)
next
  case (4 r)
  show ?thesis by (rule step_good_write [OF assms(1,4) 4(2-4) 4(1) [symmetric] assms(3)])
next
  case 5
  have "prefix (concat (write_cancelled (wr_parts wr))) (concat (wr_parts wr))"
    by (auto simp: write_cancelled_def split: list.split)
  then show ?thesis
    using assms(4) 5(2) unfolding 5(1) writer_timeout_def writer_stop_def
    by (auto intro!: step_good_return [OF assms(1)] step_good_refused [OF assms(1)] simp: error_at_deadline_def)
next
  case 6
  have pre: "prefix (concat (write_cancelled (wr_parts wr))) (concat (wr_parts wr))"
    by (auto simp: write_cancelled_def split: list.split)
  show ?thesis
  proof (cases "hard_closed w c")
    case True
    with pre show ?thesis
      unfolding 6(1) writer_wake_def Let_def writer_stop_def by (auto intro!: step_good_return [OF assms(1)])
  next
    case False
    then have eq: "wr' = wr\<lparr>wr_parts := write_cancelled (wr_parts wr), wr_seen := c_wakes (w_conns w c)\<rparr>" "w' = w"
      using 6(1) by (simp_all add: writer_wake_def Let_def)
    have "write_cancelled (wr_parts wr) = wr_parts wr"
      using assms(3,4) 6(2,3) unfolding eq(1)
      by (auto simp: whole_def writer_ok_def write_cancelled_def split: list.splits)
    then show ?thesis using assms(4) 6(2) unfolding eq by (auto intro!: step_good_same simp: writer_ok_def)
  qed
qed

text \<open>The invariant of the pipe: nothing is lost, doubled or reordered while the writer runs.\<close>

definition pipe_inv :: "('ch, 'j) Deps \<Rightarrow> nat \<Rightarrow> bytes \<Rightarrow> Writer \<Rightarrow> 'ch World \<Rightarrow> bool" where
  "pipe_inv E c sofar wr w \<longleftrightarrow>
     writer_ok wr \<and> prefix (stream E c wr w) sofar \<and>
     (if wr_done wr then \<not> ch_live E (ob_chan (c_out (w_conns w c))) else stream E c wr w = sofar)"

lemma pipe_inv_queue:
  assumes "deps_ok E" "pipe_inv E c sofar wr w" "ob_tx (c_out (w_conns w c)) = Some a"
    and "queue_with E build (c_out (w_conns w c)) = (r, ob)"
  shows "pipe_inv E c (sofar @ concat (if accepted r then [fst (build a)] else [])) wr
    (upd_conn c (\<lambda>k. k\<lparr>c_out := ob\<rparr>) w)"
proof -
  note q = queue_with_queued [OF assms(1,3,4)]
  have "stream E c wr (upd_conn c (\<lambda>k. k\<lparr>c_out := ob\<rparr>) w) =
      stream E c wr w @ concat (if accepted r then [fst (build a)] else [])"
    using q(1) by (simp add: stream_def)
  moreover have "\<not> accepted r" if "wr_done wr" using assms(2) that q(3) by (auto simp: pipe_inv_def)
  ultimately show ?thesis using assms(2) q(2) by (auto simp: pipe_inv_def)
qed

lemma pipe_inv_writer:
  assumes "deps_ok E" "pipe_inv E c sofar wr w" "writer_step E c (wr, w) (wr', w')" "whole wr wr'"
  shows "pipe_inv E c sofar wr' w'"
proof -
  have nd: "\<not> wr_done wr" using assms(3) by (auto elim: writer_stepE)
  have "step_good E c wr w (wr', w')" using writer_step_good assms by (auto simp: pipe_inv_def)
  with assms(2) nd show ?thesis by (auto simp: step_good_def pipe_inv_def)
qed

lemma pipe_inv:
  assumes "deps_ok E" "pipe E c fs (wr, w) (wr', w')" "pipe_inv E c sofar wr w"
  shows "pipe_inv E c (sofar @ concat fs) wr' w'"
  using assms(2)
proof (induction "(wr, w)" "(wr', w')" arbitrary: wr' w' rule: pipe.induct)
  case start
  with assms(3) show ?case by simp
next
  case (queue fs wr1 w1 a build r ob)
  from pipe_inv_queue [OF assms(1) queue.hyps(2,3,4)] show ?case by simp
next
  case (aside fs wr1 w1 w')
  then have "stream E c wr1 w' = stream E c wr1 w1" by (simp add: stream_def queued_def)
  with aside show ?case by (simp add: pipe_inv_def)
next
  case (writer fs wr1 w1 wr' w')
  from pipe_inv_writer [OF assms(1) writer.hyps(2-4)] show ?case .
qed

section \<open>A socket that takes the data\<close>

text \<open>
  \<open>sock\<close> says how many bytes of a batch the socket takes; \<open>serve\<close> repeats the attempts until the batch
  is written. A willing socket takes at least a byte every time, and a lone buffer whole.
\<close>

definition willing :: "(bytes list \<Rightarrow> nat) \<Rightarrow> bool" where
  "willing sock \<longleftrightarrow>
     (\<forall>parts. concat parts \<noteq> [] \<longrightarrow> 0 < sock parts \<and> sock parts \<le> length (concat parts)) \<and>
     (\<forall>buf. sock [buf] = length buf)"

fun serve :: "('ch, 'j) Deps \<Rightarrow> nat \<Rightarrow> (bytes list \<Rightarrow> nat) \<Rightarrow> nat \<Rightarrow> Writer \<times> 'ch World \<Rightarrow> Writer \<times> 'ch World" where
  "serve E c sock 0 s = s"
| "serve E c sock (Suc n) s =
     (case s of (wr, w) \<Rightarrow>
        if wr_done wr \<or> wr_batch wr = 0 then (wr, w)
        else serve E c sock n (writer_write E c (Inr (sock (wr_parts wr))) wr w))"

lemma serve_step:
  assumes "willing sock" "writer_ok wr" "\<not> wr_done wr" "wr_batch wr > 0" "\<not> (is_closed w c \<and> hard_closed w c)"
    and "outbox_ok E (wr_batch wr) (c_out (w_conns w c))"
  defines "n \<equiv> sock (wr_parts wr)"
  shows "\<exists>wr'. writer_write E c (Inr n) wr w = (wr', report c n w) \<and> writer_ok wr' \<and> \<not> wr_done wr' \<and>
    wr_batch wr' < wr_batch wr \<and> wr_socket wr' @ concat (wr_parts wr') = wr_socket wr @ concat (wr_parts wr) \<and>
    outbox_ok E (wr_batch wr') (c_out (w_conns (report c n w) c))"
proof -
  have b: "wr_batch wr = length (concat (wr_parts wr))" "[] \<notin> set (wr_parts wr)"
    using assms(2,3) by (auto simp: writer_ok_def)
  have "concat (wr_parts wr) \<noteq> []" using b(1) assms(4) by auto
  then have n: "0 < n" "n \<le> wr_batch wr" using assms(1) b(1) by (auto simp: willing_def n_def)
  define parts where "parts = snd (write_batch (Inr n) (wr_parts wr))"
  have single: "n = length buf" if "wr_parts wr = [buf]" for buf
    using assms(1) that by (simp add: willing_def n_def)
  have wb: "write_batch (Inr n) (wr_parts wr) = (Inr n, parts)"
    using single n(1) b assms(4) by (auto simp: parts_def write_batch_def split: list.split)
  have parts: "concat (consume parts n) = drop n (concat (wr_parts wr))" "[] \<notin> set parts"
    using single b by (auto simp: parts_def write_batch_def concat_consume split: list.split)
  define wr' where "wr' = wr\<lparr>wr_parts := if wr_batch wr = n then [] else consume parts n,
    wr_batch := wr_batch wr - n, wr_socket := wr_socket wr @ take n (concat (wr_parts wr))\<rparr>"
  have p': "concat (wr_parts wr') = drop n (concat (wr_parts wr))" using parts(1) b n by (auto simp: wr'_def)
  have "writer_write E c (Inr n) wr w = (wr', report c n w)"
    using n wb unfolding writer_write_def if_not_P [OF assms(5)]
    by (simp add: writer_answer_def Let_def socket_took_def wr'_def)
  moreover have "writer_ok wr'"
    using p' b(1) consume_nonempty [OF parts(2), of n] by (auto simp: writer_ok_def wr'_def)
  moreover have "outbox_ok E (wr_batch wr - n) (c_out (w_conns (report c n w) c))"
    using drained_ok [OF assms(6) n(2)] by (simp add: report_def)
  ultimately show ?thesis using p' n assms(3) by (intro exI [of _ wr']) (simp add: wr'_def)
qed

lemma flags_report [simp]: "is_closed (report c n w) d = is_closed w d" "hard_closed (report c n w) d = hard_closed w d"
  by (simp_all add: is_closed_def hard_closed_def report_def)

lemma writer_ok_idle: "writer_ok wr \<Longrightarrow> \<not> wr_done wr \<Longrightarrow> wr_batch wr = 0 \<Longrightarrow> wr_parts wr = []"
  by (cases "wr_parts wr") (auto simp: writer_ok_def)

lemma serve_all:
  assumes "willing sock" "writer_ok wr" "\<not> wr_done wr" "\<not> (is_closed w c \<and> hard_closed w c)"
    and "outbox_ok E (wr_batch wr) (c_out (w_conns w c))" "wr_batch wr \<le> n" "serve E c sock n (wr, w) = (wr', w')"
  shows "wr_batch wr' = 0 \<and> wr_parts wr' = [] \<and> \<not> wr_done wr' \<and>
    wr_socket wr' = wr_socket wr @ concat (wr_parts wr) \<and>
    queued E (c_out (w_conns w' c)) = queued E (c_out (w_conns w c)) \<and> outbox_ok E 0 (c_out (w_conns w' c))"
  using assms(2-)
proof (induction n arbitrary: wr w)
  case 0
  with writer_ok_idle [of wr] show ?case by simp
next
  case (Suc n)
  show ?case
  proof (cases "wr_batch wr = 0")
    case True
    with Suc.prems writer_ok_idle [of wr] show ?thesis by simp
  next
    case False
    then obtain wr1 where s: "writer_write E c (Inr (sock (wr_parts wr))) wr w = (wr1, report c (sock (wr_parts wr)) w)"
      "writer_ok wr1" "\<not> wr_done wr1" "wr_batch wr1 < wr_batch wr"
      "wr_socket wr1 @ concat (wr_parts wr1) = wr_socket wr @ concat (wr_parts wr)"
      "outbox_ok E (wr_batch wr1) (c_out (w_conns (report c (sock (wr_parts wr)) w) c))"
      using serve_step [OF assms(1) Suc.prems(1,2) _ Suc.prems(3,4)] by auto
    have "serve E c sock n (wr1, report c (sock (wr_parts wr)) w) = (wr', w')"
      using Suc.prems(2,6) False s(1) by simp
    from Suc.IH [OF s(2,3) _ s(6) _ this] Suc.prems(3,5) s(4,5) show ?thesis by (simp add: queued_def)
  qed
qed

section \<open>An example\<close>

text \<open>A connection with one frame queued.\<close>

definition ex_world :: "(bool \<times> bytes list) World" where
  "ex_world =
     (let w = world_new list_deps default_config (rng_new 3);
          ob = snd (queue_with list_deps (\<lambda>a. (''PONG'', a)) (c_out (w_conns w 2)))
      in upd_conn 2 (\<lambda>k. k\<lparr>c_out := ob\<rparr>) w)"

definition ex_writer :: Writer where
  "ex_writer = writer_new\<lparr>wr_parts := [''PONG''], wr_batch := 4\<rparr>"

lemma ex_world_out:
  "c_out (w_conns ex_world 2) = (outbox_new list_deps CFG_MAX_PENDING)\<lparr>ob_pending := 4, ob_chan := (True, [''PONG''])\<rparr>"
  "\<not> is_closed ex_world 2" "\<not> hard_closed ex_world 2" "c_wakes (w_conns ex_world 2) = 0"
  by (simp_all add: ex_world_def world_new_def conn_new_def outbox_new_def queue_with_def push_def Let_def list_deps_def
      default_config_def CFG_MAX_PENDING_def is_closed_def hard_closed_def)

lemma ex_queued: "queued list_deps (c_out (w_conns ex_world 2)) = [''PONG'']"
  by (simp add: ex_world_out queued_def list_deps_def)

section \<open>Properties\<close>

text \<open>C5. Producers, writer and socket implement a FIFO byte pipe, in any interleaving in which a lone buffer is
  written whole or not at all: what the socket has taken is always a prefix of the accepted frames
  joined in order; while the writer runs, the socket's bytes, the batch and the queue together are
  exactly those frames.\<close>

theorem pipe_is_fifo:
  assumes "deps_ok E" "queued E (c_out (w_conns w c)) = []" "pipe E c fs (writer_new, w) (wr', w')"
  shows "prefix (wr_socket wr') (concat fs) \<and>
    (\<not> wr_done wr' \<longrightarrow>
       wr_socket wr' @ concat (wr_parts wr') @ concat (queued E (c_out (w_conns w' c))) = concat fs)"
proof -
  have "pipe_inv E c [] writer_new w"
    using assms(2) by (simp add: pipe_inv_def writer_ok_def writer_new_def stream_def)
  from pipe_inv [OF assms(1,3) this] show ?thesis by (auto simp: pipe_inv_def stream_def prefix_def)
qed

theorem pipe_is_fifo_witness:
  "\<exists>wr' w'. pipe list_deps 2 [''PONG''] (writer_new, world_new list_deps default_config (rng_new 3)) (wr', w') \<and>
     concat (wr_parts wr') @ concat (queued list_deps (c_out (w_conns w' 2))) = ''PONG'' \<and> w' = ex_world"
proof -
  let ?w = "world_new list_deps default_config (rng_new 3)"
  let ?q = "queue_with list_deps (\<lambda>a. (''PONG'', a)) (c_out (w_conns ?w 2))"
  have q: "fst ?q = EnqOk" "queued list_deps (c_out (w_conns ?w 2)) = []"
    "ob_tx (c_out (w_conns ?w 2)) = Some (arena_new list_deps)"
    by (simp_all add: world_new_def conn_new_def outbox_new_def queue_with_def push_def Let_def list_deps_def
        default_config_def CFG_MAX_PENDING_def queued_def)
  have "pipe list_deps 2 ([] @ (if accepted EnqOk then [fst (''PONG'', arena_new list_deps)] else []))
      (writer_new, ?w) (writer_new, upd_conn 2 (\<lambda>k. k\<lparr>c_out := snd ?q\<rparr>) ?w)"
    by (rule pipe.queue [OF pipe.start q(3), where build = "\<lambda>a. (''PONG'', a)"]) (simp add: q(1) [symmetric])
  then have p: "pipe list_deps 2 [''PONG''] (writer_new, ?w) (writer_new, ex_world)"
    by (simp add: accepted_def ex_world_def Let_def)
  from p pipe_is_fifo [OF deps_ok_list q(2) p] show ?thesis
    by (intro exI [of _ writer_new] exI [of _ ex_world]) (simp add: writer_new_def)
qed



text \<open>C29. Collecting a batch ends, however many frames wait, and moves a nonempty prefix of the queue into the batch:
  no empty buffer, and no more buffers than the kernel accepts in one call.\<close>

theorem receive_ends:
  assumes "deps_ok E" "wr_parts wr = []" "wr_batch wr = 0" "queued E (c_out (w_conns w c)) \<noteq> []"
  shows "\<exists>wr' w' fs. writer_recv E c wr w = Some (wr', w') \<and> fs \<noteq> [] \<and>
    queued E (c_out (w_conns w c)) = fs @ queued E (c_out (w_conns w' c)) \<and>
    concat (wr_parts wr') = concat fs \<and> wr_batch wr' = length (concat fs) \<and>
    [] \<notin> set (wr_parts wr') \<and> length (wr_parts wr') \<le> 1000"
proof -
  obtain f ch where r: "ch_recv E (ob_chan (c_out (w_conns w c))) = Some (f, ch)"
    using assms(4) deps_okD(8) [OF assms(1), of "ob_chan (c_out (w_conns w c))"]
    by (cases "ch_recv E (ob_chan (c_out (w_conns w c)))") (auto simp: queued_def)
  obtain ch' parts batch fs where k: "collect E ch (write_into f []) (frame_len f) = Some (ch', parts, batch)"
    "ch_frames E ch = fs @ ch_frames E ch'" "concat parts = concat (write_into f []) @ concat fs"
    "batch = frame_len f + frames_bytes fs" "[] \<notin> set parts" "length parts \<le> MAX_BATCH_PARTS"
    using collect_spec [OF assms(1), of ch "write_into f []" "frame_len f"] write_into_nonempty [of "[]" f]
      write_into_length [of f "[]"] by (auto simp: MAX_BATCH_PARTS_def)
  show ?thesis
    using k r assms(2,3) deps_okD(9) [OF assms(1) r]
    by (intro exI [of _ "fst (the (writer_recv E c wr w))"] exI [of _ "snd (the (writer_recv E c wr w))"]
        exI [of _ "f # fs"])
      (simp add: writer_recv_def queued_def frame_len_def frames_bytes_def MAX_BATCH_PARTS_def)
qed

theorem receive_ends_witness:
  "\<exists>wr' w'. writer_recv list_deps 2 writer_new ex_world = Some (wr', w') \<and> length (wr_parts wr') \<le> 1000"
  using receive_ends [OF deps_ok_list, of writer_new ex_world 2] ex_queued by (auto simp: writer_new_def)

text \<open>C38. A short write of a lone buffer loses data: the socket takes the first \<open>n\<close> bytes, the next \<open>n\<close> are thrown
  away, and if nothing is left after them the connection is closed although the socket works.\<close>

theorem short_write_loses_bytes:
  assumes "wr_parts wr = [buf]" "wr_batch wr = length buf" "0 < n" "n < length buf" "\<not> is_closed w c"
    and "writer_write E c (Inr n) wr w = (wr', w')"
  shows "wr_socket wr' = wr_socket wr @ take n buf \<and> concat (wr_parts wr') = drop (2 * n) buf \<and>
    wr_batch wr' = length buf - n \<and>
    (length buf \<le> 2 * n \<longrightarrow>
       c_reason (w_conns (snd (writer_write E c r wr' w')) c) = Some ''socket stopped accepting data'')"
proof -
  have wr': "wr' = wr\<lparr>wr_parts := consume [drop n buf] n, wr_batch := length buf - n, wr_socket := wr_socket wr @ take n buf\<rparr>"
    and w': "w' = report c n w"
    using assms by (auto simp: writer_write_def write_batch_def writer_answer_def Let_def socket_took_def)
  have drop: "concat (wr_parts wr') = drop (2 * n) buf"
    using concat_consume [of "[drop n buf]" n] by (simp add: wr' mult_2)
  have "wr_parts wr' = []" if "length buf \<le> 2 * n"
    using that assms(3,4) by (cases n) (auto simp: wr')
  then have "c_reason (w_conns (snd (writer_write E c r wr' w')) c) = Some ''socket stopped accepting data''"
    if "length buf \<le> 2 * n"
    using that assms(5) by (simp add: writer_write_def write_batch_def writer_answer_def w' writer_return_def
        close_def finish_def Let_def is_closed_def report_def)
  with drop show ?thesis by (simp add: wr')
qed

theorem short_write_loses_bytes_witness:
  "concat (wr_parts (fst (writer_write list_deps 2 (Inr 1) ex_writer ex_world))) = ''NG''"
proof -
  obtain wr' w' where s: "writer_write list_deps 2 (Inr 1) ex_writer ex_world = (wr', w')" by (rule prod.exhaust)
  from short_write_loses_bytes [OF _ _ _ _ ex_world_out(2) s, of "''PONG''"] s show ?thesis by (simp add: ex_writer_def)
qed

text \<open>A close that lets the queue drain can still lose a frame: if it wakes the writer during the attempt on a
  lone buffer, the buffer is dropped with the cancelled attempt, and the next attempt ends the task.\<close>

theorem cancelled_write_loses_the_frame:
  assumes "wr_parts wr = [buf]" "\<not> hard_closed w c" "writer_wake E c wr w = (wr', w')"
  shows "wr_parts wr' = [] \<and> wr_socket wr' = wr_socket wr \<and> wr_batch wr' = wr_batch wr \<and> w' = w \<and>
    wr_socket (fst (writer_write E c r wr' w')) = wr_socket wr \<and> wr_done (fst (writer_write E c r wr' w'))"
  using assms by (auto simp: writer_wake_def Let_def write_cancelled_def writer_write_def write_batch_def
      writer_answer_def writer_return_def socket_took_def split: sum.split)

theorem cancelled_write_loses_the_frame_witness:
  "wr_parts (fst (writer_wake list_deps 2 ex_writer (close 2 ''client closed'' ex_world))) = []"
proof -
  let ?w = "close 2 ''client closed'' ex_world"
  obtain wr' w' where s: "writer_wake list_deps 2 ex_writer ?w = (wr', w')" by (rule prod.exhaust)
  have "\<not> hard_closed ?w 2" using ex_world_out(2) by (simp add: hard_closed_def close_def finish_def Let_def)
  from cancelled_write_loses_the_frame [OF _ this s, of "''PONG''"] s show ?thesis by (simp add: ex_writer_def)
qed

end
