(* ===== verification/Stall.thy ===== *)
theory Stall
  imports Writer
begin

text \<open>
  The publisher's wait for a stalled subscriber (\<^verbatim>\<open>wait_for_space\<close> and the loop around it in \<^verbatim>\<open>handle\<close> of
  \<^verbatim>\<open>crates/server/src/client.rs\<close>), interleaved with everything the other tasks do to the subscriber's
  queue: frames queued, bytes reported as written, the connection closed. A waiter registered with
  \<^verbatim>\<open>enable\<close> when \<open>ob_notified\<close> was \<open>k\<close> is woken once the counter has moved on: \<^verbatim>\<open>notify_waiters\<close> of tokio
  wakes exactly the waiters registered at the call.
\<close>

section \<open>The waiter\<close>

datatype Waiter =
    WCheck
      \<comment> \<open>about to look for room\<close>
  | WEnable
      \<comment> \<open>found none, about to register\<close>
  | WRecheck nat
      \<comment> \<open>registered, about to look again\<close>
  | WAwait nat
      \<comment> \<open>found none again, parked\<close>
  | WReturned

definition wait_for_space :: "'ch Outbox \<Rightarrow> Waiter \<Rightarrow> Waiter" where
  "wait_for_space ob wt =
     (case wt of
        WCheck \<Rightarrow> if room ob then WReturned else WEnable
      | WEnable \<Rightarrow> WRecheck (ob_notified ob)
      | WRecheck k \<Rightarrow> if room ob then WReturned else WAwait k
      | WAwait k \<Rightarrow> if ob_notified ob \<noteq> k then WCheck else WAwait k
      | WReturned \<Rightarrow> WReturned)"

text \<open>The loop of the handler: stop at a closed connection, wait, and look once more.\<close>

datatype Stalled = SLoop | SWait Waiter | SDone

definition stalled_next :: "nat \<Rightarrow> 'ch World \<Rightarrow> Stalled \<Rightarrow> Stalled" where
  "stalled_next c w st =
     (case st of
        SLoop \<Rightarrow> if is_closed w c then SDone else SWait WCheck
      | SWait WReturned \<Rightarrow> if room (c_out (w_conns w c)) \<or> is_closed w c then SDone else SLoop
      | SWait wt \<Rightarrow> SWait (wait_for_space (c_out (w_conns w c)) wt)
      | SDone \<Rightarrow> SDone)"

section \<open>The other tasks\<close>

text \<open>
  What they may do to the connection; a frame is queued only if the byte counter can hold its length,
  which \<^verbatim>\<open>max_pending\<close> guarantees for every frame that fits the memory.
\<close>

definition fits :: "'ch World \<Rightarrow> nat \<Rightarrow> nat \<Rightarrow> bool" where
  "fits w c n \<longleftrightarrow> unat (ob_pending (c_out (w_conns w c))) + n < 2 ^ 64"

inductive env_step :: "('ch, 'j) Deps \<Rightarrow> nat \<Rightarrow> 'ch World \<Rightarrow> 'ch World \<Rightarrow> bool"
  for E :: "('ch, 'j) Deps" and c :: nat where
  enqueues: "fits w c (length f) \<Longrightarrow> env_step E c w (snd (conn_enqueue E c f w))"
| delivers: "s_conn sub = c \<Longrightarrow>
    (\<And>a. ob_tx (c_out (w_conns w c)) = Some a \<Longrightarrow>
       fits w c (length (fst (build_frame E a (supports_headers w c) (s_sid sub) msg)))) \<Longrightarrow>
    env_step E c w (snd (deliver E sub msg w))"
| reports: "env_step E c w (report c n w)"
| closes: "env_step E c w (finish c reason hard w)"
| elsewhere: "is_closed w' c = is_closed w c \<Longrightarrow>
    ob_pending (c_out (w_conns w' c)) = ob_pending (c_out (w_conns w c)) \<Longrightarrow>
    ob_soft (c_out (w_conns w' c)) = ob_soft (c_out (w_conns w c)) \<Longrightarrow>
    ob_gone (c_out (w_conns w' c)) = ob_gone (c_out (w_conns w c)) \<Longrightarrow>
    ob_notified (c_out (w_conns w' c)) = ob_notified (c_out (w_conns w c)) \<Longrightarrow> env_step E c w w'"

inductive stall_step :: "('ch, 'j) Deps \<Rightarrow> nat \<Rightarrow> Stalled \<times> 'ch World \<Rightarrow> Stalled \<times> 'ch World \<Rightarrow> bool"
  for E :: "('ch, 'j) Deps" and c :: nat where
  publisher: "stall_step E c (st, w) (stalled_next c w st, w)"
| environment: "env_step E c w w' \<Longrightarrow> stall_step E c (st, w) (st, w')"

section \<open>Room does not appear unannounced\<close>

definition announced :: "'ch Outbox \<Rightarrow> 'ch Outbox \<Rightarrow> bool" where
  "announced ob ob' \<longleftrightarrow>
     ob_notified ob \<le> ob_notified ob' \<and> (room ob' \<longrightarrow> room ob \<or> ob_notified ob < ob_notified ob') \<and>
     (ob_gone ob \<longrightarrow> ob_gone ob')"

lemma announced_refl [simp]: "announced ob ob"
  by (simp add: announced_def)

lemma announced_push:
  assumes "unat (ob_pending ob) + length f < 2 ^ 64"
  shows "announced ob (snd (push E f (ob\<lparr>ob_tx := t\<rparr>)))"
proof -
  have "length f < 2 ^ 64" using assms by linarith
  then have "unat (ob_pending ob + of_nat (length f)) = unat (ob_pending ob) + length f"
    using assms by (simp add: unat_word_ariths unat_of_nat)
  then have "ob_pending ob \<le> ob_pending ob + of_nat (length f)" by (simp add: word_le_nat_alt)
  then show ?thesis
    by (auto simp: announced_def push_def Let_def room_def split: option.split)
qed

lemma announced_queue_with:
  assumes "\<And>a. ob_tx ob = Some a \<Longrightarrow> unat (ob_pending ob) + length (fst (build a)) < 2 ^ 64"
  shows "announced ob (snd (queue_with E build ob))"
  using assms announced_push [of ob "fst (build a)" E "Some (snd (build a))" for a]
  by (auto simp: queue_with_def case_prod_beta split: option.split)

lemma announced_drained: "announced ob (drained n ob)"
  by (auto simp: announced_def drained_def Let_def room_def saturating_sub_def)

lemma announced_close: "announced ob (no_more_writes (ob\<lparr>ob_tx := None\<rparr>))"
  by (simp add: announced_def no_more_writes_def)

lemma env_step_announced:
  assumes "env_step E c w w'"
  shows "announced (c_out (w_conns w c)) (c_out (w_conns w' c))"
    "(is_closed w c \<longrightarrow> ob_gone (c_out (w_conns w c))) \<Longrightarrow> is_closed w' c \<Longrightarrow> ob_gone (c_out (w_conns w' c))"
proof -
  have "announced (c_out (w_conns w c)) (c_out (w_conns w' c)) \<and>
    ((is_closed w c \<longrightarrow> ob_gone (c_out (w_conns w c))) \<longrightarrow> is_closed w' c \<longrightarrow> ob_gone (c_out (w_conns w' c)))"
    using assms
  proof cases
    case (enqueues f)
    show ?thesis
      using announced_push [of "c_out (w_conns w c)" f E "ob_tx (c_out (w_conns w c))"] enqueues(2)
      unfolding enqueues(1)
      by (auto simp: conn_enqueue_def outbox_enqueue_def is_closed_def fits_def announced_def
          split: option.split prod.split)
  next
    case (delivers sub msg)
    have "announced (c_out (w_conns w c))
        (snd (queue_with E (\<lambda>a. build_frame E a (supports_headers w c) (s_sid sub) msg) (c_out (w_conns w c))))"
      using delivers(3) by (intro announced_queue_with) (simp add: fits_def)
    then show ?thesis
      unfolding delivers(1) by (auto simp: deliver_def delivers(2) is_closed_def announced_def Let_def case_prod_beta)
  next
    case (reports n)
    then show ?thesis
      using announced_drained [of "c_out (w_conns w c)" "of_nat n"]
      by (auto simp: report_def is_closed_def announced_def)
  next
    case (closes reason hard)
    then show ?thesis
      using announced_close [of "c_out (w_conns w c)"]
      by (auto simp: finish_def is_closed_def Let_def no_more_writes_def)
  next
    case elsewhere
    then show ?thesis by (auto simp: announced_def room_def)
  qed
  then show "announced (c_out (w_conns w c)) (c_out (w_conns w' c))"
    "(is_closed w c \<longrightarrow> ob_gone (c_out (w_conns w c))) \<Longrightarrow> is_closed w' c \<Longrightarrow> ob_gone (c_out (w_conns w' c))" by auto
qed

section \<open>The publisher goes on\<close>

text \<open>A parked waiter with no wake-up underway has no room to miss.\<close>

definition waiter_inv :: "'ch Outbox \<Rightarrow> Waiter \<Rightarrow> bool" where
  "waiter_inv ob wt \<longleftrightarrow>
     (case wt of
        WRecheck k \<Rightarrow> k \<le> ob_notified ob
      | WAwait k \<Rightarrow> k \<le> ob_notified ob \<and> (ob_notified ob = k \<longrightarrow> \<not> room ob)
      | _ \<Rightarrow> True)"

definition stall_inv :: "nat \<Rightarrow> Stalled \<Rightarrow> 'ch World \<Rightarrow> bool" where
  "stall_inv c st w \<longleftrightarrow>
     (is_closed w c \<longrightarrow> ob_gone (c_out (w_conns w c))) \<and>
     (\<forall>wt. st = SWait wt \<longrightarrow> waiter_inv (c_out (w_conns w c)) wt)"

lemma waiter_inv_announced: "waiter_inv ob wt \<Longrightarrow> announced ob ob' \<Longrightarrow> waiter_inv ob' wt"
  by (auto simp: waiter_inv_def announced_def split: Waiter.splits)

lemma waiter_inv_next: "waiter_inv ob wt \<Longrightarrow> waiter_inv ob (wait_for_space ob wt)"
  by (auto simp: waiter_inv_def wait_for_space_def split: Waiter.splits)

lemma stall_inv_step:
  assumes "stall_step E c (st, w) (st', w')" "stall_inv c st w"
  shows "stall_inv c st' w'"
  using assms(1)
proof cases
  case publisher
  have "waiter_inv (c_out (w_conns w c)) wt'" if "stalled_next c w st = SWait wt'" for wt'
  proof (cases st)
    case (SWait wt)
    with assms(2) waiter_inv_next [of "c_out (w_conns w c)" wt] that show ?thesis
      by (cases wt) (simp_all add: stall_inv_def stalled_next_def split: if_splits)
  qed (use that in \<open>simp_all add: stalled_next_def waiter_inv_def split: if_splits\<close>)
  with publisher assms(2) show ?thesis by (simp add: stall_inv_def)
next
  case environment
  with assms(2) env_step_announced [OF environment(2)] show ?thesis
    by (auto simp: stall_inv_def intro: waiter_inv_announced)
qed

interpretation stalled: keeps "stall_step E c" "\<lambda>(st, w). stall_inv c st w" for E :: "('ch, 'j) Deps" and c :: nat
  by unfold_locales (auto intro: stall_inv_step)

section \<open>Properties\<close>



end
