(* ===== verification/System.thy ===== *)
theory System
  imports Client Stall
begin

text \<open>
  The whole server: any number of connections, each with its reader and its writer, in any
  interleaving of their steps. A connection is spawned once, with the \<^verbatim>\<open>INFO\<close> line queued before either
  task runs (\<^verbatim>\<open>spawn\<close> of \<^verbatim>\<open>crates/server/src/client.rs\<close>). The invariants of the components hold together
  in every reachable state.
\<close>

section \<open>The steps of the registry during an operation\<close>

definition within :: "nat \<Rightarrow> Registry \<Rightarrow> Registry \<Rightarrow> bool" where
  "within n r r' \<longleftrightarrow> (\<exists>k\<le>n. (reg_step ^^ k) r r')"

lemma within_refl [simp]: "within n r r"
  by (auto simp: within_def intro!: exI [of _ 0])

lemma within_step: "reg_step r r' \<Longrightarrow> within (Suc n) r r'"
  by (auto simp: within_def intro!: exI [of _ "Suc 0"])

lemma within_trans: "within m r r1 \<Longrightarrow> within n r1 r2 \<Longrightarrow> within (m + n) r r2"
  unfolding within_def by (metis add_mono relpowp_add relcompp.relcompI)

lemma within_mono: "within m r r' \<Longrightarrow> m \<le> n \<Longrightarrow> within n r r'"
  unfolding within_def by (meson order_trans)

lemma send_registry [simp]: "w_registry (send E c f w) = w_registry w"
  by (simp add: send_def conn_enqueue_def upd_conn_def split: prod.split)

lemma deliver_registry: "deliver E sub msg w = (r, w') \<Longrightarrow> w_registry w' = w_registry w"
  by (auto simp: deliver_def Let_def upd_conn_def split: if_splits prod.splits)

lemma finish_within: "within 1 (w_registry w) (w_registry (finish c reason hard w))"
  by (auto simp: finish_def Let_def upd_conn_def intro: within_step reg_step.rem_conn)

lemma give_within:
  assumes "give E sub msg expired w = (g, expired', w')"
  shows "within 1 (w_registry w) (w_registry w')"
proof -
  obtain r w1 where d: "deliver E sub msg w = (r, w1)" by (rule prod.exhaust)
  have "w_registry w' = w_registry w1 \<or> (\<exists>reason. w' = finish (s_conn sub) reason True w1)"
    using assms d by (cases r)
      (auto simp: give_def account_sub_def close_slow_consumer_def close_now_def split: prod.splits)
  with deliver_registry [OF d] finish_within [of w1] show ?thesis by auto
qed

lemma route_loop_within:
  "route_loop E msg from subs cnt stall expired w = (cnt', stall', expired', w') \<Longrightarrow>
     within (length subs) (w_registry w) (w_registry w')"
proof (induction subs arbitrary: cnt stall expired w)
  case (Cons sub subs)
  show ?case
  proof (cases "eligible w from sub")
    case False
    with Cons have "within (length subs) (w_registry w) (w_registry w')" by auto
    then show ?thesis by (rule within_mono) simp
  next
    case True
    obtain g expired1 w1 where g: "give E sub msg expired w = (g, expired1, w1)" by (rule prod_cases3)
    have "within (length subs) (w_registry w1) (w_registry w')"
      using Cons.prems True g Cons.IH by (cases g) auto
    from within_trans [OF give_within [OF g] this] show ?thesis by simp
  qed
qed simp

lemma expire_within: "within 1 r (expire expired r)"
  by (auto simp: expire_def intro: within_step reg_step.expire)

lemma route_list_within: "route_list subject from it w = (subs, it', w') \<Longrightarrow> within 1 (w_registry w) (w_registry w')"
  using within_step [OF reg_step.draw]
  by (auto simp: route_list_def pick_groups_def Let_def split: if_splits prod.splits)

section \<open>The caches\<close>

text \<open>A reader's cache resolved nothing yet, or what it resolved is at most as new as the registry and, if as new, right.\<close>

definition cache_ok :: "Registry \<Rightarrow> Interest \<Rightarrow> bool" where
  "cache_ok r it \<longleftrightarrow> in_generation it = -1 \<or> in_generation it \<le> r_generation r \<and> interest_ok r it"

definition gen_room :: "nat \<Rightarrow> Registry \<Rightarrow> bool" where
  "gen_room n r \<longleftrightarrow> unat (r_generation r) + n < 2 ^ 64 - 1"

lemma gen_room_not_max: "gen_room n r \<Longrightarrow> r_generation r \<noteq> -1"
  by (auto simp: gen_room_def unsigned_minus_1_eq_mask mask_eq_exp_minus_1)

lemma cache_interest: "cache_ok r it \<Longrightarrow> gen_room n r \<Longrightarrow> interest_ok r it"
  using gen_room_not_max [of n r] by (auto simp: cache_ok_def interest_ok_def)

lemma cache_within:
  assumes "within n r r'" "gen_room n r" "cache_ok r it"
  shows "cache_ok r' it" "gen_room 0 r'"
proof -
  obtain m where m: "m \<le> n" "(reg_step ^^ m) r r'" using assms(1) by (auto simp: within_def)
  obtain k where k: "k \<le> m" "r_generation r' = r_generation r + of_nat k"
    "k = 0 \<longrightarrow> (\<lambda>subject. interested subject r') = (\<lambda>subject. interested subject r)"
    using interest.steps_version [OF m(2)] by blast
  have "unat (r_generation r) + k < 2 ^ 64 - 1" using assms(2) k(1) m(1) by (simp add: gen_room_def)
  then have g: "unat (r_generation r') = unat (r_generation r) + k"
    unfolding k(2) by (simp add: unat_word_ariths unat_of_nat)
  with \<open>unat (r_generation r) + k < 2 ^ 64 - 1\<close> show "gen_room 0 r'" by (simp add: gen_room_def)
  show "cache_ok r' it"
  proof (cases "in_generation it = -1")
    case False
    with assms(3) have c: "unat (in_generation it) \<le> unat (r_generation r)" "interest_ok r it"
      by (auto simp: cache_ok_def word_le_nat_alt)
    have "interest_ok r' it"
    proof (cases "k = 0")
      case True
      with c(2) k show ?thesis by (auto simp: interest_ok_def fun_eq_iff)
    next
      case False
      with c(1) g have "unat (in_generation it) \<noteq> unat (r_generation r')" by simp
      then show ?thesis by (auto simp: interest_ok_def)
    qed
    with c(1) g show ?thesis by (simp add: cache_ok_def word_le_nat_alt)
  qed (simp add: cache_ok_def)
qed

lemma route_list_cache:
  assumes "reg_ok (w_registry w)" "cache_ok (w_registry w) it" "route_list subject from it w = (subs, it', w')"
  shows "cache_ok (w_registry w) it'"
proof -
  define jt where "jt = (if in_generation it \<noteq> r_generation (w_registry w) \<or> in_subject it \<noteq> subject
    then resolve subject (w_registry w) it else it)"
  have "cache_ok (w_registry w) (resolve subject (w_registry w) it)"
    using resolve_subs [of "w_registry w" subject it] assms(1)
    by (auto simp: cache_ok_def interest_ok_def reg_ok_def resolve_def Let_def)
  then have "cache_ok (w_registry w) jt" using assms(2) by (simp add: jt_def)
  moreover have "in_generation it' = in_generation jt" "in_subs it' = in_subs jt" "in_subject it' = in_subject jt"
    "in_queue it' = in_queue jt"
    using assms(3) unfolding route_list_def jt_def [symmetric] Let_def
    by (auto simp: pick_groups_def split: if_splits prod.splits)
  ultimately show ?thesis by (simp add: cache_ok_def interest_ok_def)
qed

definition reg_size :: "'ch World \<Rightarrow> nat" where
  "reg_size w = length (all_subs (r_inner (w_registry w)))"

lemma route_cache:
  assumes "world_wf {} w" "cache_ok (w_registry w) it" "gen_room (reg_size w + 2) (w_registry w)"
    and "route E msg from it w = (cnt, stall, it', w')"
  shows "cache_ok (w_registry w) it'" "within (reg_size w + 2) (w_registry w) (w_registry w')"
proof -
  obtain subs it1 w1 where rl: "route_list (m_subject msg) from it w = (subs, it1, w1)" by (rule prod_cases3)
  note ok = world_wfD(1) [OF assms(1)]
  note k = route_list_wf [OF ok cache_interest [OF assms(2,3)] rl]
  have len: "length subs \<le> reg_size w"
    using k(1,2) card_mono [of "registered w" "set subs"] card_length [of "all_subs (r_inner (w_registry w))"]
    by (simp add: distinct_card registered_def reg_size_def)
  have it': "it' = it1" using assms(4) rl by (auto simp: route_def split: if_splits prod.splits)
  from route_list_cache [OF ok assms(2) rl] show "cache_ok (w_registry w) it'" unfolding it' .
  show "within (reg_size w + 2) (w_registry w) (w_registry w')"
  proof (cases "subs = []")
    case True
    then have "w' = w1" using assms(4) rl by (simp add: route_def)
    with within_mono [OF route_list_within [OF rl]] show ?thesis by simp
  next
    case False
    obtain cnt' stall' expired w2 where loop: "route_loop E msg from subs 0 [] [] w1 = (cnt', stall', expired, w2)"
      by (rule prod_cases4)
    have w': "w' = w2\<lparr>w_registry := expire expired (w_registry w2)\<rparr>"
      using assms(4) rl loop False by (simp add: route_def)
    have "within (1 + (length subs + 1)) (w_registry w) (w_registry w')"
      using within_trans [OF route_list_within [OF rl] within_trans [OF route_loop_within [OF loop] expire_within]]
      unfolding w' by simp
    then show ?thesis by (rule within_mono) (use len in simp)
  qed
qed

section \<open>Operations\<close>

lemma fold_send_registry [simp]: "w_registry (fold (\<lambda>s. send E c (f s)) ss w) = w_registry w"
  by (induction ss arbitrary: w) simp_all

lemma no_responder_registry [simp]: "w_registry (no_responder_check E c msg reply n w) = w_registry w"
  by (simp add: no_responder_check_def split: option.split)

lemma upd_conn_registry [simp]: "w_registry (upd_conn c f w) = w_registry w"
  by (simp add: upd_conn_def)

lemma subscribe_within: "within (Suc n) (w_registry w) (w_registry (handle_subscribe E c subject queue sid w))"
proof -
  let ?sub = "sub_new (w_next w) subject queue sid c"
  obtain ok r where i: "insert_sub ?sub (w_registry w) = (ok, r)" by (rule prod.exhaust)
  have "within (Suc n) (w_registry w) r"
    by (rule within_step [OF reg_step.ins [OF _ _ i]]) (simp_all add: sub_new_def)
  moreover have "w_registry (handle_subscribe E c subject queue sid w) \<in> {w_registry w, r}"
    using i by (simp add: handle_subscribe_def send_err_def Let_def)
  ultimately show ?thesis by auto
qed

lemma unsubscribe_within: "within (Suc n) (w_registry w) (w_registry (handle_unsubscribe E c sid m w))"
proof -
  have "w_registry (handle_unsubscribe E c sid m w) = w_registry w \<or>
      (\<exists>sub. w_registry (handle_unsubscribe E c sid m w) = remove sub (w_registry w))"
    by (auto simp: handle_unsubscribe_def Let_def split: option.split prod.split)
  then show ?thesis by (auto intro: within_step [OF reg_step.rem])
qed

lemma publish_cache:
  assumes "world_wf {} w" "cache_ok (w_registry w) it" "gen_room (reg_size w + 2) (w_registry w)"
    and "handle_publish E c subject reply hdr hpub body it w = (ok, it', ws, w')"
  shows "cache_ok (w_registry w) it' \<and> within (reg_size w + 2) (w_registry w) (w_registry w')"
proof -
  define w1 where "w1 = (if o_pedantic (opts w c) \<and> \<not> is_valid_publish subject then send_err E c INVALID_PUBLISH_SUBJECT w else w)"
  define w2 where "w2 = (if o_verbose (opts w c) then send E c frame_ok w1 else w1)"
  let ?msg = "\<lparr>m_subject = subject, m_reply = reply, m_hdr = hdr, m_body = body\<rparr>"
  have same: "same_wf w w2" "w_registry w2 = w_registry w"
    unfolding w2_def w1_def send_err_def by (auto intro: send_same_wf same_wf_refl same_wf_trans)
  have wf: "world_wf {} w2" using assms(1) world_wf_cong [OF same(1)] by simp
  obtain cnt stall it1 w3 where r: "route E ?msg c it w2 = (cnt, stall, it1, w3)" by (rule prod_cases4)
  have size: "reg_size w2 = reg_size w" using same(2) by (simp add: reg_size_def)
  from route_cache [OF wf _ _ r] assms(2,3)
  have k: "cache_ok (w_registry w) it1" "within (reg_size w + 2) (w_registry w) (w_registry w3)"
    unfolding same(2) size by blast+
  have "(it' = it \<or> it' = it1) \<and> (w_registry w' = w_registry w \<or> w_registry w' = w_registry w3)"
    using assms(4) r same(2) unfolding handle_publish_def Let_def w1_def [symmetric] w2_def [symmetric]
    by (auto split: if_splits)
  with k assms(2) show ?thesis by auto
qed

lemma handle_cache:
  assumes "world_wf {} w" "cache_ok (w_registry w) it" "gen_room (reg_size w + 2) (w_registry w)"
    and "handle E c ev it w = (ok, it', ws, w')"
  shows "cache_ok (w_registry w) it' \<and> within (reg_size w + 2) (w_registry w) (w_registry w')"
proof (cases ev)
  case (Publish subject reply hdr n body hpub)
  with assms(4) publish_cache [OF assms(1-3)] show ?thesis by (simp add: handle_def)
next
  case (Subscribe subject queue sid)
  with assms(2,4) subscribe_within [of "reg_size w + 1" w] show ?thesis by (auto simp: handle_def)
next
  case (Unsubscribe sid m)
  with assms(2,4) unsubscribe_within [of "reg_size w + 1" w] show ?thesis by (auto simp: handle_def)
next
  case (Connect json)
  with assms(2,4) show ?thesis
    by (auto simp: handle_def set_opts_def Let_def split: if_splits prod.splits)
next
  case (HpubAttempt outcome)
  with assms(2,4) show ?thesis
    by (cases outcome) (auto simp: handle_def send_err_def split: if_splits)
qed (use assms(2,4) in \<open>auto simp: handle_def note_pong_def\<close>)

section \<open>What an operation of one connection leaves alone\<close>

text \<open>The options stay, no connection is reopened, only a closed one is marked hard, and no other table grows.\<close>

definition keeps :: "nat \<Rightarrow> 'ch World \<Rightarrow> 'ch World \<Rightarrow> bool" where
  "keeps c w w' \<longleftrightarrow>
     w_cfg w' = w_cfg w \<and>
     (\<forall>d. c_closed (w_conns w d) \<longrightarrow> c_closed (w_conns w' d)) \<and>
     (\<forall>d. c_hard (w_conns w' d) \<longrightarrow> c_hard (w_conns w d) \<or> c_closed (w_conns w' d)) \<and>
     (\<forall>d. d \<noteq> c \<longrightarrow> c_subs (w_conns w d) = [] \<longrightarrow> c_subs (w_conns w' d) = [])"

lemma keeps_refl [simp]: "keeps c w w"
  by (simp add: keeps_def)

lemma keeps_trans: "keeps c w w1 \<Longrightarrow> keeps c w1 w2 \<Longrightarrow> keeps c w w2"
  unfolding keeps_def by metis

lemma keeps_upd:
  assumes "\<And>k. c_closed (f k) = c_closed k" "\<And>k. c_hard (f k) = c_hard k" "d = c \<or> (\<forall>k. c_subs (f k) = c_subs k)"
  shows "keeps c w (upd_conn d f w)"
  using assms by (auto simp: keeps_def upd_conn_def)

lemma keeps_world [simp]: "keeps c w (v\<lparr>w_registry := r\<rparr>) = keeps c w v" "keeps c w (v\<lparr>w_cells := cs\<rparr>) = keeps c w v"
    "keeps c w (v\<lparr>w_next := n\<rparr>) = keeps c w v"
  by (simp_all add: keeps_def)

lemma keeps_send [simp]: "keeps c w (send E d f w)"
  by (auto simp: send_def conn_enqueue_def split: prod.split intro: keeps_upd)

lemma keeps_finish [simp]: "keeps c w (finish d reason hard w)"
  by (auto simp: keeps_def finish_def Let_def is_closed_def)

lemma keeps_give:
  assumes "give E sub msg expired w = (g, expired', w')"
  shows "keeps c w w'"
proof -
  obtain r w1 where d: "deliver E sub msg w = (r, w1)" by (rule prod.exhaust)
  have "keeps c w w1"
    using d by (auto simp: deliver_def Let_def split: if_splits prod.splits intro: keeps_upd)
  moreover have "keeps c w1 w'"
    using assms d by (cases r)
      (auto simp: give_def account_sub_def close_slow_consumer_def close_now_def split: prod.splits)
  ultimately show ?thesis by (rule keeps_trans)
qed

lemma keeps_route_loop:
  "route_loop E msg from subs cnt stall expired w = (cnt', stall', expired', w') \<Longrightarrow> keeps c w w'"
proof (induction subs arbitrary: cnt stall expired w)
  case (Cons sub subs)
  obtain g expired1 w1 where g: "give E sub msg expired w = (g, expired1, w1)" by (rule prod_cases3)
  show ?case
  proof (cases "eligible w from sub")
    case True
    then have "keeps c w1 w'" using Cons.prems g Cons.IH by (cases g) auto
    with keeps_give [OF g] show ?thesis by (rule keeps_trans)
  qed (use Cons in simp)
qed simp

lemma keeps_route:
  assumes "route E msg from it w = (cnt, stall, it', w')"
  shows "keeps c w w'"
proof -
  obtain subs it1 w1 where rl: "route_list (m_subject msg) from it w = (subs, it1, w1)" by (rule prod_cases3)
  have "keeps c w w1"
    using rl by (auto simp: route_list_def Let_def split: if_splits prod.splits)
  moreover have "keeps c w1 w'"
    using assms rl keeps_route_loop by (fastforce simp: route_def split: if_splits prod.splits)
  ultimately show ?thesis by (rule keeps_trans)
qed

lemma keeps_no_responder [simp]: "keeps c w (no_responder_check E d msg reply n w)"
proof -
  have "keeps c w (fold (\<lambda>s. send E d (f s)) ss w)" for ss and f :: "Sub \<Rightarrow> Frame"
    by (induction ss arbitrary: w) (auto intro: keeps_trans [OF keeps_send])
  then show ?thesis by (simp add: no_responder_check_def split: option.split)
qed

lemma keeps_send_after: "keeps c w v \<Longrightarrow> keeps c w (send E d f v)"
  by (rule keeps_trans [OF _ keeps_send])

lemma keeps_subscribe: "keeps c w (handle_subscribe E c subject queue sid w)"
proof -
  have "keeps c w (upd_conn c (\<lambda>k. k\<lparr>c_subs := f k\<rparr>) v)" if "keeps c w v" for f and v :: "'a World"
    by (rule keeps_trans [OF that keeps_upd]) simp_all
  then show ?thesis
    by (auto simp: handle_subscribe_def send_err_def Let_def intro!: keeps_send_after split: prod.split)
qed

lemma keeps_unsubscribe: "keeps c w (handle_unsubscribe E c sid m w)"
proof -
  have "keeps c w (upd_conn c (\<lambda>k. k\<lparr>c_subs := f k\<rparr>) v)" if "keeps c w v" for f and v :: "'a World"
    by (rule keeps_trans [OF that keeps_upd]) simp_all
  then show ?thesis
    by (auto simp: handle_unsubscribe_def Let_def intro!: keeps_send_after split: option.split prod.split)
qed

lemma keeps_publish:
  assumes "handle_publish E c subject reply hdr hpub body it w = (ok, it', ws, w')"
  shows "keeps c w w'"
proof -
  define w1 where "w1 = (if o_pedantic (opts w c) \<and> \<not> is_valid_publish subject then send_err E c INVALID_PUBLISH_SUBJECT w else w)"
  define w2 where "w2 = (if o_verbose (opts w c) then send E c frame_ok w1 else w1)"
  let ?msg = "\<lparr>m_subject = subject, m_reply = reply, m_hdr = hdr, m_body = body\<rparr>"
  have k2: "keeps c w w2" by (simp add: w2_def w1_def send_err_def keeps_send_after)
  obtain cnt stall it1 w3 where r: "route E ?msg c it w2 = (cnt, stall, it1, w3)" by (rule prod_cases4)
  have k3: "keeps c w (no_responder_check E c ?msg reply cnt w3)"
    using keeps_trans [OF k2 keeps_trans [OF keeps_route [OF r] keeps_no_responder]] .
  have "w' = w \<or> w' = w2 \<or> w' = no_responder_check E c ?msg reply cnt w3"
    using assms r unfolding handle_publish_def Let_def w1_def [symmetric] w2_def [symmetric] by (auto split: if_splits)
  with k2 k3 show ?thesis by auto
qed

lemma keeps_handle:
  assumes "handle E c ev it w = (ok, it', ws, w')"
  shows "keeps c w w'"
proof -
  have f: "keeps c w (set_opts c o' w)" "keeps c w (note_pong c w)" for o'
    unfolding set_opts_def note_pong_def by (rule keeps_upd; simp)+
  show ?thesis
  proof (cases ev)
    case (Publish subject reply hdr n body hpub)
    with assms keeps_publish show ?thesis by (fastforce simp: handle_def)
  next
    case (Connect json)
    with assms f show ?thesis by (auto simp: handle_def Let_def split: if_splits prod.splits intro: keeps_send_after)
  next
    case (HpubAttempt outcome)
    with assms show ?thesis by (cases outcome) (auto simp: handle_def send_err_def split: if_splits)
  qed (use assms f keeps_subscribe keeps_unsubscribe in \<open>auto simp: handle_def\<close>)
qed

section \<open>The reader\<close>

text \<open>The invariant of a reader, next to a world.\<close>

definition reader_ok :: "nat \<Rightarrow> Reader \<Rightarrow> 'ch World \<Rightarrow> bool" where
  "reader_ok c rd w \<longleftrightarrow>
     cache_ok (w_registry w) (rd_interest rd) \<and> rd_cap rd \<in> buffer_sizes \<and>
     state_ok (limits_of (w_cfg w)) (rd_parser rd) \<and> list_all (event_ok (limits_of (w_cfg w))) (rd_events rd) \<and>
     (rd_done rd \<longrightarrow> is_closed w c)"

text \<open>What a step of connection \<open>c\<close> guarantees.\<close>

definition moved :: "nat \<Rightarrow> 'ch World \<Rightarrow> 'ch World \<Rightarrow> bool" where
  "moved c w w' \<longleftrightarrow>
     (world_wf {} w \<longrightarrow> world_wf {} w') \<and> keeps c w w' \<and> within (reg_size w + 2) (w_registry w) (w_registry w')"

lemma moved_same: "same_wf w w' \<Longrightarrow> keeps c w w' \<Longrightarrow> w_registry w' = w_registry w \<Longrightarrow> moved c w w'"
  by (simp add: moved_def world_wf_cong)

lemma moved_close:
  assumes "same_wf w w1" "keeps c w w1" "w_registry w1 = w_registry w"
  shows "moved c w (finish d reason hard w1)" "moved c w (finish d reason hard (finish e reason' hard' w1))"
proof -
  have 1: "within 1 (w_registry w) (w_registry (finish d reason hard w1))" for d reason hard
    using finish_within [of w1] assms(3) by simp
  have 2: "within (1 + 1) (w_registry w) (w_registry (finish d reason hard (finish e reason' hard' w1)))"
    by (rule within_trans [OF 1 finish_within])
  show "moved c w (finish d reason hard w1)"
    using assms within_mono [OF 1]
    by (simp add: moved_def finish_wf world_wf_cong keeps_trans [OF assms(2) keeps_finish])
  show "moved c w (finish d reason hard (finish e reason' hard' w1))"
    using assms within_mono [OF 2]
    by (simp add: moved_def finish_wf world_wf_cong keeps_trans [OF keeps_trans [OF assms(2) keeps_finish] keeps_finish])
qed

lemmas closing = close_def close_now_def

lemma reader_ok_moved:
  assumes "moved d w w'" "gen_room (reg_size w + 2) (w_registry w)"
    and "cache_ok (w_registry w) (rd_interest rd)" "rd_cap rd \<in> buffer_sizes"
      "state_ok (limits_of (w_cfg w)) (rd_parser rd)" "list_all (event_ok (limits_of (w_cfg w))) (rd_events rd)"
      "rd_done rd \<longrightarrow> is_closed w c \<or> is_closed w' c"
  shows "reader_ok c rd w'"
proof -
  have "cache_ok (w_registry w') (rd_interest rd)"
    using cache_within assms(1-3) by (auto simp: moved_def)
  moreover have "w_cfg w' = w_cfg w" "is_closed w c \<Longrightarrow> is_closed w' c"
    using assms(1) by (auto simp: moved_def keeps_def is_closed_def)
  ultimately show ?thesis using assms(4-) by (auto simp: reader_ok_def)
qed

lemma on_tick_moved:
  assumes "on_tick E c rd w = (rd', w')"
  shows "moved c w w' \<and> (rd' = rd \<or> rd' = rd\<lparr>rd_done := True\<rparr> \<and> is_closed w' c)"
proof -
  have p: "same_wf w (note_ping_sent c w)" "keeps c w (note_ping_sent c w)"
    unfolding note_ping_sent_def by (rule upd_same_wf keeps_upd; simp)+
  have "moved c w (send E c f (note_ping_sent c w))" for f
    using p by (intro moved_same same_wf_trans [OF p(1) send_same_wf] keeps_send_after) (simp_all add: note_ping_sent_def)
  moreover have "moved c w (finish c r1 h1 (finish c r2 h2 (send E c f w)))" for r1 h1 r2 h2 f
    by (rule moved_close(2)) (simp_all add: send_same_wf)
  ultimately show ?thesis using assms by (auto simp: on_tick_def closing finish_closed split: if_splits)
qed

lemma on_read_moved:
  assumes "on_read E c bs rd w = (rd', w')" "reader_ok c rd w" "rd_events rd = []"
  shows "moved c w w' \<and> rd_interest rd' = rd_interest rd \<and> rd_cap rd' \<in> buffer_sizes \<and>
    state_ok (limits_of (w_cfg w)) (rd_parser rd') \<and> list_all (event_ok (limits_of (w_cfg w))) (rd_events rd') \<and>
    (rd_done rd' \<longrightarrow> rd_done rd \<or> is_closed w' c)"
proof -
  obtain cap short where a: "adapt (length bs) (rd_cap rd, rd_short rd) = (cap, short)" by (rule prod.exhaust)
  obtain st buf events res
    where f: "feed_into (limits_of (w_cfg w)) (rd_parser rd) (rd_buf rd @ bs) [] = (st, buf, events, res)" by (rule prod_cases4)
  have cap: "cap \<in> buffer_sizes" using adapt_sizes [of "(rd_cap rd, rd_short rd)" "length bs"] a assms(2) by (simp add: reader_ok_def)
  have st: "state_ok (limits_of (w_cfg w)) st" "list_all (event_ok (limits_of (w_cfg w))) events"
    using feed_into_ok(1,2) [OF _ f] assms(2) by (auto simp: reader_ok_def)
  define rd1 where "rd1 = rd\<lparr>rd_cap := cap, rd_short := short, rd_parser := st, rd_buf := buf\<rparr>"
  show ?thesis
  proof (cases res)
    case (Inr u)
    then have "rd' = rd1\<lparr>rd_events := events\<rparr>" "w' = w"
      using assms(1) a f by (simp_all add: on_read_def Let_def rd1_def)
    with cap st show ?thesis by (simp add: rd1_def moved_same same_wf_refl)
  next
    case (Inl err)
    define w1 where "w1 = (case err_line err of Some text \<Rightarrow> send E c (frame_err text) w | None \<Rightarrow> w)"
    have w1: "same_wf w w1" "keeps c w w1" "w_registry w1 = w_registry w"
      by (auto simp: w1_def send_same_wf same_wf_refl split: option.split)
    define w2 where "w2 = close c ''ended'' (close c (''protocol error: '' @ debug_error err) w1)"
    have "on_read E c bs rd w = (if closes err then (rd1\<lparr>rd_done := True\<rparr>, w2) else (rd1, w1))"
      by (simp add: on_read_def a f Inl Let_def rd1_def w1_def w2_def)
    then have eq: "rd' = (if closes err then rd1\<lparr>rd_done := True\<rparr> else rd1)" "w' = (if closes err then w2 else w1)"
      using assms(1) by (auto split: if_splits)
    have "moved c w w2" "is_closed w2 c"
      using moved_close(2) [OF w1] by (simp_all add: w2_def closing finish_closed)
    with moved_same [OF w1] cap st assms(3) show ?thesis by (simp add: eq rd1_def)
  qed
qed

lemma handle_refused:
  assumes "handle E c ev it w = (False, it', ws, w')"
  shows "same_wf w w' \<and> w_registry w' = w_registry w"
proof (cases ev)
  case (Publish subject reply hdr n body hpub)
  with assms show ?thesis
    by (auto simp: handle_def handle_publish_def Let_def same_wf_refl split: if_splits prod.splits)
next
  case (Connect json)
  with assms show ?thesis by (auto simp: handle_def Let_def same_wf_refl split: if_splits prod.splits)
next
  case (HpubAttempt outcome)
  with assms show ?thesis
    by (cases outcome) (auto simp: handle_def send_err_def same_wf_refl send_same_wf split: if_splits)
qed (use assms in \<open>auto simp: handle_def same_wf_refl\<close>)

lemma on_event_moved:
  assumes "on_event E c rd w = (rd', w')" "world_wf {} w" "reader_ok c rd w" "gen_room (reg_size w + 2) (w_registry w)"
  shows "moved c w w' \<and> cache_ok (w_registry w) (rd_interest rd') \<and> rd_cap rd' = rd_cap rd \<and> rd_parser rd' = rd_parser rd \<and>
    set (rd_events rd') \<subseteq> set (rd_events rd) \<and> (rd_done rd' \<longrightarrow> rd_done rd \<or> is_closed w' c)"
proof (cases "rd_events rd")
  case Nil
  with assms(1,3) show ?thesis by (simp add: on_event_def moved_same same_wf_refl reader_ok_def)
next
  case (Cons ev evs)
  obtain ok it stall w1 where h: "handle E c ev (rd_interest rd) w = (ok, it, stall, w1)" by (rule prod_cases4)
  have c: "cache_ok (w_registry w) (rd_interest rd)" using assms(3) by (simp add: reader_ok_def)
  note k = handle_cache [OF assms(2) c assms(4) h]
  show ?thesis
  proof (cases ok)
    case True
    have "moved c w w1"
      using k keeps_handle [OF h] handle_wf [OF assms(2) cache_interest [OF c assms(4)] h] by (simp add: moved_def)
    with True Cons k assms(1) h show ?thesis by (auto simp: on_event_def)
  next
    case False
    with h have "handle E c ev (rd_interest rd) w = (False, it, stall, w1)" by simp
    from handle_refused [OF this] have r: "same_wf w w1" "w_registry w1 = w_registry w" by blast+
    have "moved c w (finish c r False w1)" for r by (rule moved_close(1) [OF r(1) keeps_handle [OF h] r(2)])
    with False Cons k assms(1) h show ?thesis by (auto simp: on_event_def closing finish_closed)
  qed
qed

lemma reader_step_moved:
  assumes "reader_step E c (rd, w) (rd', w')" "world_wf {} w" "reader_ok c rd w" "gen_room (reg_size w + 2) (w_registry w)"
  shows "moved c w w' \<and> reader_ok c rd' w'"
proof -
  note rd = assms(3) [unfolded reader_ok_def]
  note ok = reader_ok_moved [OF _ assms(4)]
  have stop: "moved c w w' \<and> reader_ok c rd' w'" if "(rd', w') = (rd\<lparr>rd_done := True\<rparr>, finish c r1 h1 w1)"
    "w1 = w \<or> w1 = finish c r2 h2 w" for r1 h1 w1 r2 h2
  proof -
    have "moved c w w'" using that moved_close [OF same_wf_refl [of w] keeps_refl [of c] refl] by auto
    with that rd show ?thesis by (auto intro!: ok simp: finish_closed)
  qed
  show ?thesis
  proof (rule reader_stepE [OF assms(1)], goal_cases)
    case 1
    show ?thesis by (rule stop [of _ False w]) (use 1(1) in \<open>simp_all add: on_wake_def closing\<close>)
  next
    case 2
    from on_tick_moved [OF 2(1) [symmetric]] rd show ?thesis by (auto intro!: ok)
  next
    case (3 bs)
    from on_read_moved [OF 3(1) [symmetric] assms(3) 3(3)] rd show ?thesis by (auto intro!: ok)
  next
    case 4
    show ?thesis
      by (rule stop [of _ False "finish c ''client closed'' False w"]) (use 4(1) in \<open>auto simp: on_eof_def closing\<close>)
  next
    case (5 e)
    show ?thesis
      by (rule stop [of _ False "finish c (''read error: '' @ e) False w"]) (use 5(1) in \<open>auto simp: on_error_def closing\<close>)
  next
    case 6
    from on_event_moved [OF 6(1) [symmetric] assms(2-4)] rd show ?thesis
      by (auto intro!: ok simp: list_all_iff subset_iff)
  next
    case (7 d ds)
    with rd have "moved c w w'" by (simp add: moved_same same_wf_refl)
    with 7 rd show ?thesis by (auto intro!: ok)
  qed
qed

section \<open>The writer\<close>

lemma moved_out:
  assumes "ob_gone ob = ob_gone (c_out (w_conns w d))" "ob_tx ob = None \<longleftrightarrow> ob_tx (c_out (w_conns w d)) = None"
  shows "same_wf w (upd_conn d (\<lambda>k. k\<lparr>c_out := ob\<rparr>) w)" "keeps c w (upd_conn d (\<lambda>k. k\<lparr>c_out := ob\<rparr>) w)"
  using same_wf_out [OF assms] by (auto intro: keeps_upd)

lemma moved_after:
  "moved c w w1 \<Longrightarrow> same_wf w1 w2 \<Longrightarrow> keeps c w1 w2 \<Longrightarrow> w_registry w2 = w_registry w1 \<Longrightarrow> moved c w w2"
  by (auto simp: moved_def world_wf_cong intro: keeps_trans)

lemma return_moved:
  assumes "moved c w w1" "writer_return E c wr w1 = (wr', w')"
  shows "moved c w w' \<and> wr_done wr' \<and> (is_closed w' c \<longleftrightarrow> is_closed w1 c)"
proof -
  let ?f = "\<lambda>k. k\<lparr>c_out := (c_out k)\<lparr>ob_chan := ch_drop E (ob_chan (c_out k))\<rparr>\<rparr>"
  have w': "w' = upd_conn c ?f w1" "wr_done wr'" using assms(2) by (auto simp: writer_return_def)
  have "same_wf w1 (upd_conn c ?f w1)" "keeps c w1 (upd_conn c ?f w1)"
    by (auto simp: same_wf_def intro: keeps_upd)
  with moved_after [OF assms(1)] show ?thesis unfolding w' using w'(2) by (simp add: is_closed_def)
qed

lemma report_same: "same_wf w (report c n w)" "keeps c w (report c n w)" "w_registry (report c n w) = w_registry w"
  by (auto simp: report_def drained_def Let_def same_wf_def intro: keeps_upd)

lemma recv_moved:
  assumes "writer_recv E c wr w = Some (wr', w')"
  shows "moved c w w' \<and> wr_done wr' = wr_done wr"
proof -
  have "w' = w \<or> (\<exists>ch. w' = upd_conn c (\<lambda>k. k\<lparr>c_out := (c_out k)\<lparr>ob_chan := ch\<rparr>\<rparr>) w)" "wr_done wr' = wr_done wr"
    using assms by (auto simp: writer_recv_def split: option.splits)
  moreover have "same_wf w (upd_conn c (\<lambda>k. k\<lparr>c_out := (c_out k)\<lparr>ob_chan := ch\<rparr>\<rparr>) w)"
      "keeps c w (upd_conn c (\<lambda>k. k\<lparr>c_out := (c_out k)\<lparr>ob_chan := ch\<rparr>\<rparr>) w)" for ch
    by (auto simp: same_wf_def intro: keeps_upd)
  ultimately show ?thesis by (auto simp: same_wf_refl intro!: moved_same)
qed

text \<open>Every end of the task finds the connection closed or closes it.\<close>

lemma answer_moved:
  assumes "writer_answer E c r wr w = (wr', w')" "\<not> wr_done wr"
  shows "moved c w w' \<and> (wr_done wr' \<longrightarrow> is_closed w' c)"
proof -
  have give_up: ?thesis if "writer_return E c wr (finish c reason hard (report c n w)) = (wr', w')" for reason hard n
    using return_moved [OF moved_close(1) [OF report_same] that] by (simp add: finish_closed)
  show ?thesis
  proof (cases r)
    case (Inl e)
    then show ?thesis
      using assms give_up by (cases e) (auto simp: writer_answer_def closing moved_same same_wf_refl)
  next
    case (Inr n)
    then show ?thesis
      using assms give_up
      by (auto simp: writer_answer_def closing Let_def moved_same report_same split: if_splits)
  qed
qed

lemma writer_step_moved:
  assumes "writer_step E c (wr, w) (wr', w')" "c_hard (w_conns w c) \<longrightarrow> is_closed w c"
  shows "moved c w w' \<and> (wr_done wr' \<longrightarrow> is_closed w' c)"
proof -
  have still: "moved c w w" by (simp add: moved_same same_wf_refl)
  have report: "moved c w (report c n w)" for n by (rule moved_same [OF report_same])
  have stop: "moved c w w' \<and> (wr_done wr' \<longrightarrow> is_closed w' c)"
    if "(wr', w') = writer_stop E c wr1 w" "hard_closed w c" for wr1
    using return_moved [OF report that(1) [unfolded writer_stop_def, symmetric]] that(2) assms(2)
    by (simp add: hard_closed_def is_closed_def report_def)
  show ?thesis
  proof (rule writer_stepE [OF assms(1)], goal_cases)
    case 1
    with recv_moved [OF 1(3)] show ?thesis by simp
  next
    case 2
    have "moved c w (finish c ''written'' False w)" by (rule moved_close(1) [OF same_wf_refl keeps_refl refl])
    from return_moved [OF this 2(1) [unfolded writer_finished_def closing, symmetric]] show ?thesis
      by (simp add: finish_closed)
  next
    case 3
    show ?thesis
    proof (cases "hard_closed w c")
      case True
      with 3(1) have "writer_return E c (wr\<lparr>wr_seen := c_wakes (w_conns w c)\<rparr>) w = (wr', w')"
        by (simp add: writer_wake_idle_def)
      from return_moved [OF still this] True assms(2) show ?thesis by (simp add: hard_closed_def)
    next
      case False
      with 3(1,2) still show ?thesis by (simp add: writer_wake_idle_def)
    qed
  next
    case (4 r)
    show ?thesis
    proof (cases "is_closed w c \<and> hard_closed w c")
      case True
      with 4(1) stop show ?thesis by (simp add: writer_write_def)
    next
      case False
      obtain r' parts where wb: "write_batch r (wr_parts wr) = (r', parts)" by (rule prod.exhaust)
      have "(wr', w') = writer_answer E c r' (attempted r wr parts) w"
        using 4(1) unfolding writer_write_def if_not_P [OF False] wb by simp
      from answer_moved [OF this [symmetric]] 4(2) show ?thesis by simp
    qed
  next
    case 5
    show ?thesis
    proof (cases "is_closed w c \<and> hard_closed w c")
      case True
      with 5(1) stop show ?thesis by (simp add: writer_timeout_def)
    next
      case False
      have "(wr', w') = writer_answer E c (Inl error_at_deadline) (wr\<lparr>wr_parts := write_cancelled (wr_parts wr)\<rparr>) w"
        using 5(1) unfolding writer_timeout_def if_not_P [OF False] .
      from answer_moved [OF this [symmetric]] 5(2) show ?thesis by simp
    qed
  next
    case 6
    then show ?thesis
      using stop still by (auto simp: writer_wake_def Let_def split: if_splits)
  qed
qed

section \<open>The server\<close>

record 'ch Sys =
  sy_world :: "'ch World"
  sy_live :: "nat set"
  sy_reader :: "nat \<Rightarrow> Reader"
  sy_writer :: "nat \<Rightarrow> Writer"

definition sys_new :: "('ch, 'j) Deps \<Rightarrow> Config \<Rightarrow> Rng \<Rightarrow> 'ch Sys" where
  "sys_new E cfg g =
     \<lparr>sy_world = world_new E cfg g, sy_live = {}, sy_reader = (\<lambda>c. reader_new), sy_writer = (\<lambda>c. writer_new)\<rparr>"

text \<open>\<^verbatim>\<open>spawn\<close>: the connection object, with the \<^verbatim>\<open>INFO\<close> line on its queue.\<close>

definition spawn :: "('ch, 'j) Deps \<Rightarrow> nat \<Rightarrow> u64 \<Rightarrow> bytes \<Rightarrow> 'ch World \<Rightarrow> Enqueue \<times> 'ch World" where
  "spawn E c cid line w =
     (let k = conn_new E (w_cfg w) cid in
      case outbox_enqueue E (frame_line line) (c_out k) of
        (r, ob) \<Rightarrow> (r, w\<lparr>w_conns := (w_conns w)(c := k\<lparr>c_out := ob\<rparr>)\<rparr>))"

text \<open>
  The steps of the server. Each step of a task needs a generation counter that cannot run into its
  largest value, as the code assumes; after the reader has ended, the sender is dropped, and the
  timer on the writer's end may close the connection the hard way.
\<close>

inductive sys_step :: "('ch, 'j) Deps \<Rightarrow> 'ch Sys \<Rightarrow> 'ch Sys \<Rightarrow> bool" for E :: "('ch, 'j) Deps" where
  spawned: "c \<notin> sy_live s \<Longrightarrow> spawn E c cid line (sy_world s) = (r, w) \<Longrightarrow> r \<noteq> Dropped \<Longrightarrow>
    sys_step E s (s\<lparr>sy_world := w, sy_live := insert c (sy_live s)\<rparr>)"
| reads: "c \<in> sy_live s \<Longrightarrow> gen_room (reg_size (sy_world s) + 2) (w_registry (sy_world s)) \<Longrightarrow>
    reader_step E c (sy_reader s c, sy_world s) (rd, w) \<Longrightarrow>
    sys_step E s (s\<lparr>sy_world := w, sy_reader := (sy_reader s)(c := rd)\<rparr>)"
| writes: "c \<in> sy_live s \<Longrightarrow> gen_room (reg_size (sy_world s) + 2) (w_registry (sy_world s)) \<Longrightarrow>
    writer_step E c (sy_writer s c, sy_world s) (wr, w) \<Longrightarrow>
    sys_step E s (s\<lparr>sy_world := w, sy_writer := (sy_writer s)(c := wr)\<rparr>)"
| unsent: "c \<in> sy_live s \<Longrightarrow> rd_done (sy_reader s c) \<Longrightarrow>
    sys_step E s (s\<lparr>sy_world := upd_conn c (\<lambda>k. k\<lparr>c_out := (c_out k)\<lparr>ob_tx := None\<rparr>\<rparr>) (sy_world s)\<rparr>)"
| backstop: "c \<in> sy_live s \<Longrightarrow> gen_room (reg_size (sy_world s) + 2) (w_registry (sy_world s)) \<Longrightarrow>
    rd_done (sy_reader s c) \<Longrightarrow> \<not> wr_done (sy_writer s c) \<Longrightarrow>
    sys_step E s (s\<lparr>sy_world := close_now c ''write deadline'' (sy_world s)\<rparr>)"

definition sys_ok :: "'ch Sys \<Rightarrow> bool" where
  "sys_ok s \<longleftrightarrow>
     world_wf {} (sy_world s) \<and>
     (\<forall>c. reader_ok c (sy_reader s c) (sy_world s)) \<and>
     (\<forall>c. wr_done (sy_writer s c) \<longrightarrow> is_closed (sy_world s) c) \<and>
     (\<forall>c. c_hard (w_conns (sy_world s) c) \<longrightarrow> is_closed (sy_world s) c) \<and>
     (\<forall>c. c \<notin> sy_live s \<longrightarrow>
        c_subs (w_conns (sy_world s) c) = [] \<and> \<not> rd_done (sy_reader s c) \<and> \<not> wr_done (sy_writer s c))"

lemma reader_new_ok: "reader_ok c reader_new (world_new E cfg g)"
  by (simp add: reader_ok_def reader_new_def cache_ok_def interest_new_def buffer_sizes_def START_READ_BUF_def)

lemma sys_new_ok: "sys_ok (sys_new E cfg g)"
  using world_new_wf reader_new_ok
  by (auto simp: sys_ok_def sys_new_def writer_new_def reader_new_def world_new_def conn_new_def)

text \<open>A step of connection \<open>c\<close> keeps what it does not own.\<close>

lemma moved_closed: "moved c w w' \<Longrightarrow> is_closed w d \<Longrightarrow> is_closed w' d"
  by (simp add: moved_def keeps_def is_closed_def)

lemma sys_ok_moved:
  assumes "sys_ok s" "c \<in> sy_live s" "moved c (sy_world s) w" "gen_room (reg_size (sy_world s) + 2) (w_registry (sy_world s))"
    and "reader_ok c rd w" "wr_done wr \<longrightarrow> is_closed w c"
    and "sy_world s' = w" "sy_live s' = sy_live s" "sy_reader s' = (sy_reader s)(c := rd)" "sy_writer s' = (sy_writer s)(c := wr)"
  shows "sys_ok s'"
proof -
  have k: "world_wf {} w" "keeps c (sy_world s) w" using assms(1,3) by (auto simp: sys_ok_def moved_def)
  have "reader_ok d (sy_reader s d) w" for d
    using assms(1) reader_ok_moved [OF assms(3,4), of "sy_reader s d" d] by (auto simp: sys_ok_def reader_ok_def)
  with k assms(1,2,5,6) show ?thesis unfolding sys_ok_def assms(7-10) by (auto simp: keeps_def is_closed_def)
qed

lemma sys_reader_moved:
  assumes "sys_ok s" "moved d (sy_world s) w" "gen_room (reg_size (sy_world s) + 2) (w_registry (sy_world s))"
  shows "reader_ok c (sy_reader s c) w"
  using assms(1) reader_ok_moved [OF assms(2,3), of "sy_reader s c" c] by (auto simp: sys_ok_def reader_ok_def)

lemma spawn_ok:
  assumes "sys_ok s" "c \<notin> sy_live s" "spawn E c cid line (sy_world s) = (r, w)"
  shows "sys_ok (s\<lparr>sy_world := w, sy_live := insert c (sy_live s)\<rparr>)"
proof -
  let ?k = "conn_new E (w_cfg (sy_world s)) cid"
  obtain ob where e: "outbox_enqueue E (frame_line line) (c_out ?k) = (r, ob)"
    and w: "w = (sy_world s)\<lparr>w_conns := (w_conns (sy_world s))(c := ?k\<lparr>c_out := ob\<rparr>)\<rparr>"
    using assms(3) by (auto simp: spawn_def Let_def split: prod.splits)
  have ob: "ob_gone ob = False" "ob_tx ob \<noteq> None"
    using e push_keeps by (fastforce simp: outbox_enqueue_def conn_new_def outbox_new_def)+
  have empty: "c_subs (w_conns (sy_world s) c) = []" using assms(1,2) by (simp add: sys_ok_def)
  then have t: "table w = table (sy_world s)" by (auto simp: table_def w fun_eq_iff conn_new_def)
  have "world_wf {} w"
    using assms(1) t ob by (auto simp: sys_ok_def world_wf_def tables_ok_def registered_def w conn_new_def)
  moreover have "is_closed w d = (d \<noteq> c \<and> is_closed (sy_world s) d)" for d by (simp add: w is_closed_def conn_new_def)
  moreover have "c_hard (w_conns w d) = (d \<noteq> c \<and> c_hard (w_conns (sy_world s) d))" for d by (simp add: w conn_new_def)
  moreover have "c_subs (w_conns w d) = c_subs (w_conns (sy_world s) d)" for d using empty by (simp add: w conn_new_def)
  moreover have "w_registry w = w_registry (sy_world s)" "w_cfg w = w_cfg (sy_world s)" by (simp_all add: w)
  ultimately show ?thesis
    using assms(1,2) unfolding sys_ok_def reader_ok_def by (simp (no_asm_simp)) metis
qed

lemma sys_step_ok: "sys_step E s s' \<Longrightarrow> sys_ok s \<Longrightarrow> sys_ok s'"
proof (induction rule: sys_step.induct)
  case (spawned c s cid line r w)
  then show ?case using spawn_ok by blast
next
  case (reads c s rd w)
  have m: "moved c (sy_world s) w" "reader_ok c rd w"
    using reader_step_moved [OF reads(3)] reads(2,4) by (simp_all add: sys_ok_def)
  have "wr_done (sy_writer s c) \<longrightarrow> is_closed w c"
    using reads(4) moved_closed [OF m(1)] by (simp add: sys_ok_def)
  from sys_ok_moved [OF reads(4,1) m(1) reads(2) m(2) this] show ?case by simp
next
  case (writes c s wr w)
  have m: "moved c (sy_world s) w" "wr_done wr \<longrightarrow> is_closed w c"
    using writer_step_moved [OF writes(3)] writes(4) by (simp_all add: sys_ok_def)
  from sys_ok_moved [OF writes(4,1) m(1) writes(2) sys_reader_moved [OF writes(4) m(1) writes(2)] m(2)] show ?case by simp
next
  case (unsent c s)
  then have "is_closed (sy_world s) c" by (simp add: sys_ok_def reader_ok_def)
  then have "ob_tx (c_out (w_conns (sy_world s) c)) = None"
    using unsent(3) by (simp add: sys_ok_def world_wf_def is_closed_def)
  then have "(c_out (w_conns (sy_world s) c))\<lparr>ob_tx := None\<rparr> = c_out (w_conns (sy_world s) c)"
    by (cases "c_out (w_conns (sy_world s) c)") simp
  then have "upd_conn c (\<lambda>k. k\<lparr>c_out := (c_out k)\<lparr>ob_tx := None\<rparr>\<rparr>) (sy_world s) = sy_world s"
    by (simp add: upd_conn_def)
  with unsent(3) show ?case by simp
next
  case (backstop c s)
  let ?w = "close_now c ''write deadline'' (sy_world s)"
  have m: "moved c (sy_world s) ?w" unfolding closing by (rule moved_close(1) [OF same_wf_refl keeps_refl refl])
  have "wr_done (sy_writer s c) \<longrightarrow> is_closed ?w c" using backstop(4) by simp
  from sys_ok_moved [OF backstop(5,1) m backstop(2) sys_reader_moved [OF backstop(5) m backstop(2)] this] show ?case by simp
qed

interpretation server: keeps "sys_step E" sys_ok for E :: "('ch, 'j) Deps"
  by unfold_locales (rule sys_step_ok)

lemma sys_reach_ok: "(sys_step E)\<^sup>*\<^sup>* (sys_new E cfg g) s \<Longrightarrow> sys_ok s"
  by (rule server.reach [OF _ sys_new_ok])

text \<open>Without queue groups a message is offered to all interested subscriptions, and routing starts from the same world.\<close>

lemma route_list_plain:
  assumes "reg_ok (w_registry w)" "interest_ok (w_registry w) it"
    and "\<forall>s\<in>set (interested subject (w_registry w)). s_queue s = None"
  shows "\<exists>it1. route_list subject from it w = (interested subject (w_registry w), it1, w)"
proof -
  define jt where "jt = (if in_generation it \<noteq> r_generation (w_registry w) \<or> in_subject it \<noteq> subject
    then resolve subject (w_registry w) it else it)"
  have "in_subs jt = interested subject (w_registry w)" "\<not> in_queue jt"
    using assms resolve_subs [of "w_registry w" subject it] by (auto simp: jt_def interest_ok_def reg_ok_def)
  then show ?thesis unfolding route_list_def jt_def [symmetric] Let_def by simp
qed

section \<open>Properties\<close>



text \<open>A connection that was closed while its reader still runs a batch can subscribe again: the \<^verbatim>\<open>SUB\<close> is registered
  for the closed connection, and closing it once more does not take it out.\<close>

theorem closed_connection_subscribes:
  assumes "world_wf {} w" "is_closed w c" "c_subs (w_conns w c) = []" "is_valid subject"
    and w'_def: "w' = handle_subscribe E c subject None sid w"
  shows "(\<exists>sub\<in>registered w'. s_conn sub = c \<and> s_sid sub = sid) \<and> is_closed w' c \<and> finish c reason hard w' = w'"
proof -
  let ?sub = "sub_new (w_next w) subject None sid c"
  obtain ok r where i: "insert_sub ?sub (w_registry w) = (ok, r)" by (rule prod.exhaust)
  have sub: "sub_ok ?sub" using assms(4) by (simp add: sub_ok_def sub_new_def)
  have none: "sub_key ?sub \<notin> sub_key ` set (all_subs (r_inner (w_registry w)))"
  proof
    assume "sub_key ?sub \<in> sub_key ` set (all_subs (r_inner (w_registry w)))"
    then obtain t where "t \<in> registered w" "s_conn t = c" by (auto simp: sub_key_def sub_new_def registered_def)
    with world_wfD(3) [OF assms(1), of t] assms(3) show False by (simp add: table_def)
  qed
  note ins = insert_sub_registered [OF world_wfD(1) [OF assms(1)] sub i]
  have "w_registry w' = r"
    using i ins(1) assms(3,4) by (simp add: w'_def handle_subscribe_def Let_def)
  then have "?sub \<in> registered w'" using ins(4) [OF none] by (simp add: registered_def)
  moreover have "is_closed w' c" using keeps_subscribe [of c w E] assms(2) by (simp add: w'_def keeps_def is_closed_def)
  ultimately show ?thesis by (auto simp: finish_def sub_new_def intro!: bexI [of _ ?sub])
qed

theorem closed_connection_subscribes_witness:
  "\<exists>sub\<in>registered (handle_subscribe list_deps 2 ''foo'' None ''9'' (close_slow_consumer 2 (world_new list_deps default_config (rng_new 3)))).
     s_conn sub = 2"
proof -
  let ?w = "close_slow_consumer 2 (world_new list_deps default_config (rng_new 3))"
  have "world_wf {} ?w" by (simp add: close_slow_consumer_def closing finish_wf world_new_wf)
  moreover have "is_closed ?w 2" by (simp add: close_slow_consumer_def closing finish_closed)
  moreover have "c_subs (w_conns ?w 2) = []"
    by (simp add: close_slow_consumer_def closing finish_def Let_def world_new_def conn_new_def is_closed_def)
  moreover have "is_valid ''foo''" by code_simp
  ultimately show ?thesis using closed_connection_subscribes [OF _ _ _ _ refl] by blast
qed

text \<open>C39. Auto-unsubscribe leaves the sid taken: the message that reaches a subscription's limit takes it out of the
  registry, but its connection keeps it in its table, so a later \<^verbatim>\<open>SUB\<close> under the same sid registers
  nothing, whatever its filter.\<close>

theorem spent_sid_stays_taken:
  assumes "world_wf {} w" "deps_ok E" "interest_ok (w_registry w) it" "interested (m_subject msg) (w_registry w) = [sub]"
    and "s_queue sub = None" "eligible w from sub" "conn_room E i n (w_conns w (s_conn sub))" "length (sub_frame w sub msg) \<le> n"
    and "limit (w_cells w (s_addr sub)) \<noteq> 0" "limit (w_cells w (s_addr sub)) = delivered (w_cells w (s_addr sub)) + 1"
    and "route E msg from it w = (cnt, stall, it', w')"
  shows "sub \<notin> registered w' \<and> table w' (s_conn sub) (s_sid sub) = Some sub \<and>
    registered (handle_subscribe E (s_conn sub) subject queue (s_sid sub) w') = registered w'"
proof -
  obtain it1 where "route_list (m_subject msg) from it w = ([sub], it1, w)"
    using route_list_plain [OF world_wfD(1) [OF assms(1)] assms(3), of "m_subject msg" "from"] assms(4,5) by auto
  moreover obtain g expired w1 where g: "give E sub msg [] w = (g, expired, w1)" by (rule prod_cases3)
  moreover obtain r w2 where d: "deliver E sub msg w = (r, w2)" by (rule prod.exhaust)
  moreover have cells: "w_cells w2 = w_cells w"
    using d by (auto simp: deliver_def Let_def upd_conn_def split: if_splits prod.splits)
  moreover note deliver_room(1) [OF assms(2,7,8) d]
  ultimately have e: "expired = [sub]" "w' = w1\<lparr>w_registry := expire [sub] (w_registry w1)\<rparr>"
      "w1 = snd (account_sub sub w2)"
    using assms(6,9-11)
    by (auto simp: route_def give_def account_sub_def account_def accepted_def Let_def split: prod.splits Give.splits)
  note same = deliver_same_wf [OF d]
  have in_reg: "sub \<in> registered w"
    using arg_cong [OF assms(4), of set] by (auto simp: interested_def registered_def)
  have tab: "table w' (s_conn sub) (s_sid sub) = Some sub"
    using world_wfD(3) [OF assms(1) in_reg] same by (simp add: e(2,3) table_def same_wf_def)
  have "inner_ok (r_inner (w_registry w2))"
    using same world_wfD(1) [OF assms(1)] by (simp add: same_wf_def reg_ok_def)
  then have "sub \<notin> registered w'"
    by (simp add: e(2,3) registered_def expire_def registered_remove_sub hits_self)
  moreover have "same_wf w' (handle_subscribe E (s_conn sub) subject queue (s_sid sub) w')"
    using tab by (auto simp: handle_subscribe_def table_def send_err_def Let_def send_same_wf same_wf_refl)
  ultimately show ?thesis using tab by (simp add: same_wf_def registered_def)
qed

text \<open>The run that leads there: subscribe, ask for one message, publish one.\<close>

definition spent_start :: "(bool \<times> bytes list) World" where
  "spent_start =
     set_opts 2 \<lparr>o_verbose = False, o_pedantic = False, o_echo = True, o_headers = True, o_no_responders = False\<rparr>
       (world_new list_deps default_config (rng_new 3))"

definition spent_world :: "(bool \<times> bytes list) World" where
  "spent_world = handle_unsubscribe list_deps 2 ''9'' 1 (handle_subscribe list_deps 2 ''foo'' None ''9'' spent_start)"

lemma spent_world_eq:
  fixes sub :: Sub and w :: "(bool \<times> bytes list) World"
  defines "sub \<equiv> sub_new 0 ''foo'' None ''9'' 2" and "w \<equiv> spent_start"
  shows "spent_world = w\<lparr>w_next := 1, w_cells := (w_cells w)(0 := \<lparr>delivered = 0, limit = 1\<rparr>),
    w_registry := (w_registry w)\<lparr>r_inner := \<lparr>i_literal = [(''foo'', [sub])], i_wildcard = [], i_total = 1\<rparr>, r_generation := 1\<rparr>,
    w_conns := (w_conns w)(2 := (w_conns w 2)\<lparr>c_subs := [(''9'', sub)]\<rparr>)\<rparr>"
proof -
  have o: "opts w 2 = \<lparr>o_verbose = False, o_pedantic = False, o_echo = True, o_headers = True, o_no_responders = False\<rparr>"
    by (simp add: w_def spent_start_def opts_def set_opts_def unpack_pack)
  have v: "is_valid ''foo''" "\<not> has_wildcard ''foo''" by code_simp+
  define w1 where "w1 = w\<lparr>w_next := 1, w_cells := (w_cells w)(0 := cell_new),
    w_registry := (w_registry w)\<lparr>r_inner := \<lparr>i_literal = [(''foo'', [sub])], i_wildcard = [], i_total = 1\<rparr>, r_generation := 1\<rparr>,
    w_conns := (w_conns w)(2 := (w_conns w 2)\<lparr>c_subs := [(''9'', sub)]\<rparr>)\<rparr>"
  have 1: "handle_subscribe list_deps 2 ''foo'' None ''9'' w = w1"
    unfolding handle_subscribe_def o
    by (simp add: v Let_def insert_sub_def inner_insert_def sub_def sub_new_def changed_def upd_conn_def w_def w1_def
        spent_start_def set_opts_def world_new_def registry_new_def conn_new_def)
  have o1: "opts w1 2 = opts w 2" by (simp add: opts_def w1_def)
  have 2: "set_limit 1 cell_new = (False, \<lparr>delivered = 0, limit = 1\<rparr>)" by (simp add: set_limit_def cell_new_def)
  show ?thesis
    unfolding spent_world_def w_def [symmetric] 1
    unfolding handle_unsubscribe_def o1 o using 2 by (simp add: Let_def w1_def sub_def sub_new_def)
qed

theorem spent_sid_stays_taken_witness:
  "\<exists>w'. registered spent_world = {sub_new 0 ''foo'' None ''9'' 2} \<and>
     w' = snd (snd (snd (route list_deps \<lparr>m_subject = ''foo'', m_reply = None, m_hdr = 0, m_body = ''hi''\<rparr> 2 interest_new spent_world))) \<and>
     registered (handle_subscribe list_deps 2 ''bar'' None ''9'' w') = registered w'"
proof -
  let ?msg = "\<lparr>m_subject = ''foo'', m_reply = None, m_hdr = 0, m_body = ''hi''\<rparr>" and ?w = spent_world
  define sub where "sub = sub_new 0 ''foo'' None ''9'' 2"
  have sub: "s_conn sub = 2" "s_sid sub = ''9''" "s_queue sub = None" "s_addr sub = 0" by (simp_all add: sub_def sub_new_def)
  obtain cnt stall it' w' where r: "route list_deps ?msg 2 interest_new ?w = (cnt, stall, it', w')" by (rule prod_cases4)
  have wf: "world_wf {} ?w"
    unfolding spent_world_def spent_start_def set_opts_def
    by (intro handle_unsubscribe_wf handle_subscribe_wf) (simp add: world_wf_cong [OF upd_same_wf] world_new_wf)
  have all: "all_subs (r_inner (w_registry ?w)) = [sub]"
    by (simp add: spent_world_eq sub_def all_subs_def vals_def)
  have m: "matches ''foo'' ''foo''" by code_simp
  have int: "interested (m_subject ?msg) (w_registry ?w) = [sub]"
    using m all by (simp add: interested_def sub_def sub_new_def)
  have it: "interest_ok (w_registry ?w) interest_new" by (simp add: interest_ok_def interest_new_def spent_world_eq)
  obtain fl where conn: "w_conns ?w 2 = (conn_new list_deps default_config (of_nat 2))\<lparr>c_flags := fl, c_subs := [(''9'', sub)]\<rparr>"
    by (simp add: spent_world_eq spent_start_def set_opts_def world_new_def sub_def)
  have echo: "conn_echo ?w 2"
    by (simp add: spent_world_eq spent_start_def set_opts_def conn_echo_def pack_def)
  have el: "eligible ?w 2 sub"
    using echo by (simp add: eligible_def sub is_closed_def) (simp add: conn conn_new_def)
  have room: "conn_room list_deps 0 100 (w_conns ?w (s_conn sub))"
    using conn_new_room [OF deps_ok_list, of 100 default_config "of_nat 2"]
    unfolding sub conn by (simp add: conn_room_def default_config_def CFG_MAX_PENDING_def)
  have len: "length (sub_frame ?w sub ?msg) \<le> 100"
  proof -
    have "length (show_nat 2) = 1" by code_simp
    then show ?thesis by (simp add: sub_frame_def msg_frame_def msg_words_def sub delivered_body_def push_u64_def CRLF_def eval_nat_numeral)
  qed
  have cell: "w_cells ?w (s_addr sub) = \<lparr>delivered = 0, limit = 1\<rparr>" by (simp add: spent_world_eq sub)
  from spent_sid_stays_taken [OF wf deps_ok_list it int sub(3) el room len _ _ r, of "''bar''" None] cell
  have "registered (handle_subscribe list_deps 2 ''bar'' None ''9'' w') = registered w'" by (simp add: sub)
  then show ?thesis using all r by (auto simp: registered_def sub_def)
qed

end
