(* ===== verification/Durations.thy ===== *)
theory Durations
  imports Nats_Prelude
begin

text \<open>
  Durations as text (\<^verbatim>\<open>parse_duration_str\<close> of \<^verbatim>\<open>crates/server/src/config.rs\<close>). The number in front of a
  unit goes through \<^verbatim>\<open>f64\<close>: \<open>f64_trunc\<close> is the correctly rounded double next to a decimal, cut to an
  integer as \<^verbatim>\<open>as u128\<close> does it, with the saturation at the top.
\<close>

section \<open>Decimal to double to integer\<close>

definition is_num :: "byte \<Rightarrow> bool" where
  "is_num b \<longleftrightarrow> is_ascii_digit b \<or> b = CHR ''.''"

text \<open>\<^verbatim>\<open>f64::from_str\<close> on digits and dots: the digits as one number, and how many follow the point.\<close>

definition f64_digits :: "bytes \<Rightarrow> (nat \<times> nat) option" where
  "f64_digits s =
     (case position (\<lambda>b. b = CHR ''.'') s of
        None \<Rightarrow> if s = [] then None else Some (dec_val s, 0)
      | Some i \<Rightarrow>
          let whole = take i s; frac = drop (i + 1) s in
          if list_all is_ascii_digit frac \<and> whole @ frac \<noteq> [] then Some (dec_val (whole @ frac), length frac) else None)"

definition round_half_even :: "nat \<Rightarrow> nat \<Rightarrow> nat" where
  "round_half_even p q =
     (let d = p div q; r = p mod q in
      if 2 * r < q then d else if 2 * r > q then d + 1 else d + d mod 2)"

fun log2 :: "nat \<Rightarrow> nat" where
  "log2 n = (if n < 2 then 0 else 1 + log2 (n div 2))"

declare log2.simps [simp del]

text \<open>The double nearest to \<open>num / den\<close> has 53 significant bits.\<close>

definition f64_trunc :: "nat \<Rightarrow> nat \<Rightarrow> nat" where
  "f64_trunc num den =
     min (2 ^ 128 - 1)
       (if num < den then round_half_even (num * 2 ^ 53) den div 2 ^ 53
        else
          let e = log2 (num div den) in
          if e \<le> 52 then round_half_even (num * 2 ^ (52 - e)) den div 2 ^ (52 - e)
          else round_half_even num (den * 2 ^ (e - 52)) * 2 ^ (e - 52))"

section \<open>The parser\<close>

definition unit_scale :: "bytes \<Rightarrow> nat option" where
  "unit_scale u =
     (if u = ''ns'' then Some 1
      else if u = ''us'' \<or> u = [CHR 0xC2, CHR 0xB5, CHR ''s''] then Some 1000
      else if u = ''ms'' then Some 1000000
      else if u = ''s'' then Some 1000000000
      else if u = ''m'' then Some (60 * 1000000000)
      else if u = ''h'' then Some (3600 * 1000000000)
      else if u = [] then Some 1000000000
      else None)"

text \<open>The loop over \<^verbatim>\<open>number unit\<close>, on what is left of the text; the sum is a \<^verbatim>\<open>u128\<close>.\<close>

function duration_loop :: "bytes \<Rightarrow> nat \<Rightarrow> bool \<Rightarrow> (nat \<times> bool) option" where
  "duration_loop s acc saw =
     (if s = [] then Some (acc, saw)
      else
        let num = takeWhile is_num s; rest = dropWhile is_num s in
        if num = [] then None
        else case f64_digits num of
          None \<Rightarrow> None
        | Some (v, k) \<Rightarrow>
            (case unit_scale (takeWhile (\<lambda>b. \<not> is_num b) rest) of
               None \<Rightarrow> None
             | Some scale \<Rightarrow>
                 duration_loop (dropWhile (\<lambda>b. \<not> is_num b) rest)
                   ((acc + f64_trunc v (10 ^ k) * scale mod 2 ^ 128) mod 2 ^ 128) True))"
  by pat_completeness auto
termination
proof (relation "measure (\<lambda>(s, acc, saw). length s)", goal_cases)
  case (2 s acc saw num rest x2 v k x2a)
  have "length rest < length s"
    using 2(1-4) length_dropWhile_le [of is_num "tl s"] by (cases s) (auto split: if_splits)
  then show ?case using length_dropWhile_le [of "\<lambda>b. \<not> is_num b" rest] by simp
qed simp

declare duration_loop.simps [simp del]

definition parse_duration_str :: "bytes \<Rightarrow> nat option" where
  "parse_duration_str s =
     (if s = [] then None
      else
        let negative = (hd s = CHR ''-'');
            i = (if negative \<or> hd s = CHR ''+'' then 1 else 0)
        in if i \<ge> length s then None
           else case duration_loop (drop i s) 0 False of
             None \<Rightarrow> None
           | Some (acc, saw) \<Rightarrow> if \<not> saw \<or> negative then None else Some (acc mod 2 ^ 64))"

section \<open>Whole numbers\<close>

lemma log2_bounds: "n > 0 \<Longrightarrow> 2 ^ log2 n \<le> n \<and> n < 2 * 2 ^ log2 n"
proof (induction n rule: log2.induct)
  case (1 n)
  show ?case
  proof (cases "n < 2")
    case True
    with 1 show ?thesis by (simp add: log2.simps)
  next
    case False
    with 1 have "2 ^ log2 (n div 2) \<le> n div 2" "n div 2 < 2 * 2 ^ log2 (n div 2)" by auto
    moreover have "log2 n = 1 + log2 (n div 2)" using False by (subst log2.simps) simp
    ultimately show ?thesis by simp arith
  qed
qed

lemma f64_trunc_whole:
  assumes "n < 2 ^ 53"
  shows "f64_trunc n 1 = n"
proof (cases "n = 0")
  case False
  then have "2 ^ log2 n \<le> n" using log2_bounds by simp
  then have "(2::nat) ^ log2 n < 2 ^ 53" using assms by simp
  then have "log2 n \<le> 52" by (simp only: power_strict_increasing_iff)
  with False assms show ?thesis by (simp add: f64_trunc_def round_half_even_def Let_def)
qed (simp add: f64_trunc_def round_half_even_def)

lemma digit_is_num: "is_ascii_digit b \<Longrightarrow> is_num b"
  by (simp add: is_num_def)

lemma show_nat_is_num: "b \<in> set (show_nat n) \<Longrightarrow> is_num b"
  using show_nat_digits digit_is_num by blast

lemma f64_digits_show_nat: "f64_digits (show_nat n) = Some (n, 0)"
proof -
  have "position (\<lambda>b. b = CHR ''.'') (show_nat n) = None"
    using show_nat_digits [of "CHR ''.''" n] by (auto simp: position_None_iff is_ascii_digit_def)
  then show ?thesis by (simp add: f64_digits_def)
qed

text \<open>A unit that is named, and its text has no digit and no point.\<close>

definition named_unit :: "bytes \<Rightarrow> bool" where
  "named_unit u \<longleftrightarrow> u \<in> {''ns'', ''us'', ''ms'', ''s'', ''m'', ''h''}"

definition scale_of :: "bytes \<Rightarrow> nat" where
  "scale_of u = the (unit_scale u)"

lemma named_unit_facts:
  assumes "named_unit u"
  shows "u \<noteq> []" "b \<in> set u \<Longrightarrow> \<not> is_num b" "unit_scale u = Some (scale_of u)"
  using assms by (auto simp: named_unit_def is_num_def is_ascii_digit_def scale_of_def unit_scale_def)

definition duration_text :: "(nat \<times> bytes) list \<Rightarrow> bytes" where
  "duration_text parts = concat (map (\<lambda>(n, u). show_nat n @ u) parts)"

definition duration_sum :: "(nat \<times> bytes) list \<Rightarrow> nat" where
  "duration_sum parts = sum_list (map (\<lambda>(n, u). n * scale_of u) parts)"

lemma duration_text_head: "parts \<noteq> [] \<Longrightarrow> \<exists>b bs. duration_text parts = b # bs \<and> is_ascii_digit b"
proof (cases parts)
  case (Cons p ps)
  obtain n u where p: "p = (n, u)" by (rule prod.exhaust)
  obtain b bs where "show_nat n = b # bs" using show_nat_neq_Nil [of n] by (cases "show_nat n") auto
  with show_nat_digits [of b n] Cons p show ?thesis by (auto simp: duration_text_def)
qed simp

lemma duration_loop_part:
  assumes "named_unit u" "n < 2 ^ 53" "rest = [] \<or> is_num (hd rest)"
  shows "duration_loop (show_nat n @ u @ rest) acc saw = duration_loop rest ((acc + n * scale_of u) mod 2 ^ 128) True"
proof -
  note u = named_unit_facts [OF assms(1)]
  have 1: "takeWhile is_num (show_nat n @ u @ rest) = show_nat n" "dropWhile is_num (show_nat n @ u @ rest) = u @ rest"
    using u(1,2) show_nat_is_num [of _ n] by (cases u; simp)+
  have 2: "takeWhile (\<lambda>b. \<not> is_num b) (u @ rest) = u" "dropWhile (\<lambda>b. \<not> is_num b) (u @ rest) = rest"
    using u(2) assms(3) by (cases rest; simp)+
  show ?thesis
    by (subst duration_loop.simps)
      (simp add: 1 2 f64_digits_show_nat u(3) Let_def f64_trunc_whole [OF assms(2), simplified] mod_simps)
qed

lemma duration_loop_parts:
  assumes "list_all (\<lambda>(n, u). named_unit u \<and> n < 2 ^ 53) parts" "acc < 2 ^ 128"
  shows "duration_loop (duration_text parts) acc saw =
    Some ((acc + duration_sum parts) mod 2 ^ 128, saw \<or> parts \<noteq> [])"
  using assms
proof (induction parts arbitrary: acc saw)
  case Nil
  then show ?case by (simp add: duration_text_def duration_sum_def duration_loop.simps)
next
  case (Cons p parts)
  obtain n u where p: "p = (n, u)" by (rule prod.exhaust)
  have "duration_text parts = [] \<or> is_num (hd (duration_text parts))"
    using duration_text_head [of parts] digit_is_num by (cases "parts = []") (auto simp: duration_text_def)
  then have "duration_loop (duration_text (p # parts)) acc saw =
      duration_loop (duration_text parts) ((acc + n * scale_of u) mod 2 ^ 128) True"
    using duration_loop_part [of u n "duration_text parts" acc saw] Cons.prems(1) p by (simp add: duration_text_def)
  also have "\<dots> = Some (((acc + n * scale_of u) mod 2 ^ 128 + duration_sum parts) mod 2 ^ 128, True)"
    using Cons.IH [of "(acc + n * scale_of u) mod 2 ^ 128" True] Cons.prems(1) by simp
  also have "((acc + n * scale_of u) mod 2 ^ 128 + duration_sum parts) mod 2 ^ 128 = (acc + duration_sum (p # parts)) mod 2 ^ 128"
    by (simp add: duration_sum_def p mod_simps ac_simps)
  finally show ?case by simp
qed

lemma duration_of_parts:
  assumes "list_all (\<lambda>(n, u). named_unit u \<and> n < 2 ^ 53) parts" "parts \<noteq> []"
  shows "parse_duration_str (duration_text parts) = Some (duration_sum parts mod 2 ^ 64)"
proof -
  obtain b bs where b: "duration_text parts = b # bs" "is_ascii_digit b" using duration_text_head [OF assms(2)] by blast
  have "(duration_sum parts mod 2 ^ 128) mod 2 ^ 64 = duration_sum parts mod 2 ^ 64"
    by (rule mod_mod_cancel) (simp add: le_imp_power_dvd)
  moreover have "b \<noteq> CHR ''-''" "b \<noteq> CHR ''+''" using b(2) by (auto simp: is_ascii_digit_def)
  ultimately show ?thesis
    using duration_loop_parts [OF assms(1), of 0 False] assms(2) b(1) by (simp add: parse_duration_str_def Let_def)
qed

section \<open>Properties\<close>

text \<open>A duration written with whole numbers below \<^verbatim>\<open>2^53\<close> and named units means the sum of its parts, in
  nanoseconds, modulo \<^verbatim>\<open>2^64\<close>; a fraction is cut off, so one and a half seconds is one second.\<close>

theorem durations_add_up:
  "(list_all (\<lambda>(n, u). named_unit u \<and> n < 2 ^ 53) parts \<and> parts \<noteq> [] \<longrightarrow>
     parse_duration_str (duration_text parts) = Some (duration_sum parts mod 2 ^ 64)) \<and>
   parse_duration_str ''1.5s'' = Some 1000000000 \<and> parse_duration_str ''-1s'' = None"
proof -
  have "parse_duration_str ''1.5s'' = Some 1000000000" "parse_duration_str ''-1s'' = None" by code_simp+
  then show ?thesis using duration_of_parts by blast
qed

theorem durations_add_up_witness: "parse_duration_str ''2m30s'' = Some 150000000000"
proof -
  have t: "duration_text [(2, ''m''), (30, ''s'')] = ''2m30s''" "duration_sum [(2, ''m''), (30, ''s'')] mod 2 ^ 64 = 150000000000"
    by code_simp+
  show ?thesis using durations_add_up [of "[(2, ''m''), (30, ''s'')]"] unfolding t by (simp add: named_unit_def)
qed

end
