(* ===== verification/Config_File.thy ===== *)
theory Config_File
  imports Config Durations
begin

text \<open>
  The configuration file (\<^verbatim>\<open>parse_config\<close> of \<^verbatim>\<open>crates/server/src/config.rs\<close>): lines \<^verbatim>\<open>key: value\<close>, comments,
  quoted strings, integers, booleans and durations, with the error texts. Text is a byte string, and
  white space is the ASCII white space of \<^verbatim>\<open>char::is_whitespace\<close>.
\<close>

section \<open>Strings\<close>

definition is_whitespace :: "byte \<Rightarrow> bool" where
  "is_whitespace b \<longleftrightarrow> b = SP \<or> 9 \<le> (of_char b :: nat) \<and> (of_char b :: nat) \<le> 13"

definition trim_matches :: "(byte \<Rightarrow> bool) \<Rightarrow> bytes \<Rightarrow> bytes" where
  "trim_matches p s = rev (dropWhile p (rev (dropWhile p s)))"

definition trim :: "bytes \<Rightarrow> bytes" where
  "trim s = trim_matches is_whitespace s"

definition trim_end_matches :: "byte \<Rightarrow> bytes \<Rightarrow> bytes" where
  "trim_end_matches c s = rev (dropWhile (\<lambda>b. b = c) (rev s))"

text \<open>\<^verbatim>\<open>str::lines\<close>: without the line ends, and without an empty piece after the last one.\<close>

definition strip_cr :: "bytes \<Rightarrow> bytes" where
  "strip_cr l = (if l \<noteq> [] \<and> last l = CR then butlast l else l)"

definition text_lines :: "bytes \<Rightarrow> bytes list" where
  "text_lines s =
     (let ls = split_on (\<lambda>b. b = LF) s
      in map strip_cr (butlast ls) @ (if last ls = [] then [] else [last ls]))"

text \<open>The \<^verbatim>\<open>Debug\<close> form of an ASCII string.\<close>

definition hex_digit :: "nat \<Rightarrow> byte" where
  "hex_digit d = (if d < 10 then digit_char d else char_of (87 + d))"

definition debug_char :: "byte \<Rightarrow> bytes" where
  "debug_char b =
     (let n = (of_char b :: nat); esc = (\<lambda>c. [CHR 0x5C, c]) in
      if b = CHR 0x22 \<or> b = CHR 0x5C then esc b
      else if b = LF then esc (CHR ''n'') else if b = CR then esc (CHR ''r'')
      else if b = TAB then esc (CHR ''t'') else if n = 0 then esc (CHR ''0'')
      else if n < 16 then esc (CHR ''u'') @ [CHR 0x7B, hex_digit n, CHR 0x7D]
      else if n < 32 \<or> n = 127 then esc (CHR ''u'') @ [CHR 0x7B, hex_digit (n div 16), hex_digit (n mod 16), CHR 0x7D]
      else [b])"

definition debug_str :: "bytes \<Rightarrow> bytes" where
  "debug_str s = [CHR 0x22] @ concat (map debug_char s) @ [CHR 0x22]"

section \<open>Values\<close>

definition is_quote :: "byte \<Rightarrow> bool" where
  "is_quote c \<longleftrightarrow> c = CHR 0x22 \<or> c = CHR 0x27"

definition unquote :: "bytes \<Rightarrow> bytes" where
  "unquote v = trim_matches is_quote (trim (trim_end_matches (CHR '','') (trim v)))"

definition parse_string :: "bytes \<Rightarrow> bytes + bytes" where
  "parse_string v = Inr (unquote v)"

definition hex_val :: "byte \<Rightarrow> nat option" where
  "hex_val c =
     (let n = (of_char c :: nat) in
      if 48 \<le> n \<and> n \<le> 57 then Some (n - 48)
      else if 65 \<le> n \<and> n \<le> 70 then Some (n - 55)
      else if 97 \<le> n \<and> n \<le> 102 then Some (n - 87) else None)"

text \<open>\<^verbatim>\<open>i64::from_str_radix(s, 16)\<close>.\<close>

definition parse_hex :: "bytes \<Rightarrow> int option" where
  "parse_hex s =
     (let neg = (s \<noteq> [] \<and> hd s = CHR ''-'');
          ds = (if s \<noteq> [] \<and> (hd s = CHR ''-'' \<or> hd s = CHR ''+'') then tl s else s);
          m = foldl (\<lambda>n d. n * 16 + the (hex_val d)) 0 ds;
          v = (if neg then - int m else int m)
      in if ds \<noteq> [] \<and> list_all (\<lambda>d. hex_val d \<noteq> None) ds \<and> - (2 ^ 63) \<le> v \<and> v < 2 ^ 63 then Some v else None)"

definition parse_int :: "bytes \<Rightarrow> bytes + int" where
  "parse_int v =
     (let s = unquote v; bad = Inl (''expected an integer but got '' @ s) in
      if starts_with ''0x'' s \<or> starts_with ''0X'' s
      then (case parse_hex (drop 2 s) of Some n \<Rightarrow> Inr n | None \<Rightarrow> bad)
      else (case parse_signed 64 s of Some n \<Rightarrow> Inr n | None \<Rightarrow> bad))"

definition parse_bool :: "bytes \<Rightarrow> bytes + bool" where
  "parse_bool v =
     (let s = unquote v in
      if s = ''true'' \<or> s = ''on'' \<or> s = ''yes'' then Inr True
      else if s = ''false'' \<or> s = ''off'' \<or> s = ''no'' then Inr False
      else Inl (''expected a boolean but got '' @ s))"

text \<open>A duration, in nanoseconds, and the warnings so far.\<close>

definition parse_duration :: "bytes \<Rightarrow> bytes \<Rightarrow> bytes list \<Rightarrow> bytes + (nat \<times> bytes list)" where
  "parse_duration v field warnings =
     (let s = unquote v;
          quoted = (starts_with [CHR 0x22] (trim v) \<or> starts_with [CHR 0x27] (trim v));
          text = (case parse_duration_str s of
                    Some d \<Rightarrow> Inr (d, warnings)
                  | None \<Rightarrow> Inl (''error parsing '' @ field @ '': invalid duration '' @ debug_str s))
      in if quoted then text
         else case parse_signed 64 s of
           Some secs \<Rightarrow>
             Inr (unat (word_of_int secs :: u64) * 10 ^ 9, warnings @ [field @ '' should be converted to a duration''])
         | None \<Rightarrow> text)"

section \<open>The file\<close>

text \<open>\<^verbatim>\<open>as i32\<close> and \<^verbatim>\<open>as u64\<close> of an \<^verbatim>\<open>i64\<close>.\<close>

definition as_i32 :: "int \<Rightarrow> int" where
  "as_i32 n = signed_take_bit 31 n"

text \<open>\<^verbatim>\<open>cfg.field = parse(value)?\<close>.\<close>

definition assign :: "bytes + 'a \<Rightarrow> ('a \<Rightarrow> Config) \<Rightarrow> bytes list \<Rightarrow> bytes + (Config \<times> bytes list)" where
  "assign r f warnings = (case r of Inl e \<Rightarrow> Inl e | Inr x \<Rightarrow> Inr (f x, warnings))"

definition assign_duration ::
    "bytes + (nat \<times> bytes list) \<Rightarrow> (nat \<Rightarrow> Config) \<Rightarrow> bytes + (Config \<times> bytes list)" where
  "assign_duration r f = (case r of Inl e \<Rightarrow> Inl e | Inr (d, warnings) \<Rightarrow> Inr (f d, warnings))"

definition set_field :: "bytes \<Rightarrow> bytes \<Rightarrow> Config \<Rightarrow> bytes list \<Rightarrow> bytes + (Config \<times> bytes list)" where
  "set_field key value cfg warnings =
     (if key = ''host'' then assign (parse_string value) (\<lambda>x. cfg\<lparr>cfg_host := x\<rparr>) warnings
      else if key = ''port'' then assign (parse_int value) (\<lambda>n. cfg\<lparr>cfg_port := as_i32 n\<rparr>) warnings
      else if key = ''server_name'' \<or> key = ''name''
      then assign (parse_string value) (\<lambda>x. cfg\<lparr>cfg_server_name := Some x\<rparr>) warnings
      else if key = ''max_payload'' then assign (parse_int value) (\<lambda>n. cfg\<lparr>cfg_max_payload := word_of_int n\<rparr>) warnings
      else if key = ''max_pending'' then assign (parse_int value) (\<lambda>n. cfg\<lparr>cfg_max_pending := word_of_int n\<rparr>) warnings
      else if key = ''max_control_line''
      then assign (parse_int value) (\<lambda>n. cfg\<lparr>cfg_max_control_line := word_of_int n\<rparr>) warnings
      else if key = ''max_connections'' \<or> key = ''max_conn''
      then assign (parse_int value) (\<lambda>n. cfg\<lparr>cfg_max_connections := n\<rparr>) warnings
      else if key = ''ping_interval''
      then assign_duration (parse_duration value key warnings) (\<lambda>d. cfg\<lparr>cfg_ping_interval := d\<rparr>)
      else if key = ''write_deadline''
      then assign_duration (parse_duration value key warnings) (\<lambda>d. cfg\<lparr>cfg_write_deadline := d\<rparr>)
      else if key = ''debug'' then assign (parse_bool value) (\<lambda>x. cfg\<lparr>cfg_debug := x\<rparr>) warnings
      else if key = ''trace'' then assign (parse_bool value) (\<lambda>x. cfg\<lparr>cfg_trace := x\<rparr>) warnings
      else Inl (''config: unknown field '' @ [CHR 0x22] @ key @ [CHR 0x22]))"

definition config_line :: "nat \<Rightarrow> bytes \<Rightarrow> Config \<Rightarrow> bytes list \<Rightarrow> bytes + (Config \<times> bytes list)" where
  "config_line idx raw cfg warnings =
     (let line = (case position (\<lambda>b. b = CHR ''#'') raw of Some i \<Rightarrow> trim (take i raw) | None \<Rightarrow> trim raw) in
      if line = [] then Inr (cfg, warnings)
      else case split_once (CHR '':'') line of
        None \<Rightarrow> Inl (''config:'' @ show_nat (idx + 1) @ '':1: expected a key but got a value'')
      | Some (key, value) \<Rightarrow> set_field (trim_matches (\<lambda>b. b = CHR 0x22) (trim key)) value cfg warnings)"

fun config_loop :: "nat \<Rightarrow> bytes list \<Rightarrow> Config \<Rightarrow> bytes list \<Rightarrow> bytes + (Config \<times> bytes list)" where
  "config_loop idx [] cfg warnings = Inr (cfg, warnings)"
| "config_loop idx (raw # raws) cfg warnings =
     (case config_line idx raw cfg warnings of
        Inl e \<Rightarrow> Inl e
      | Inr (cfg', warnings') \<Rightarrow> config_loop (idx + 1) raws cfg' warnings')"

definition parse_config :: "bytes \<Rightarrow> bytes + (Config \<times> bytes list)" where
  "parse_config s = config_loop 0 (text_lines s) default_config []"

section \<open>Writing a file\<close>

definition show_int :: "int \<Rightarrow> bytes" where
  "show_int n = (if n < 0 then CHR ''-'' # show_nat (nat (- n)) else show_nat (nat n))"

definition quote :: "bytes \<Rightarrow> bytes" where
  "quote s = [CHR 0x22] @ s @ [CHR 0x22]"

definition config_entries :: "Config \<Rightarrow> (bytes \<times> bytes) list" where
  "config_entries cfg =
     [(''host'', quote (cfg_host cfg)), (''port'', show_int (cfg_port cfg))] @
     (case cfg_server_name cfg of Some n \<Rightarrow> [(''server_name'', quote n)] | None \<Rightarrow> []) @
     [(''max_payload'', show_nat (unat (cfg_max_payload cfg))), (''max_pending'', show_nat (unat (cfg_max_pending cfg))),
      (''max_control_line'', show_nat (unat (cfg_max_control_line cfg))),
      (''max_connections'', show_int (cfg_max_connections cfg)),
      (''ping_interval'', quote (show_nat (cfg_ping_interval cfg) @ ''ns'')),
      (''write_deadline'', quote (show_nat (cfg_write_deadline cfg) @ ''ns'')),
      (''debug'', if cfg_debug cfg then ''true'' else ''false''), (''trace'', if cfg_trace cfg then ''on'' else ''off'')]"

definition entry_line :: "bytes \<times> bytes \<Rightarrow> bytes" where
  "entry_line e = fst e @ '': '' @ snd e"

definition render_config :: "Config \<Rightarrow> bytes" where
  "render_config cfg = concat (map (\<lambda>e. entry_line e @ [LF]) (config_entries cfg))"

text \<open>A name that a quoted value of the file can carry, and the options that have a place in a file.\<close>

definition plain_name :: "bytes \<Rightarrow> bool" where
  "plain_name s \<longleftrightarrow> CHR ''#'' \<notin> set s \<and> LF \<notin> set s \<and> (s \<noteq> [] \<longrightarrow> \<not> is_quote (hd s) \<and> \<not> is_quote (last s))"

definition in_file :: "Config \<Rightarrow> bool" where
  "in_file cfg \<longleftrightarrow>
     plain_name (cfg_host cfg) \<and> (case cfg_server_name cfg of Some n \<Rightarrow> plain_name n | None \<Rightarrow> True) \<and>
     cfg_ports_file_dir cfg = None \<and> - (2 ^ 31) \<le> cfg_port cfg \<and> cfg_port cfg < 2 ^ 31 \<and>
     - (2 ^ 63) \<le> cfg_max_connections cfg \<and> cfg_max_connections cfg < 2 ^ 63 \<and>
     unat (cfg_max_payload cfg) < 2 ^ 63 \<and> unat (cfg_max_pending cfg) < 2 ^ 63 \<and>
     unat (cfg_max_control_line cfg) < 2 ^ 63 \<and>
     cfg_ping_interval cfg < 2 ^ 53 \<and> cfg_write_deadline cfg < 2 ^ 53"

section \<open>Reading a file back\<close>

lemma trim_matches_inside:
  assumes "list_all p a" "list_all p b" "v \<noteq> [] \<longrightarrow> \<not> p (hd v) \<and> \<not> p (last v)"
  shows "trim_matches p (a @ v @ b) = v"
proof (cases "v = []")
  case True
  with assms have "dropWhile p (a @ v @ b) = []" by (simp only: dropWhile_eq_Nil_conv) (auto simp: list_all_iff)
  then show ?thesis using True by (simp only: trim_matches_def rev.simps dropWhile.simps)
next
  case False
  with assms have "dropWhile p (a @ v @ b) = v @ b"
    by (cases v) (simp_all add: dropWhile_append2 list_all_iff)
  moreover have "dropWhile p (rev b @ rev v) = rev v"
    using False assms by (subst dropWhile_append2) (auto simp: list_all_iff hd_rev dropWhile_eq_self_iff)
  ultimately show ?thesis by (simp add: trim_matches_def)
qed

text \<open>A value is written bare when its two ends are neither white space, nor quotes, and it does not end in a comma.\<close>

definition bare :: "bytes \<Rightarrow> bool" where
  "bare v \<longleftrightarrow> v \<noteq> [] \<and> \<not> is_whitespace (hd v) \<and> \<not> is_whitespace (last v) \<and> last v \<noteq> CHR '',''"

lemma trim_end_matches_other: "v \<noteq> [] \<Longrightarrow> last v \<noteq> c \<Longrightarrow> trim_end_matches c v = v"
  by (cases v rule: rev_cases) (simp_all add: trim_end_matches_def)

lemma trim_bare: "bare v \<Longrightarrow> trim v = v" "bare v \<Longrightarrow> trim (SP # v) = v"
  using trim_matches_inside [of is_whitespace "[]" "[]" v] trim_matches_inside [of is_whitespace "[SP]" "[]" v]
  by (simp_all add: trim_def bare_def is_whitespace_def)

lemma unquote_bare: "bare v \<Longrightarrow> unquote (SP # v) = trim_matches is_quote v"
  by (simp add: unquote_def trim_bare trim_end_matches_other) (simp add: bare_def trim_end_matches_other trim_bare)

lemma bare_quote: "bare (quote s)"
  by (simp add: bare_def quote_def is_whitespace_def)

lemma unquote_quote: "s \<noteq> [] \<longrightarrow> \<not> is_quote (hd s) \<and> \<not> is_quote (last s) \<Longrightarrow> unquote (SP # quote s) = s"
  using trim_matches_inside [of is_quote "[CHR 0x22]" "[CHR 0x22]" s]
  by (simp add: unquote_bare bare_quote) (simp add: quote_def is_quote_def)

lemma digit_plain:
  assumes "is_ascii_digit b"
  shows "\<not> is_quote b" "\<not> is_whitespace b" "b \<noteq> CHR '',''" "b \<noteq> CHR ''#''" "b \<noteq> LF" "b \<noteq> CR" "b \<noteq> CHR ''-''" "b \<noteq> CHR ''+''"
    "b \<noteq> CHR ''x''" "b \<noteq> CHR ''X''"
  using assms by (auto simp: is_ascii_digit_def is_quote_def is_whitespace_def)

lemma show_nat_ends_digit: "is_ascii_digit (hd (show_nat n))" "is_ascii_digit (last (show_nat n))"
  using show_nat_digits [of _ n] by simp_all

lemma show_int_ends:
  "show_int n \<noteq> []" "hd (show_int n) = CHR ''-'' \<or> is_ascii_digit (hd (show_int n))" "is_ascii_digit (last (show_int n))"
  by (simp_all add: show_int_def show_nat_ends_digit)

lemma unquote_show_int: "unquote (SP # show_int n) = show_int n"
proof -
  note e = show_int_ends [of n] digit_plain [OF show_int_ends(3) [of n]] digit_plain [of "hd (show_int n)"]
  have 1: "\<not> is_whitespace (hd (show_int n))" "\<not> is_quote (hd (show_int n))"
    using e by (auto simp: is_whitespace_def is_quote_def)
  then have "bare (show_int n)" using e by (simp add: bare_def)
  then show ?thesis
    using unquote_bare trim_matches_inside [of is_quote "[]" "[]" "show_int n"] e 1 by simp
qed

lemma parse_signed_show_int:
  assumes "- (2 ^ (w - 1)) \<le> n" "n < 2 ^ (w - 1)"
  shows "parse_signed w (show_int n) = Some n"
proof -
  have d: "list_all is_ascii_digit (show_nat k)" for k using show_nat_digits by (auto simp: list_all_iff)
  have h: "hd (show_nat k) \<noteq> CHR ''-''" "hd (show_nat k) \<noteq> CHR ''+''" for k
    using digit_plain [OF show_nat_ends_digit(1) [of k]] by auto
  show ?thesis
  proof (cases "n < 0")
    case True
    then have "- int (nat (- n)) = n" by simp
    then show ?thesis using True assms d by (simp only: parse_signed_def show_int_def Let_def) simp
  next
    case False
    then have "int (nat n) = n" by simp
    then show ?thesis using False assms d h by (simp only: parse_signed_def show_int_def Let_def) simp
  qed
qed

lemma show_int_not_hex: "\<not> starts_with ''0x'' (show_int n)" "\<not> starts_with ''0X'' (show_int n)"
proof -
  have "b \<in> set (show_int n) \<Longrightarrow> b = CHR ''-'' \<or> is_ascii_digit b" for b
    using show_nat_digits by (auto simp: show_int_def split: if_splits)
  then have "CHR ''x'' \<notin> set (show_int n)" "CHR ''X'' \<notin> set (show_int n)"
    by (fastforce simp: is_ascii_digit_def)+
  moreover have "starts_with p s \<Longrightarrow> set p \<subseteq> set s" for p s
    unfolding starts_with_def by (metis set_take_subset)
  ultimately show "\<not> starts_with ''0x'' (show_int n)" "\<not> starts_with ''0X'' (show_int n)" by fastforce+
qed

lemma parse_int_show_int: "- (2 ^ 63) \<le> n \<Longrightarrow> n < 2 ^ 63 \<Longrightarrow> parse_int (SP # show_int n) = Inr n"
  using parse_signed_show_int [of 64 n] by (simp only: parse_int_def unquote_show_int Let_def show_int_not_hex if_False simp_thms) simp

lemma show_nat_int: "show_nat n = show_int (int n)"
  by (simp add: show_int_def)

lemma parse_duration_ns:
  assumes "d < 2 ^ 53"
  shows "parse_duration (SP # quote (show_nat d @ ''ns'')) field ws = Inr (d, ws)"
proof -
  have u: "unquote (SP # quote (show_nat d @ ''ns'')) = show_nat d @ ''ns''"
    using digit_plain [OF show_nat_ends_digit(1) [of d]] by (intro unquote_quote) (simp add: is_quote_def)
  have "parse_duration_str (show_nat d @ ''ns'') = Some d"
    using duration_of_parts [of "[(d, ''ns'')]"] assms
    by (simp add: duration_text_def duration_sum_def named_unit_def scale_of_def unit_scale_def)
  then show ?thesis
    by (simp add: parse_duration_def u trim_bare [OF bare_quote] Let_def) (simp add: quote_def starts_with_def)
qed

lemma as_i32_small: "- (2 ^ 31) \<le> n \<Longrightarrow> n < 2 ^ 31 \<Longrightarrow> as_i32 n = n"
  unfolding as_i32_def by (rule signed_take_bit_int_eq_self) simp_all

text \<open>A line of the file, and the lines of a text.\<close>

definition plain_key :: "bytes \<Rightarrow> bool" where
  "plain_key k \<longleftrightarrow>
     k \<noteq> [] \<and> list_all (\<lambda>b. \<not> is_whitespace b \<and> b \<noteq> CHR 0x22 \<and> b \<noteq> CHR ''#'' \<and> b \<noteq> CHR '':'') k"

definition line_value :: "bytes \<Rightarrow> bool" where
  "line_value v \<longleftrightarrow> bare v \<and> CHR ''#'' \<notin> set v \<and> LF \<notin> set v"

lemma plain_key_ends:
  assumes "plain_key k"
  shows "k \<noteq> []" "\<not> is_whitespace (hd k)" "\<not> is_whitespace (last k)" "hd k \<noteq> CHR 0x22" "last k \<noteq> CHR 0x22"
  using assms by (auto simp: plain_key_def list_all_iff)

lemma entry_line_clean:
  assumes "plain_key k" "line_value v"
  shows "LF \<notin> set (entry_line (k, v))" "CHR ''#'' \<notin> set (entry_line (k, v))" "strip_cr (entry_line (k, v)) = entry_line (k, v)"
    "trim (entry_line (k, v)) = entry_line (k, v)"
proof -
  have ws: "is_whitespace LF" "is_whitespace CR" by (simp_all add: is_whitespace_def)
  have "\<not> is_whitespace (last v)" "v \<noteq> []" using assms(2) by (simp_all add: line_value_def bare_def)
  then have "last (entry_line (k, v)) \<noteq> CR" using ws(2) by (auto simp: entry_line_def)
  then show "strip_cr (entry_line (k, v)) = entry_line (k, v)" by (simp add: strip_cr_def)
  show "trim (entry_line (k, v)) = entry_line (k, v)"
    using trim_matches_inside [of is_whitespace "[]" "[]" "entry_line (k, v)"] plain_key_ends [OF assms(1)]
      \<open>\<not> is_whitespace (last v)\<close> \<open>v \<noteq> []\<close> by (simp add: trim_def entry_line_def)
  have "LF \<notin> set k" "CHR ''#'' \<notin> set k" using assms(1) ws(1) by (auto simp: plain_key_def list_all_iff)
  then show "LF \<notin> set (entry_line (k, v))" "CHR ''#'' \<notin> set (entry_line (k, v))"
    using assms(2) by (simp_all add: entry_line_def line_value_def)
qed

lemma split_once_first: "c \<notin> set a \<Longrightarrow> split_once c (a @ c # b) = Some (a, b)"
proof -
  assume "c \<notin> set a"
  then have "position (\<lambda>b. b = c) a = None" by (auto simp: position_None_iff)
  then show ?thesis by (simp add: split_once_def position_append)
qed

lemma config_line_entry:
  assumes "plain_key k" "line_value v"
  shows "config_line idx (entry_line (k, v)) cfg ws = set_field k (SP # v) cfg ws"
proof -
  have p: "position (\<lambda>b. b = CHR ''#'') (entry_line (k, v)) = None"
    using entry_line_clean(2) [OF assms] by (auto simp: position_None_iff)
  have s: "split_once (CHR '':'') (entry_line (k, v)) = Some (k, SP # v)"
    using split_once_first [of "CHR '':''" k "SP # v"] assms(1) by (auto simp: entry_line_def plain_key_def list_all_iff)
  have k: "trim_matches (\<lambda>b. b = CHR 0x22) (trim k) = k"
    using plain_key_ends [OF assms(1)] trim_matches_inside [of is_whitespace "[]" "[]" k]
      trim_matches_inside [of "\<lambda>b. b = CHR 0x22" "[]" "[]" k] by (simp add: trim_def)
  have n: "entry_line (k, v) \<noteq> []" by (simp add: entry_line_def)
  show ?thesis by (simp add: config_line_def p s k n entry_line_clean(4) [OF assms])
qed

lemma text_lines_ended:
  assumes "\<forall>l\<in>set ls. LF \<notin> set l \<and> strip_cr l = l"
  shows "text_lines (concat (map (\<lambda>l. l @ [LF]) ls)) = ls"
proof -
  have "split_on (\<lambda>b. b = LF) (concat (map (\<lambda>l. l @ [LF]) ls)) = ls @ [[]]"
    using assms
  proof (induction ls)
    case (Cons l ls)
    then show ?case using split_on_append_sep [of l "\<lambda>b. b = LF" LF "concat (map (\<lambda>l. l @ [LF]) ls)"] by auto
  qed simp
  moreover have "map strip_cr ls = ls" using assms by (simp add: map_idI)
  ultimately show ?thesis by (simp add: text_lines_def)
qed

text \<open>The fields of a file one after the other.\<close>

fun set_fields :: "(bytes \<times> bytes) list \<Rightarrow> Config \<Rightarrow> bytes list \<Rightarrow> bytes + (Config \<times> bytes list)" where
  "set_fields [] cfg ws = Inr (cfg, ws)"
| "set_fields (e # es) cfg ws =
     (case set_field (fst e) (SP # snd e) cfg ws of Inl err \<Rightarrow> Inl err | Inr (cfg', ws') \<Rightarrow> set_fields es cfg' ws')"

lemma config_loop_entries:
  "\<forall>e\<in>set es. plain_key (fst e) \<and> line_value (snd e) \<Longrightarrow>
   config_loop idx (map entry_line es) cfg ws = set_fields es cfg ws"
proof (induction es arbitrary: idx cfg ws)
  case (Cons e es)
  then show ?case using config_line_entry [of "fst e" "snd e"] by (auto split: sum.split)
qed simp

lemma parse_config_entries:
  assumes "\<forall>e\<in>set es. plain_key (fst e) \<and> line_value (snd e)"
  shows "parse_config (concat (map (\<lambda>e. entry_line e @ [LF]) es)) = set_fields es default_config []"
proof -
  have "\<forall>l\<in>set (map entry_line es). LF \<notin> set l \<and> strip_cr l = l"
    using assms entry_line_clean(1,3) by fastforce
  from text_lines_ended [OF this] have "text_lines (concat (map (\<lambda>e. entry_line e @ [LF]) es)) = map entry_line es"
    by (simp add: comp_def)
  then show ?thesis by (simp add: parse_config_def config_loop_entries [OF assms])
qed

text \<open>What each entry of a rendered file does.\<close>

lemma set_field_name:
  assumes "plain_name s"
  shows "set_field ''host'' (SP # quote s) cfg ws = Inr (cfg\<lparr>cfg_host := s\<rparr>, ws)"
    "set_field ''server_name'' (SP # quote s) cfg ws = Inr (cfg\<lparr>cfg_server_name := Some s\<rparr>, ws)"
  using assms unquote_quote [of s] by (simp_all add: set_field_def assign_def parse_string_def plain_name_def)

lemma set_field_int:
  "- (2 ^ 31) \<le> n \<Longrightarrow> n < 2 ^ 31 \<Longrightarrow> set_field ''port'' (SP # show_int n) cfg ws = Inr (cfg\<lparr>cfg_port := n\<rparr>, ws)"
  "- (2 ^ 63) \<le> n \<Longrightarrow> n < 2 ^ 63 \<Longrightarrow>
     set_field ''max_connections'' (SP # show_int n) cfg ws = Inr (cfg\<lparr>cfg_max_connections := n\<rparr>, ws)"
  using parse_int_show_int [of n] as_i32_small [of n] by (simp_all add: set_field_def assign_def)

lemma set_field_u64:
  assumes "unat n < 2 ^ 63"
  shows "set_field ''max_payload'' (SP # show_nat (unat n)) cfg ws = Inr (cfg\<lparr>cfg_max_payload := n\<rparr>, ws)"
    "set_field ''max_pending'' (SP # show_nat (unat n)) cfg ws = Inr (cfg\<lparr>cfg_max_pending := n\<rparr>, ws)"
    "set_field ''max_control_line'' (SP # show_nat (unat n)) cfg ws = Inr (cfg\<lparr>cfg_max_control_line := n\<rparr>, ws)"
proof -
  have "int (unat n) < 2 ^ 63" using assms by (simp only: of_nat_less_iff [symmetric, where 'a = int]) simp
  then have "parse_int (SP # show_nat (unat n)) = Inr (uint n)"
    using parse_int_show_int [OF order_trans [of _ 0], of "int (unat n)"] by (simp add: show_nat_int)
  then show "set_field ''max_payload'' (SP # show_nat (unat n)) cfg ws = Inr (cfg\<lparr>cfg_max_payload := n\<rparr>, ws)"
    "set_field ''max_pending'' (SP # show_nat (unat n)) cfg ws = Inr (cfg\<lparr>cfg_max_pending := n\<rparr>, ws)"
    "set_field ''max_control_line'' (SP # show_nat (unat n)) cfg ws = Inr (cfg\<lparr>cfg_max_control_line := n\<rparr>, ws)"
    by (simp_all add: set_field_def assign_def)
qed

lemma set_field_duration:
  assumes "d < 2 ^ 53"
  shows "set_field ''ping_interval'' (SP # quote (show_nat d @ ''ns'')) cfg ws = Inr (cfg\<lparr>cfg_ping_interval := d\<rparr>, ws)"
    "set_field ''write_deadline'' (SP # quote (show_nat d @ ''ns'')) cfg ws = Inr (cfg\<lparr>cfg_write_deadline := d\<rparr>, ws)"
  using parse_duration_ns [OF assms] by (simp_all add: set_field_def assign_duration_def)

lemma set_field_switch:
  "set_field ''debug'' (SP # (if b then ''true'' else ''false'')) cfg ws = Inr (cfg\<lparr>cfg_debug := b\<rparr>, ws)"
  "set_field ''trace'' (SP # (if b then ''on'' else ''off'')) cfg ws = Inr (cfg\<lparr>cfg_trace := b\<rparr>, ws)"
proof -
  have "parse_bool (SP # ''true'') = Inr True" "parse_bool (SP # ''false'') = Inr False"
    "parse_bool (SP # ''on'') = Inr True" "parse_bool (SP # ''off'') = Inr False" by code_simp+
  then show "set_field ''debug'' (SP # (if b then ''true'' else ''false'')) cfg ws = Inr (cfg\<lparr>cfg_debug := b\<rparr>, ws)"
    "set_field ''trace'' (SP # (if b then ''on'' else ''off'')) cfg ws = Inr (cfg\<lparr>cfg_trace := b\<rparr>, ws)"
    by (simp_all add: set_field_def assign_def)
qed

lemma set_fields_append:
  "set_fields (es @ fs) cfg ws =
     (case set_fields es cfg ws of Inl err \<Rightarrow> Inl err | Inr (cfg', ws') \<Rightarrow> set_fields fs cfg' ws')"
  by (induction es arbitrary: cfg ws) (auto split: sum.split)

lemma line_value_quote: "CHR ''#'' \<notin> set s \<Longrightarrow> LF \<notin> set s \<Longrightarrow> line_value (quote s)"
  by (simp add: line_value_def bare_quote) (simp add: quote_def)

lemma line_value_show_int: "line_value (show_int n)"
proof -
  have "b \<in> set (show_int n) \<Longrightarrow> b = CHR ''-'' \<or> is_ascii_digit b" for b
    using show_nat_digits by (auto simp: show_int_def split: if_splits)
  then have "CHR ''#'' \<notin> set (show_int n)" "LF \<notin> set (show_int n)" using digit_plain(4,5) by fastforce+
  moreover have "\<not> is_whitespace (hd (show_int n))"
    using show_int_ends(2) [of n] digit_plain(2) [of "hd (show_int n)"] by (auto simp: is_whitespace_def)
  ultimately show ?thesis using digit_plain [OF show_int_ends(3) [of n]] show_int_ends(1) [of n] by (simp add: line_value_def bare_def)
qed

lemma line_value_word: "line_value ''true''" "line_value ''false''" "line_value ''on''" "line_value ''off''"
  by (simp_all add: line_value_def bare_def is_whitespace_def)

lemma plain_keys:
  "list_all plain_key [''host'', ''port'', ''server_name'', ''max_payload'', ''max_pending'', ''max_control_line'',
     ''max_connections'', ''ping_interval'', ''write_deadline'', ''debug'', ''trace'']"
  by code_simp

lemma config_entries_plain:
  assumes "in_file cfg"
  shows "\<forall>e\<in>set (config_entries cfg). plain_key (fst e) \<and> line_value (snd e)"
proof -
  have "line_value (quote (show_nat d @ ''ns''))" for d
    using show_nat_digits [of "CHR ''#''" d] show_nat_digits [of LF d] digit_plain(4,5) by (intro line_value_quote) auto
  moreover have "plain_name s \<Longrightarrow> line_value (quote s)" for s
    by (simp add: plain_name_def line_value_quote)
  ultimately show ?thesis
    using assms plain_keys line_value_show_int line_value_word
    by (cases "cfg_server_name cfg") (simp_all add: config_entries_def in_file_def show_nat_int)
qed

lemma set_config_entries:
  assumes "in_file cfg"
  shows "set_fields (config_entries cfg) default_config [] = Inr (cfg, [])"
proof -
  note steps = set_field_name set_field_int set_field_u64 set_field_duration set_field_switch
  show ?thesis
  proof (cases "cfg_server_name cfg")
    case None
    with assms show ?thesis
      by (simp only: config_entries_def in_file_def steps set_fields_append set_fields.simps fst_conv snd_conv
            append.simps option.case sum.case prod.case) (simp add: default_config_def)
  next
    case (Some n)
    with assms show ?thesis
      by (simp only: config_entries_def in_file_def steps set_fields_append set_fields.simps fst_conv snd_conv
            append.simps option.case sum.case prod.case) (simp add: default_config_def)
  qed
qed

lemma parse_config_render: "in_file cfg \<Longrightarrow> parse_config (render_config cfg) = Inr (cfg, [])"
  unfolding render_config_def by (simp only: parse_config_entries [OF config_entries_plain] set_config_entries)

section \<open>Properties\<close>

text \<open>C28. A configuration written out as a file is read back as it was, with no warning: the names may hold anything
  but a comment sign, a line feed or a quote at an end, the sizes are below \<^verbatim>\<open>2^63\<close>, and the durations are
  written in nanoseconds below \<^verbatim>\<open>2^53\<close>.\<close>

theorem config_file_roundtrip:
  assumes "in_file cfg"
  shows "parse_config (render_config cfg) = Inr (cfg, [])"
  by (rule parse_config_render [OF assms])

theorem config_file_roundtrip_witness:
  "parse_config (render_config (default_config\<lparr>cfg_port := -1, cfg_server_name := Some ''n 1''\<rparr>)) =
     Inr (default_config\<lparr>cfg_port := -1, cfg_server_name := Some ''n 1''\<rparr>, [])"
proof -
  have "in_file (default_config\<lparr>cfg_port := -1, cfg_server_name := Some ''n 1''\<rparr>)" by code_simp
  then show ?thesis by (rule config_file_roundtrip)
qed

text \<open>Where the file is refused, and what is read in a way that surprises: the position of a line without a colon,
  an unknown field, values of the wrong type, a duration in plain seconds with its warning, a negative size that
  becomes a huge one, and a port cut to 32 bits.\<close>

theorem config_file_errors:
  "parse_config (''port: 1'' @ [LF] @ ''nonsense'') = Inl ''config:2:1: expected a key but got a value'' \<and>
   parse_config ''color: red'' = Inl (''config: unknown field '' @ quote ''color'') \<and>
   parse_config ''port: x # y'' = Inl ''expected an integer but got x'' \<and>
   parse_config ''debug: maybe'' = Inl ''expected a boolean but got maybe'' \<and>
   parse_config ''ping_interval: soon'' =
     Inl (''error parsing ping_interval: invalid duration '' @ quote ''soon'') \<and>
   parse_config ''ping_interval: 5'' =
     Inr (default_config\<lparr>cfg_ping_interval := 5 * 10 ^ 9\<rparr>, [''ping_interval should be converted to a duration'']) \<and>
   parse_config ''max_payload: -1'' = Inr (default_config\<lparr>cfg_max_payload := 2 ^ 64 - 1\<rparr>, []) \<and>
   parse_config ''port: 0x100000001'' = Inr (default_config\<lparr>cfg_port := 1\<rparr>, [])"
  by (intro conjI; code_simp)

end
