(* ===== verification/Info.thy ===== *)
theory Info
  imports Config_File Nuid
begin

text \<open>
  The \<^verbatim>\<open>INFO\<close> line (\<^verbatim>\<open>crates/server/src/info.rs\<close>): the object a client is sent when it connects, built by
  hand with the escapes of JSON. The values are UTF-8 byte strings: a byte of a character beyond ASCII is
  never one of the escaped ones, so the code's loop over characters is a loop over bytes.
\<close>

section \<open>The line\<close>

record Info =
  i_server_id :: bytes
  i_server_name :: bytes
  i_version :: bytes
  i_host :: bytes
  i_port :: "16 word"
  i_max_payload :: u64

definition json_escape :: "byte \<Rightarrow> bytes" where
  "json_escape b =
     (let n = (of_char b :: nat) in
      if b = CHR 0x22 then [CHR 0x5C, CHR 0x22]
      else if b = CHR 0x5C then [CHR 0x5C, CHR 0x5C]
      else if b = LF then [CHR 0x5C, CHR ''n'']
      else if b = CR then [CHR 0x5C, CHR ''r'']
      else if b = TAB then [CHR 0x5C, CHR ''t'']
      else if n < 0x20 then [CHR 0x5C, CHR ''u'', CHR ''0'', CHR ''0'', hex_digit (n div 16), hex_digit (n mod 16)]
      else [b])"

definition push_str :: "bytes \<Rightarrow> bytes \<Rightarrow> bytes \<Rightarrow> bytes" where
  "push_str out key value =
     out @ [CHR 0x22] @ key @ [CHR 0x22, CHR '':'', CHR 0x22] @ concat (map json_escape value) @ [CHR 0x22]"

definition info_json_line :: "Info \<Rightarrow> u64 \<Rightarrow> bytes \<Rightarrow> bytes" where
  "info_json_line i cid peer_ip =
     (let out = ''INFO {'';
          out = push_str out ''server_id'' (i_server_id i);
          out = out @ '','';
          out = push_str out ''server_name'' (i_server_name i);
          out = out @ '','';
          out = push_str out ''version'' (i_version i);
          out = out @ [CHR '','', CHR 0x22] @ ''proto'' @ [CHR 0x22] @ '':1'';
          out = out @ '','';
          out = push_str out ''host'' (i_host i);
          out = out @ [CHR '','', CHR 0x22] @ ''port'' @ [CHR 0x22, CHR '':''] @ show_nat (unat (i_port i));
          out = out @ [CHR '','', CHR 0x22] @ ''headers'' @ [CHR 0x22] @ '':true'';
          out = out @ [CHR '','', CHR 0x22] @ ''max_payload'' @ [CHR 0x22, CHR '':''] @ show_nat (unat (i_max_payload i));
          out = out @ [CHR '','', CHR 0x22] @ ''client_id'' @ [CHR 0x22, CHR '':''] @ show_nat (unat cid);
          out = out @ '','';
          out = push_str out ''client_ip'' peer_ip
      in out @ [CHR 0x7D, SP, CR, LF])"

section \<open>Reading it\<close>

text \<open>A reader of flat JSON objects, as a client has one: strings with their escapes, numbers and \<^verbatim>\<open>true\<close>.\<close>

datatype Value = VStr bytes | VNum nat | VTrue

definition unescape1 :: "byte \<Rightarrow> byte option" where
  "unescape1 e =
     (if e = CHR 0x22 \<or> e = CHR 0x5C \<or> e = CHR ''/'' then Some e
      else if e = CHR ''n'' then Some LF else if e = CHR ''r'' then Some CR else if e = CHR ''t'' then Some TAB
      else None)"

fun read_str :: "bytes \<Rightarrow> (bytes \<times> bytes) option" where
  "read_str [] = None"
| "read_str (b # s) =
     (if b = CHR 0x22 then Some ([], s)
      else if b \<noteq> CHR 0x5C then
        if (of_char b :: nat) < 0x20 then None else map_option (apfst ((#) b)) (read_str s)
      else case s of
        [] \<Rightarrow> None
      | e # s' \<Rightarrow>
          if e \<noteq> CHR ''u'' then
            (case unescape1 e of None \<Rightarrow> None | Some c \<Rightarrow> map_option (apfst ((#) c)) (read_str s'))
          else case s' of
            h1 # h2 # h3 # h4 # s'' \<Rightarrow>
              (case map hex_val [h1, h2, h3, h4] of
                 [Some 0, Some 0, Some x, Some y] \<Rightarrow> map_option (apfst ((#) (char_of (x * 16 + y)))) (read_str s'')
               | _ \<Rightarrow> None)
          | _ \<Rightarrow> None)"

definition read_value :: "bytes \<Rightarrow> (Value \<times> bytes) option" where
  "read_value s =
     (if starts_with [CHR 0x22] s then map_option (apfst VStr) (read_str (tl s))
      else if starts_with ''true'' s then Some (VTrue, drop 4 s)
      else let d = takeWhile is_ascii_digit s in if d = [] then None else Some (VNum (dec_val d), dropWhile is_ascii_digit s))"

text \<open>\<open>read_members k s\<close> reads at most \<open>k\<close> members up to the closing brace.\<close>

fun read_members :: "nat \<Rightarrow> bytes \<Rightarrow> ((bytes \<times> Value) list \<times> bytes) option" where
  "read_members 0 s = None"
| "read_members (Suc k) s =
     (if \<not> starts_with [CHR 0x22] s then None
      else case read_str (tl s) of
        None \<Rightarrow> None
      | Some (key, s1) \<Rightarrow>
          if \<not> starts_with '':'' s1 then None
          else (case read_value (tl s1) of
                  None \<Rightarrow> None
                | Some (v, s2) \<Rightarrow>
                    if starts_with '','' s2 then map_option (apfst ((#) (key, v))) (read_members k (tl s2))
                    else if starts_with [CHR 0x7D] s2 then Some ([(key, v)], tl s2)
                    else None))"

definition read_info :: "bytes \<Rightarrow> (bytes \<times> Value) list option" where
  "read_info line =
     (if starts_with ''INFO {'' line then
        (case read_members (length line) (drop 6 line) of
           Some (ms, rest) \<Rightarrow> if rest = [SP, CR, LF] then Some ms else None
         | None \<Rightarrow> None)
      else None)"

section \<open>The line is read back\<close>

lemma hex_val_hex_digit: "d < 16 \<Longrightarrow> hex_val (hex_digit d) = Some d"
proof -
  have "list_all (\<lambda>d. hex_val (hex_digit d) = Some d) [0..<16]" by code_simp
  then show "d < 16 \<Longrightarrow> hex_val (hex_digit d) = Some d" by (simp add: list_all_iff)
qed

lemma hex_val_0: "hex_val (CHR ''0'') = Some 0"
  by code_simp

lemma read_str_escape: "read_str (json_escape b @ s) = map_option (apfst ((#) b)) (read_str s)"
proof (cases "(of_char b :: nat) < 0x20")
  case True
  let ?n = "of_char b :: nat"
  have d: "?n div 16 < 16" "?n mod 16 < 16" using True by auto
  have "char_of (?n div 16 * 16 + ?n mod 16) = b" by (simp add: char_of_char)
  with d True show ?thesis
    by (simp add: json_escape_def Let_def unescape1_def hex_val_hex_digit hex_val_0)
next
  case False
  then show ?thesis by (auto simp: json_escape_def Let_def unescape1_def)
qed

lemma read_str_escaped: "read_str (concat (map json_escape v) @ CHR 0x22 # s) = Some (v, s)"
  by (induction v) (simp_all add: read_str_escape)

definition json_key :: "bytes \<Rightarrow> bool" where
  "json_key k \<longleftrightarrow> concat (map json_escape k) = k"

fun value_text :: "Value \<Rightarrow> bytes" where
  "value_text (VStr v) = [CHR 0x22] @ concat (map json_escape v) @ [CHR 0x22]"
| "value_text (VNum n) = show_nat n"
| "value_text VTrue = ''true''"

definition member_text :: "bytes \<times> Value \<Rightarrow> bytes" where
  "member_text m = [CHR 0x22] @ fst m @ [CHR 0x22, CHR '':''] @ value_text (snd m)"

lemma show_nat_span:
  "\<not> is_ascii_digit c \<Longrightarrow> takeWhile is_ascii_digit (show_nat n @ c # s) = show_nat n"
  "\<not> is_ascii_digit c \<Longrightarrow> dropWhile is_ascii_digit (show_nat n @ c # s) = c # s"
  using show_nat_digits [of _ n] by simp_all

lemma read_value_text:
  assumes "\<not> is_ascii_digit c"
  shows "read_value (value_text v @ c # s) = Some (v, c # s)"
proof (cases v)
  case (VStr x)
  then show ?thesis using read_str_escaped [of x "c # s"] by (simp add: read_value_def starts_with_def)
next
  case (VNum n)
  obtain b bs where b: "show_nat n = b # bs" using show_nat_neq_Nil [of n] by (cases "show_nat n") auto
  then have "b \<noteq> CHR 0x22" "b \<noteq> CHR ''t''" using show_nat_digits [of b n] by (auto simp: is_ascii_digit_def)
  then have "\<not> starts_with [CHR 0x22] (show_nat n @ c # s)" "\<not> starts_with ''true'' (show_nat n @ c # s)"
    using b by (simp_all add: starts_with_def)
  with VNum show ?thesis by (simp add: read_value_def show_nat_span [OF assms] Let_def)
qed (simp add: read_value_def starts_with_def)

lemma read_members_step:
  assumes "json_key (fst m)"
  shows "read_members (Suc k) (member_text m @ CHR '','' # s) = map_option (apfst ((#) m)) (read_members k s)"
    "read_members (Suc k) (member_text m @ CHR 0x7D # s) = Some ([m], s)"
proof -
  obtain key v where m: "m = (key, v)" by (rule prod.exhaust)
  have k: "read_str (key @ CHR 0x22 # r) = Some (key, r)" for r
    using read_str_escaped [of key r] assms m by (simp add: json_key_def)
  have "\<not> is_ascii_digit (CHR '','')" "\<not> is_ascii_digit (CHR 0x7D)" by (simp_all add: is_ascii_digit_def)
  from this [THEN read_value_text, of v]
  show "read_members (Suc k) (member_text m @ CHR '','' # s) = map_option (apfst ((#) m)) (read_members k s)"
    "read_members (Suc k) (member_text m @ CHR 0x7D # s) = Some ([m], s)"
    by (simp_all add: m member_text_def starts_with_def k)
qed

declare read_members.simps(2) [simp del]

fun members_text :: "(bytes \<times> Value) list \<Rightarrow> bytes" where
  "members_text [] = []"
| "members_text [m] = member_text m"
| "members_text (m # n # ms) = member_text m @ CHR '','' # members_text (n # ms)"

lemma read_members_text:
  "ms \<noteq> [] \<Longrightarrow> list_all (\<lambda>m. json_key (fst m)) ms \<Longrightarrow> length ms \<le> k \<Longrightarrow>
   read_members k (members_text ms @ CHR 0x7D # s) = Some (ms, s)"
proof (induction ms arbitrary: k rule: members_text.induct)
  case (2 m)
  then show ?case by (cases k) (simp_all add: read_members_step)
next
  case (3 m n ms)
  then show ?case by (cases k) (simp_all add: read_members_step)
qed simp

lemma length_members_text: "length ms \<le> length (members_text ms)"
  by (induction ms rule: members_text.induct) (simp_all add: member_text_def)

definition info_members :: "Info \<Rightarrow> u64 \<Rightarrow> bytes \<Rightarrow> (bytes \<times> Value) list" where
  "info_members i cid peer_ip =
     [(''server_id'', VStr (i_server_id i)), (''server_name'', VStr (i_server_name i)), (''version'', VStr (i_version i)),
      (''proto'', VNum 1), (''host'', VStr (i_host i)), (''port'', VNum (unat (i_port i))), (''headers'', VTrue),
      (''max_payload'', VNum (unat (i_max_payload i))), (''client_id'', VNum (unat cid)), (''client_ip'', VStr peer_ip)]"

lemma info_line_text:
  "info_json_line i cid peer_ip = ''INFO {'' @ members_text (info_members i cid peer_ip) @ CHR 0x7D # [SP, CR, LF]"
proof -
  have "show_nat 1 = ''1''" by code_simp
  then show ?thesis by (simp add: info_json_line_def info_members_def push_str_def member_text_def Let_def)
qed

lemma info_members_keys: "list_all (\<lambda>m. json_key (fst m)) (info_members i cid peer_ip)"
proof -
  have "list_all json_key [''server_id'', ''server_name'', ''version'', ''proto'', ''host'', ''port'', ''headers'',
    ''max_payload'', ''client_id'', ''client_ip'']" by code_simp
  then show ?thesis by (simp add: info_members_def)
qed

text \<open>No byte of the object is a control character.\<close>

definition printable :: "bytes \<Rightarrow> bool" where
  "printable s \<longleftrightarrow> list_all (\<lambda>b. 0x20 \<le> (of_char b :: nat)) s"

lemma printable_append [simp]: "printable (s @ t) \<longleftrightarrow> printable s \<and> printable t"
  by (simp add: printable_def)

lemma printable_json_escape: "printable (json_escape b)"
proof -
  have "list_all (\<lambda>d. 0x20 \<le> (of_char (hex_digit d) :: nat)) [0..<16]" by code_simp
  then have "d < 16 \<Longrightarrow> 0x20 \<le> (of_char (hex_digit d) :: nat)" for d by (simp add: list_all_iff)
  then show ?thesis by (simp add: json_escape_def Let_def printable_def)
qed

lemma printable_escaped: "printable (concat (map json_escape v))"
  by (induction v) (use printable_json_escape in \<open>simp_all add: printable_def\<close>)

lemma printable_show_nat: "printable (show_nat n)"
  using show_nat_digits [of _ n] by (fastforce simp: printable_def list_all_iff is_ascii_digit_def)

lemma printable_value: "printable (value_text v)"
  by (cases v) (use printable_escaped printable_show_nat in \<open>simp_all add: printable_def\<close>)

lemma printable_members: "list_all (\<lambda>m. json_key (fst m)) ms \<Longrightarrow> printable (members_text ms)"
proof (induction ms rule: members_text.induct)
  case (2 m)
  then have "printable (fst m)" using printable_escaped [of "fst m"] by (simp add: json_key_def)
  then show ?case using printable_value [of "snd m"] by (simp add: member_text_def printable_def)
next
  case (3 m n ms)
  then have "printable (fst m)" using printable_escaped [of "fst m"] by (simp add: json_key_def)
  then show ?case using printable_value [of "snd m"] 3 by (simp add: member_text_def printable_def)
qed (simp add: printable_def)

lemma info_line_read: "read_info (info_json_line i cid peer_ip) = Some (info_members i cid peer_ip)"
proof -
  let ?ms = "info_members i cid peer_ip"
  have "?ms \<noteq> []" by (simp add: info_members_def)
  moreover have "length ?ms \<le> length (info_json_line i cid peer_ip)"
    using length_members_text [of ?ms] by (simp add: info_line_text)
  ultimately show ?thesis
    using read_members_text [OF _ info_members_keys] by (simp add: read_info_def info_line_text starts_with_def)
qed

lemma info_one_line:
  "\<exists>body. info_json_line i cid peer_ip = body @ [CR, LF] \<and> CR \<notin> set body \<and> LF \<notin> set body \<and> take 5 body = ''INFO ''"
proof -
  let ?body = "''INFO {'' @ members_text (info_members i cid peer_ip) @ [CHR 0x7D, SP]"
  have "printable ?body" using printable_members [OF info_members_keys] by (simp add: printable_def)
  then have "CR \<notin> set ?body" "LF \<notin> set ?body" unfolding printable_def list_all_iff by fastforce+
  moreover have "info_json_line i cid peer_ip = ?body @ [CR, LF]" "take 5 ?body = ''INFO ''" by (simp_all add: info_line_text)
  ultimately show ?thesis by blast
qed

section \<open>Properties\<close>

text \<open>A client that reads the \<^verbatim>\<open>INFO\<close> line with a JSON reader gets the ten members in their order with exactly the
  values the server holds, whatever characters the configured name contains; and the line ends at its first CR LF,
  so that no name can break it.\<close>

theorem info_line_reads_back:
  "read_info (info_json_line i cid peer_ip) = Some (info_members i cid peer_ip) \<and>
   (\<exists>body. info_json_line i cid peer_ip = body @ [CR, LF] \<and> CR \<notin> set body \<and> LF \<notin> set body)"
  using info_line_read info_one_line by blast

end
