(* ===== verification/Listener.thy ===== *)
theory Listener
  imports Info
begin

text \<open>
  The server object (\<^verbatim>\<open>Server\<close> of \<^verbatim>\<open>crates/server/src/lib.rs\<close>) and binding (\<^verbatim>\<open>serve\<close> of
  \<^verbatim>\<open>crates/server/src/net.rs\<close>). A socket address is an IPv4 address or the text of an IPv6 one. The reader of
  IPv6 addresses and the kernel's answer to \<^verbatim>\<open>bind\<close> are arguments; the reader of IPv4 addresses is
  \<^verbatim>\<open>SocketAddrV4::from_str\<close>.
\<close>

section \<open>Addresses\<close>

datatype SocketAddr =
    V4 "8 word" "8 word" "8 word" "8 word" "16 word"
  | V6 bytes "16 word"

fun addr_ip :: "SocketAddr \<Rightarrow> bytes" where
  "addr_ip (V4 a b c d p) =
     show_nat (unat a) @ ''.'' @ show_nat (unat b) @ ''.'' @ show_nat (unat c) @ ''.'' @ show_nat (unat d)"
| "addr_ip (V6 s p) = s"

fun addr_port :: "SocketAddr \<Rightarrow> 16 word" where
  "addr_port (V4 a b c d p) = p"
| "addr_port (V6 s p) = p"

text \<open>An octet has one to three digits, no leading zero, and a value of at most 255; a port is any digits up to 65535.\<close>

definition read_octet :: "bytes \<Rightarrow> 8 word option" where
  "read_octet s =
     (if s \<noteq> [] \<and> list_all is_ascii_digit s \<and> length s \<le> 3 \<and> (hd s = CHR ''0'' \<longrightarrow> length s = 1) \<and> dec_val s \<le> 255
      then Some (of_nat (dec_val s)) else None)"

definition read_port :: "bytes \<Rightarrow> 16 word option" where
  "read_port s =
     (if s \<noteq> [] \<and> list_all is_ascii_digit s \<and> dec_val s \<le> 65535 then Some (of_nat (dec_val s)) else None)"

definition parse_v4 :: "bytes \<Rightarrow> SocketAddr option" where
  "parse_v4 s =
     (case split_once (CHR '':'') s of
        None \<Rightarrow> None
      | Some (host, port) \<Rightarrow>
          (case (map read_octet (split_on (\<lambda>b. b = CHR ''.'') host), read_port port) of
             ([Some a, Some b, Some c, Some d], Some p) \<Rightarrow> Some (V4 a b c d p)
           | _ \<Rightarrow> None))"

definition parse_addr :: "(bytes \<Rightarrow> SocketAddr option) \<Rightarrow> bytes \<Rightarrow> SocketAddr option" where
  "parse_addr v6 s = (case parse_v4 s of Some a \<Rightarrow> Some a | None \<Rightarrow> v6 s)"

section \<open>The server object\<close>

record Server =
  sv_cfg :: Config
  sv_server_id :: bytes
  sv_server_name :: bytes
  sv_version :: bytes
  sv_listen :: "SocketAddr option"
  sv_cids :: u64
  sv_active :: u64

definition server_new :: "bytes \<Rightarrow> Rng \<Rightarrow> Config \<Rightarrow> Server" where
  "server_new version rng cfg =
     (let id = fst (server_id rng) in
      \<lparr>sv_cfg = cfg, sv_server_id = id,
       sv_server_name = (case cfg_server_name cfg of Some n \<Rightarrow> n | None \<Rightarrow> id),
       sv_version = version, sv_listen = None, sv_cids = 0, sv_active = 0\<rparr>)"

text \<open>\<^verbatim>\<open>OnceLock::set\<close>: the first address stays.\<close>

definition set_listen :: "SocketAddr \<Rightarrow> Server \<Rightarrow> Server" where
  "set_listen addr sv = (case sv_listen sv of None \<Rightarrow> sv\<lparr>sv_listen := Some addr\<rparr> | Some a \<Rightarrow> sv)"

text \<open>\<^verbatim>\<open>expect\<close> panics before the listener is bound.\<close>

definition listen_addr :: "Server \<Rightarrow> SocketAddr option" where
  "listen_addr sv = sv_listen sv"

definition next_cid :: "Server \<Rightarrow> u64 \<times> Server" where
  "next_cid sv = (sv_cids sv + 1, sv\<lparr>sv_cids := sv_cids sv + 1\<rparr>)"

definition info_line :: "u64 \<Rightarrow> SocketAddr \<Rightarrow> Server \<Rightarrow> bytes option" where
  "info_line cid peer sv =
     map_option
       (\<lambda>addr.
          info_json_line
            \<lparr>i_server_id = sv_server_id sv, i_server_name = sv_server_name sv, i_version = sv_version sv,
             i_host = addr_ip addr, i_port = addr_port addr, i_max_payload = cfg_max_payload (sv_cfg sv)\<rparr>
            cid (addr_ip peer))
       (listen_addr sv)"

section \<open>Binding\<close>

datatype ListenError = InvalidInput | BindFailed bytes

definition normalize_host :: "bytes \<Rightarrow> bytes" where
  "normalize_host host = (if host = ''0.0.0.0'' \<or> host = ''::'' \<or> host = ''*'' then ''0.0.0.0'' else host)"

definition bind_text :: "Config \<Rightarrow> bytes" where
  "bind_text cfg =
     (let host = normalize_host (cfg_host cfg);
          requested = (if bind_port cfg = RANDOM_PORT then 0 else bind_port cfg)
      in host @ '':'' @ show_int requested)"

text \<open>\<open>os\<close> answers \<^verbatim>\<open>TcpListener::bind\<close> and \<^verbatim>\<open>local_addr\<close>.\<close>

definition serve_bind ::
    "(bytes \<Rightarrow> SocketAddr option) \<Rightarrow> (SocketAddr \<Rightarrow> bytes + SocketAddr) \<Rightarrow> Server \<Rightarrow> ListenError + (SocketAddr \<times> Server)" where
  "serve_bind v6 os sv =
     (case parse_addr v6 (bind_text (sv_cfg sv)) of
        None \<Rightarrow> Inl InvalidInput
      | Some a \<Rightarrow>
          (case os a of
             Inl e \<Rightarrow> Inl (BindFailed e)
           | Inr addr \<Rightarrow> Inr (addr, set_listen addr sv)))"

section \<open>Lemmas\<close>

lemma read_octet_show: "read_octet (show_nat (unat (a :: 8 word))) = Some a"
proof -
  have u: "unat a < 256" using unsigned_less [of a, where 'a = nat] by simp
  then have "length (show_nat (unat a)) \<le> 3" by (intro length_show_nat) simp_all
  moreover have "hd (show_nat n) = CHR ''0'' \<longrightarrow> length (show_nat n) = 1" for n
  proof (induction n rule: show_nat.induct)
    case (1 n)
    show ?case
    proof (cases "n < 10")
      case True
      then show ?thesis by (subst (1 2) show_nat.simps) simp
    next
      case False
      then have n: "show_nat n = show_nat (n div 10) @ [digit_char (n mod 10)]" by (subst show_nat.simps) simp
      have "show_nat 0 = ''0''" by code_simp
      have "hd (show_nat (n div 10)) \<noteq> CHR ''0''"
      proof
        assume h: "hd (show_nat (n div 10)) = CHR ''0''"
        with 1 False have "length (show_nat (n div 10)) = 1" by simp
        with h have "show_nat (n div 10) = ''0''" by (cases "show_nat (n div 10)") auto
        then have "dec_val (show_nat (n div 10)) = dec_val (show_nat 0)" by (simp add: \<open>show_nat 0 = ''0''\<close>)
        then show False using False by simp
      qed
      then show ?thesis by (simp add: n)
    qed
  qed
  moreover have "list_all is_ascii_digit (show_nat (unat a))" using show_nat_digits by (auto simp: list_all_iff)
  ultimately show ?thesis using u by (simp add: read_octet_def)
qed

lemma read_port_show: "read_port (show_nat (unat (p :: 16 word))) = Some p"
proof -
  have "unat p < 65536" using unsigned_less [of p, where 'a = nat] by simp
  moreover have "list_all is_ascii_digit (show_nat (unat p))" using show_nat_digits by (auto simp: list_all_iff)
  ultimately show ?thesis by (simp add: read_port_def)
qed

lemma show_nat_no: "\<not> is_ascii_digit b \<Longrightarrow> b \<notin> set (show_nat n)"
  using show_nat_digits by blast

lemma parse_v4_text: "parse_v4 (addr_ip (V4 a b c d p) @ '':'' @ show_nat (unat q)) = Some (V4 a b c d q)"
proof -
  let ?ip = "addr_ip (V4 a b c d p)"
  have nd: "\<not> is_ascii_digit (CHR ''.'')" "\<not> is_ascii_digit (CHR '':'')" by (simp_all add: is_ascii_digit_def)
  have "CHR '':'' \<notin> set ?ip" using show_nat_no [OF nd(2)] by simp
  then have 1: "split_once (CHR '':'') (?ip @ '':'' @ show_nat (unat q)) = Some (?ip, show_nat (unat q))"
    unfolding append.simps by (rule split_once_first)
  have dot: "\<forall>x\<in>set (show_nat n). \<not> x = CHR ''.''" for n using show_nat_no [OF nd(1)] by blast
  have "split_on (\<lambda>b. b = CHR ''.'') ?ip = map show_nat [unat a, unat b, unat c, unat d]"
    by (simp add: split_on_append_sep [OF dot] split_on_no_sep [OF dot])
  with 1 show ?thesis by (simp add: parse_v4_def read_octet_show read_port_show)
qed

definition requested_port :: "int \<Rightarrow> 16 word" where
  "requested_port n = (if n = -1 then 0 else if n = 0 then 4222 else word_of_int n)"

lemma requested_text:
  assumes "-1 \<le> cfg_port cfg" "cfg_port cfg \<le> 65535"
  shows "show_int (if bind_port cfg = RANDOM_PORT then 0 else bind_port cfg) = show_nat (unat (requested_port (cfg_port cfg)))"
proof -
  have "cfg_port cfg = -1 \<or> cfg_port cfg = 0 \<or> 0 < cfg_port cfg" using assms(1) by linarith
  moreover have "0 < n \<Longrightarrow> n \<le> 65535 \<Longrightarrow> unat (word_of_int n :: 16 word) = nat n" for n
    by (simp add: unsigned_of_int take_bit_int_eq_self)
  ultimately show ?thesis
    using assms(2) by (elim disjE) (simp_all add: show_int_def requested_port_def bind_port_def RANDOM_PORT_def DEFAULT_PORT_def)
qed

lemma normalize_v4: "normalize_host (addr_ip (V4 a b c d p)) = addr_ip (V4 a b c d p)"
proof -
  have "CHR ''.'' \<in> set (addr_ip (V4 a b c d p))" by simp
  moreover have "CHR ''.'' \<notin> set ''::''" "CHR ''.'' \<notin> set ''*''" by simp_all
  ultimately have "addr_ip (V4 a b c d p) \<noteq> ''::''" "addr_ip (V4 a b c d p) \<noteq> ''*''" by metis+
  then show ?thesis by (simp only: normalize_host_def simp_thms) (metis)
qed

lemma bind_text_v4:
  assumes "cfg_host cfg = addr_ip (V4 a b c d p)" "-1 \<le> cfg_port cfg" "cfg_port cfg \<le> 65535"
  shows "parse_addr v6 (bind_text cfg) = Some (V4 a b c d (requested_port (cfg_port cfg)))"
  unfolding parse_addr_def bind_text_def Let_def requested_text [OF assms(2,3)] assms(1) normalize_v4 parse_v4_text
  by (simp only: option.case)

text \<open>What the reader of IPv6 addresses is known to refuse.\<close>

definition v6_reader :: "(bytes \<Rightarrow> SocketAddr option) \<Rightarrow> bool" where
  "v6_reader v6 \<longleftrightarrow> (\<forall>s. v6 s \<noteq> None \<longrightarrow> s \<noteq> [] \<and> hd s = CHR ''['')"

lemma read_port_refuses: "n < 0 \<or> 65535 < n \<Longrightarrow> read_port (show_int n) = None"
proof (cases "n < 0")
  case True
  then show ?thesis by (simp add: read_port_def show_int_def is_ascii_digit_def)
next
  case False
  moreover assume "n < 0 \<or> 65535 < n"
  ultimately have "65535 < dec_val (show_int n)" by (simp add: show_int_def)
  then show ?thesis by (simp add: read_port_def)
qed

lemma parse_v4_refuses:
  assumes "CHR '':'' \<notin> set host" "read_port port = None \<or> map read_octet (split_on (\<lambda>b. b = CHR ''.'') host) = [None]"
  shows "parse_v4 (host @ '':'' @ port) = None"
proof -
  have "split_once (CHR '':'') (host @ '':'' @ port) = Some (host, port)"
    unfolding append.simps by (rule split_once_first [OF assms(1)])
  then show ?thesis using assms(2) by (auto simp: parse_v4_def split: list.split option.split)
qed

lemma serve_refuses:
  assumes "v6_reader v6" "CHR '':'' \<notin> set (cfg_host (sv_cfg sv))" "normalize_host (cfg_host (sv_cfg sv)) = cfg_host (sv_cfg sv)"
    and "cfg_host (sv_cfg sv) = b # bs" "b \<noteq> CHR ''[''"
    and "map read_octet (split_on (\<lambda>b. b = CHR ''.'') (cfg_host (sv_cfg sv))) = [None] \<or>
      read_port (show_int (bind_port (sv_cfg sv))) = None \<and> bind_port (sv_cfg sv) \<noteq> RANDOM_PORT"
  shows "serve_bind v6 os sv = Inl InvalidInput"
proof -
  let ?q = "show_int (if bind_port (sv_cfg sv) = RANDOM_PORT then 0 else bind_port (sv_cfg sv))"
  have "parse_v4 (cfg_host (sv_cfg sv) @ '':'' @ ?q) = None"
    by (rule parse_v4_refuses [OF assms(2)]) (use assms(6) in auto)
  moreover have "v6 (cfg_host (sv_cfg sv) @ '':'' @ ?q) = None"
    using assms(1,4,5) by (auto simp: v6_reader_def)
  ultimately show ?thesis
    unfolding serve_bind_def parse_addr_def bind_text_def Let_def assms(3) by (simp only: option.case)
qed

section \<open>Properties\<close>

text \<open>C36. With an IPv4 address as the host and a port between -1 and 65535 the server asks the kernel for exactly that
  address, where -1 asks for any port and 0 for the default one; the first line of a connection then carries the
  address and the port the kernel gave, not the ones of the configuration.\<close>

theorem info_carries_the_bound_port:
  assumes "cfg_host (sv_cfg sv) = addr_ip (V4 a b c d p)" "-1 \<le> cfg_port (sv_cfg sv)" "cfg_port (sv_cfg sv) \<le> 65535"
    and "sv_listen sv = None" "os (V4 a b c d (requested_port (cfg_port (sv_cfg sv)))) = Inr addr"
  shows "\<exists>sv' line ms. serve_bind v6 os sv = Inr (addr, sv') \<and> info_line cid peer sv' = Some line \<and>
    read_info line = Some ms \<and> map_of ms ''host'' = Some (VStr (addr_ip addr)) \<and>
    map_of ms ''port'' = Some (VNum (unat (addr_port addr))) \<and> map_of ms ''client_id'' = Some (VNum (unat cid)) \<and>
    map_of ms ''client_ip'' = Some (VStr (addr_ip peer)) \<and>
    map_of ms ''max_payload'' = Some (VNum (unat (cfg_max_payload (sv_cfg sv))))"
proof -
  let ?sv = "sv\<lparr>sv_listen := Some addr\<rparr>"
  let ?i = "\<lparr>i_server_id = sv_server_id sv, i_server_name = sv_server_name sv, i_version = sv_version sv,
    i_host = addr_ip addr, i_port = addr_port addr, i_max_payload = cfg_max_payload (sv_cfg sv)\<rparr>"
  have "serve_bind v6 os sv = Inr (addr, ?sv)"
    by (simp add: serve_bind_def bind_text_v4 [OF assms(1-3)] assms(4,5) set_listen_def)
  moreover have "info_line cid peer ?sv = Some (info_json_line ?i cid (addr_ip peer))"
    by (simp add: info_line_def listen_addr_def)
  moreover note info_line_read [of ?i cid "addr_ip peer"]
  moreover have "map_of (info_members ?i cid (addr_ip peer)) ''host'' = Some (VStr (addr_ip addr))"
    "map_of (info_members ?i cid (addr_ip peer)) ''port'' = Some (VNum (unat (addr_port addr)))"
    "map_of (info_members ?i cid (addr_ip peer)) ''client_id'' = Some (VNum (unat cid))"
    "map_of (info_members ?i cid (addr_ip peer)) ''client_ip'' = Some (VStr (addr_ip peer))"
    "map_of (info_members ?i cid (addr_ip peer)) ''max_payload'' = Some (VNum (unat (cfg_max_payload (sv_cfg sv))))"
    by (simp_all add: info_members_def)
  ultimately show ?thesis by blast
qed

theorem info_carries_the_bound_port_witness:
  "\<exists>sv' line. serve_bind (\<lambda>s. None) (\<lambda>a. Inr (V4 0 0 0 0 40000)) (server_new ''0.1.0'' (rng_new 3) (default_config\<lparr>cfg_port := -1\<rparr>)) =
     Inr (V4 0 0 0 0 40000, sv') \<and> info_line 1 (V4 127 0 0 1 50000) sv' = Some line \<and>
     (\<exists>ms. read_info line = Some ms \<and> map_of ms ''port'' = Some (VNum 40000))"
proof -
  let ?sv = "server_new ''0.1.0'' (rng_new 3) (default_config\<lparr>cfg_port := -1\<rparr>)"
  have "show_nat 0 = ''0''" by code_simp
  then have "cfg_host (sv_cfg ?sv) = addr_ip (V4 0 0 0 0 0)" by (simp add: server_new_def Let_def default_config_def)
  moreover have "-1 \<le> cfg_port (sv_cfg ?sv)" "cfg_port (sv_cfg ?sv) \<le> 65535" "sv_listen ?sv = None"
    by (simp_all add: server_new_def Let_def)
  ultimately obtain sv' line ms where
    "serve_bind (\<lambda>s. None) (\<lambda>a. Inr (V4 0 0 0 0 40000)) ?sv = Inr (V4 0 0 0 0 40000, sv')"
    "info_line 1 (V4 127 0 0 1 50000) sv' = Some line" "read_info line = Some ms"
    "map_of ms ''port'' = Some (VNum (unat (addr_port (V4 0 0 0 0 40000))))"
    using info_carries_the_bound_port [of ?sv 0 0 0 0 0 "\<lambda>a. Inr (V4 0 0 0 0 40000)" "V4 0 0 0 0 40000" "\<lambda>s. None" 1 "V4 127 0 0 1 50000"]
    by blast
  then show ?thesis by auto
qed

text \<open>The host name \<^verbatim>\<open>localhost\<close> is no bind address, whatever the port: the text is read as a socket address, without
  a resolver. A port below -1 or above 65535 is refused in the same way.\<close>

theorem localhost_is_refused:
  assumes "v6_reader v6"
    and "cfg_host (sv_cfg sv) = ''localhost'' \<or>
      cfg_host (sv_cfg sv) = ''127.0.0.1'' \<and> (cfg_port (sv_cfg sv) < -1 \<or> 65535 < cfg_port (sv_cfg sv))"
  shows "serve_bind v6 os sv = Inl InvalidInput"
  using assms(2)
proof
  assume h: "cfg_host (sv_cfg sv) = ''localhost''"
  have "map read_octet (split_on (\<lambda>b. b = CHR ''.'') ''localhost'') = [None]" by code_simp
  with h show ?thesis by (intro serve_refuses [OF assms(1), of _ "CHR ''l''" "''ocalhost''"]) (simp_all add: normalize_host_def)
next
  assume h: "cfg_host (sv_cfg sv) = ''127.0.0.1'' \<and> (cfg_port (sv_cfg sv) < -1 \<or> 65535 < cfg_port (sv_cfg sv))"
  then have "bind_port (sv_cfg sv) = cfg_port (sv_cfg sv)" "cfg_port (sv_cfg sv) \<noteq> RANDOM_PORT"
    by (auto simp: bind_port_def RANDOM_PORT_def)
  moreover have "read_port (show_int (cfg_port (sv_cfg sv))) = None" using h by (intro read_port_refuses) auto
  ultimately show ?thesis using h by (intro serve_refuses [OF assms(1), of _ "CHR ''1''" "''27.0.0.1''"]) (auto simp: normalize_host_def)
qed

theorem localhost_is_refused_witness:
  "serve_bind (\<lambda>s. None) Inr (server_new ''0.1.0'' (rng_new 3) (default_config\<lparr>cfg_host := ''localhost''\<rparr>)) = Inl InvalidInput"
  by (rule localhost_is_refused) (simp_all add: v6_reader_def server_new_def Let_def)

end
