(* ===== verification/Node.thy ===== *)
theory Node
  imports System Listener
begin

text \<open>
  The accept loop (\<^verbatim>\<open>accept_loop\<close> of \<^verbatim>\<open>crates/server/src/net.rs\<close>) beside the connections it starts. The load of
  the counter, the increment, the start of the connection's task and its end are separate steps, with the
  steps of all other connections between them.
\<close>

section \<open>Admission\<close>

text \<open>\<^verbatim>\<open>max_connections >= 0 && active >= max_connections as usize\<close>.\<close>

definition over_limit :: "Server \<Rightarrow> bool" where
  "over_limit sv \<longleftrightarrow>
     cfg_max_connections (sv_cfg sv) \<ge> 0 \<and> sv_active sv \<ge> word_of_int (cfg_max_connections (sv_cfg sv))"

definition count_in :: "Server \<Rightarrow> Server" where
  "count_in sv = sv\<lparr>sv_active := sv_active sv + 1\<rparr>"

text \<open>\<^verbatim>\<open>DropCount\<close>.\<close>

definition count_out :: "Server \<Rightarrow> Server" where
  "count_out sv = sv\<lparr>sv_active := sv_active sv - 1\<rparr>"

section \<open>The loop and its tasks\<close>

text \<open>
  \<open>nd_admitted\<close>: the loop holds a socket that passed the check and is not counted yet. \<open>nd_starting\<close>: the
  ids of the tasks that have not run yet. \<open>nd_tasks\<close>: the running ones, with the address of their connection.
\<close>

record 'ch Node =
  nd_server :: Server
  nd_sys :: "'ch Sys"
  nd_admitted :: bool
  nd_starting :: "u64 list"
  nd_tasks :: "(nat \<times> u64) list"

definition node_new :: "('ch, 'j) Deps \<Rightarrow> Server \<Rightarrow> Rng \<Rightarrow> 'ch Node" where
  "node_new E sv g =
     \<lparr>nd_server = sv, nd_sys = sys_new E (sv_cfg sv) g, nd_admitted = False, nd_starting = [], nd_tasks = []\<rparr>"

text \<open>
  A socket whose \<^verbatim>\<open>set_nodelay\<close> fails, one over the limit and an accept error change nothing. A task is over
  when its reader is done and its writer is, or the ten seconds that \<^verbatim>\<open>spawn\<close> grants the writer have passed. The ids
  do not run into their largest value.
\<close>

inductive node_step :: "('ch, 'j) Deps \<Rightarrow> 'ch Node \<Rightarrow> 'ch Node \<Rightarrow> bool" for E :: "('ch, 'j) Deps" where
  admits: "\<not> nd_admitted s \<Longrightarrow> \<not> over_limit (nd_server s) \<Longrightarrow> node_step E s (s\<lparr>nd_admitted := True\<rparr>)"
| counts: "nd_admitted s \<Longrightarrow> sv_cids (nd_server s) \<noteq> -1 \<Longrightarrow> next_cid (count_in (nd_server s)) = (cid, sv) \<Longrightarrow>
    node_step E s (s\<lparr>nd_server := sv, nd_admitted := False, nd_starting := nd_starting s @ [cid]\<rparr>)"
| starts: "cid \<in> set (nd_starting s) \<Longrightarrow> c \<notin> sy_live (nd_sys s) \<Longrightarrow> info_line cid peer (nd_server s) = Some line \<Longrightarrow>
    spawn E c cid line (sy_world (nd_sys s)) = (r, w) \<Longrightarrow> r \<noteq> Dropped \<Longrightarrow>
    node_step E s
      (s\<lparr>nd_starting := remove1 cid (nd_starting s), nd_tasks := nd_tasks s @ [(c, cid)],
         nd_sys := (nd_sys s)\<lparr>sy_world := w, sy_live := insert c (sy_live (nd_sys s))\<rparr>\<rparr>)"
| dropped: "cid \<in> set (nd_starting s) \<Longrightarrow> info_line cid peer (nd_server s) = Some line \<Longrightarrow>
    spawn E c cid line (sy_world (nd_sys s)) = (Dropped, w) \<Longrightarrow>
    node_step E s (s\<lparr>nd_starting := remove1 cid (nd_starting s), nd_server := count_out (nd_server s)\<rparr>)"
| runs: "sys_step E (nd_sys s) sy \<Longrightarrow> sy_live sy = sy_live (nd_sys s) \<Longrightarrow> node_step E s (s\<lparr>nd_sys := sy\<rparr>)"
| ends: "(c, cid) \<in> set (nd_tasks s) \<Longrightarrow> rd_done (sy_reader (nd_sys s) c) \<Longrightarrow>
    node_step E s (s\<lparr>nd_tasks := remove1 (c, cid) (nd_tasks s), nd_server := count_out (nd_server s)\<rparr>)"

section \<open>The invariant\<close>

definition started :: "'ch Node \<Rightarrow> nat" where
  "started s = length (nd_tasks s) + length (nd_starting s)"

definition all_cids :: "'ch Node \<Rightarrow> u64 list" where
  "all_cids s = map snd (nd_tasks s) @ nd_starting s"

definition node_ok :: "int \<Rightarrow> 'ch Node \<Rightarrow> bool" where
  "node_ok m s \<longleftrightarrow>
     cfg_max_connections (sv_cfg (nd_server s)) = m \<and>
     sv_active (nd_server s) = of_nat (started s) \<and>
     int (started s) + (if nd_admitted s then 1 else 0) \<le> m \<and>
     distinct (all_cids s) \<and> (\<forall>i\<in>set (all_cids s). i \<le> sv_cids (nd_server s)) \<and>
     distinct (map fst (nd_tasks s)) \<and> fst ` set (nd_tasks s) \<subseteq> sy_live (nd_sys s)"

lemma unat_of_small: "n < 2 ^ 64 \<Longrightarrow> unat (of_nat n :: u64) = n"
  by (simp add: unsigned_of_nat take_bit_nat_eq_self)

lemma not_over_limit:
  assumes "\<not> over_limit sv" "sv_active sv = of_nat n" "int n \<le> m" "cfg_max_connections (sv_cfg sv) = m" "m < 2 ^ 63"
  shows "int n + 1 \<le> m"
proof -
  have m: "0 \<le> m" using assms(3) by linarith
  have "sv_active sv < word_of_int m" using assms(1,4) m by (simp add: over_limit_def)
  moreover have "unat (word_of_int m :: u64) = nat m" "unat (of_nat n :: u64) = n"
    using m assms(3,5) by (simp_all add: unsigned_of_int unsigned_of_nat take_bit_int_eq_self take_bit_nat_eq_self)
  ultimately have "n < nat m" using assms(2) by (simp only: word_less_nat_alt)
  then show ?thesis by linarith
qed

lemma less_succ: "x \<noteq> -1 \<Longrightarrow> x < x + 1" for x :: u64
proof -
  assume "x \<noteq> -1"
  then have "1 + x \<noteq> 0" by (metis add.commute eq_neg_iff_add_eq_0)
  then have "unat (1 + x) = Suc (unat x)" by (rule unatSuc)
  then show "x < x + 1" by (simp add: word_less_nat_alt add.commute)
qed

lemma length_removed: "x \<in> set xs \<Longrightarrow> length xs = Suc (length (remove1 x xs))"
  by (induction xs) auto

lemma distinct_map_remove1: "distinct (map f xs) \<Longrightarrow> distinct (map f (remove1 x xs))"
  by (induction xs) (use notin_set_remove1 in fastforce)+

text \<open>One task fewer.\<close>

lemma task_over_ok:
  assumes "node_ok m s" "nd_server s' = count_out (nd_server s)" "nd_admitted s' = nd_admitted s" "nd_sys s' = nd_sys s"
    and "started s = Suc (started s')" "distinct (all_cids s')" "set (all_cids s') \<subseteq> set (all_cids s)"
    and "distinct (map fst (nd_tasks s'))" "set (nd_tasks s') \<subseteq> set (nd_tasks s)"
  shows "node_ok m s'"
proof -
  have "sv_active (nd_server s') = of_nat (started s')"
    using assms(1,2,5) by (simp add: node_ok_def count_out_def)
  moreover have "cfg_max_connections (sv_cfg (nd_server s')) = m" "sv_cids (nd_server s') = sv_cids (nd_server s)"
    using assms(1,2) by (simp_all add: node_ok_def count_out_def)
  moreover have "fst ` set (nd_tasks s') \<subseteq> sy_live (nd_sys s')" using assms(1,4,9) by (auto simp: node_ok_def)
  ultimately show ?thesis using assms(1,3,5-8) by (auto simp: node_ok_def)
qed

lemma node_step_ok:
  assumes "node_step E s s'" "node_ok m s" "m < 2 ^ 63"
  shows "node_ok m s'"
  using assms(1)
proof cases
  case admits
  with not_over_limit [of "nd_server s" "started s" m] assms(2,3) show ?thesis
    by (auto simp: node_ok_def started_def all_cids_def)
next
  case (counts cid sv)
  then have cid: "cid = sv_cids (nd_server s) + 1"
    "sv = (nd_server s)\<lparr>sv_active := sv_active (nd_server s) + 1, sv_cids := cid\<rparr>"
    by (auto simp: next_cid_def count_in_def)
  have less: "sv_cids (nd_server s) < cid"
    using less_succ [OF counts(3)] cid(1) by simp
  have below: "i < cid" if "i \<in> set (all_cids s)" for i
    using assms(2) that less by (meson le_less_trans node_ok_def)
  have "all_cids s' = all_cids s @ [cid]" "started s' = Suc (started s)" by (simp_all add: counts(1) all_cids_def started_def)
  with assms(2) counts(1,2) cid(2) below show ?thesis by (auto simp: node_ok_def less_imp_le)
next
  case (starts cid c peer line r w)
  have "started s' = started s" using length_removed [OF starts(2)] by (simp add: starts(1) started_def)
  with assms(2) starts show ?thesis by (auto simp: node_ok_def all_cids_def)
next
  case (dropped cid peer line c w)
  show ?thesis
  proof (rule task_over_ok [OF assms(2)])
    show "started s = Suc (started s')" using length_removed [OF dropped(2)] by (simp add: dropped(1) started_def)
    show "distinct (all_cids s')" using assms(2) by (auto simp: node_ok_def all_cids_def dropped(1))
    show "distinct (map fst (nd_tasks s'))" using assms(2) by (simp add: node_ok_def dropped(1))
  qed (use dropped(1) in \<open>auto simp: all_cids_def dest: notin_set_remove1\<close>)
next
  case (runs sy)
  with assms(2) show ?thesis by (simp add: node_ok_def started_def all_cids_def)
next
  case (ends c cid)
  let ?ts = "remove1 (c, cid) (nd_tasks s)"
  have sub: "set ?ts \<subseteq> set (nd_tasks s)" by (rule set_remove1_subset)
  have d: "distinct (map snd ?ts)" "distinct (map fst ?ts)"
    using assms(2) by (auto simp: node_ok_def all_cids_def intro: distinct_map_remove1)
  show ?thesis
  proof (rule task_over_ok [OF assms(2)])
    show "started s = Suc (started s')" using length_removed [OF ends(2)] by (simp add: ends(1) started_def)
    have "snd ` set (nd_tasks s) \<inter> set (nd_starting s) = {}" using assms(2) by (simp add: node_ok_def all_cids_def)
    then have "snd ` set ?ts \<inter> set (nd_starting s) = {}" using sub by blast
    then show "distinct (all_cids s')" using assms(2) d(1) by (simp add: node_ok_def all_cids_def ends(1))
    show "set (all_cids s') \<subseteq> set (all_cids s)" using sub by (auto simp: all_cids_def ends(1))
  qed (use ends(1) d(2) sub in simp_all)
qed

lemma node_new_ok:
  "0 \<le> cfg_max_connections (sv_cfg sv) \<Longrightarrow> sv_active sv = 0 \<Longrightarrow> node_ok (cfg_max_connections (sv_cfg sv)) (node_new E sv g)"
  by (simp add: node_ok_def node_new_def started_def all_cids_def)

interpretation admission: keeps "node_step E" "\<lambda>s. m < 2 ^ 63 \<and> node_ok m s" for E :: "('ch, 'j) Deps" and m :: int
  by unfold_locales (auto intro: node_step_ok)

text \<open>The connections of a node behave as the server of \<open>sys_step\<close>.\<close>

lemma node_step_sys: "node_step E s s' \<Longrightarrow> (sys_step E)\<^sup>*\<^sup>* (nd_sys s) (nd_sys s')"
proof (induction rule: node_step.induct)
  case (starts cid s c peer line r w)
  then show ?case by (auto intro: sys_step.spawned)
qed auto

interpretation accepting: simulates_keeping "node_step E" "sys_step E" nd_sys sys_ok for E :: "('ch, 'j) Deps"
  by unfold_locales (rule node_step_sys)

section \<open>Properties\<close>

text \<open>C8. With a connection limit the server never has more connections than the limit allows, counting those whose task
  has not started yet, in any interleaving of accepting, starting, running and ending; the counter is their number, so it
  cannot wrap; no two connections share an id or an address; and the connections are in a state the safety
  theorem of the server covers.\<close>

theorem connection_limit_holds:
  assumes "(node_step E)\<^sup>*\<^sup>* (node_new E sv g) s" "sv_active sv = 0"
    and "0 \<le> cfg_max_connections (sv_cfg sv)" "cfg_max_connections (sv_cfg sv) < 2 ^ 63"
  shows "int (length (nd_tasks s) + length (nd_starting s)) \<le> cfg_max_connections (sv_cfg sv) \<and>
    unat (sv_active (nd_server s)) = length (nd_tasks s) + length (nd_starting s) \<and>
    distinct (map snd (nd_tasks s) @ nd_starting s) \<and> distinct (map fst (nd_tasks s)) \<and>
    (sys_step E)\<^sup>*\<^sup>* (sys_new E (sv_cfg sv) g) (nd_sys s) \<and> sys_ok (nd_sys s)"
proof -
  let ?m = "cfg_max_connections (sv_cfg sv)" and ?n = "length (nd_tasks s) + length (nd_starting s)"
  have ok: "node_ok ?m s" using admission.reach [OF assms(1), of ?m] node_new_ok [OF assms(3,2), of E g] assms(4) by simp
  then have n: "int ?n \<le> ?m" "sv_active (nd_server s) = of_nat ?n"
    by (auto simp: node_ok_def started_def split: if_splits)
  then have "int ?n < int (2 ^ 64)" using assms(4) by simp
  then have "?n < 2 ^ 64" by (simp only: of_nat_less_iff)
  then have "unat (sv_active (nd_server s)) = ?n" unfolding n(2) by (rule unat_of_small)
  moreover have r: "(sys_step E)\<^sup>*\<^sup>* (sys_new E (sv_cfg sv) g) (nd_sys s)"
    using accepting.reach_simulates [OF assms(1)] by (simp add: node_new_def)
  ultimately show ?thesis using ok n(1) r accepting.lifted.reach [OF assms(1)] sys_new_ok [of E "sv_cfg sv" g] by (simp add: node_new_def node_ok_def all_cids_def)
qed

theorem connection_limit_holds_witness:
  "\<exists>s. (node_step list_deps)\<^sup>*\<^sup>* (node_new list_deps (server_new ''0.1.0'' (rng_new 3) (default_config\<lparr>cfg_max_connections := 1\<rparr>)) (rng_new 5)) s \<and>
     nd_starting s = [1] \<and> int (length (nd_tasks s) + length (nd_starting s)) \<le> 1 \<and> over_limit (nd_server s)"
proof -
  let ?sv = "server_new ''0.1.0'' (rng_new 3) (default_config\<lparr>cfg_max_connections := 1\<rparr>)"
  let ?s0 = "node_new list_deps ?sv (rng_new 5)"
  let ?s1 = "?s0\<lparr>nd_admitted := True\<rparr>"
  let ?s2 = "?s1\<lparr>nd_server := ?sv\<lparr>sv_active := 1, sv_cids := 1\<rparr>, nd_admitted := False, nd_starting := [1]\<rparr>"
  have sv: "sv_active ?sv = 0" "sv_cids ?sv = 0" "cfg_max_connections (sv_cfg ?sv) = 1"
    by (simp_all add: server_new_def Let_def)
  have "node_step list_deps ?s0 ?s1" by (rule node_step.admits) (simp_all add: node_new_def over_limit_def sv)
  moreover have "node_step list_deps ?s1 ?s2"
    using node_step.counts [of ?s1 1 "?sv\<lparr>sv_active := 1, sv_cids := 1\<rparr>" list_deps]
    by (simp add: node_new_def next_cid_def count_in_def sv)
  ultimately have r: "(node_step list_deps)\<^sup>*\<^sup>* ?s0 ?s2" by simp
  have "int (length (nd_tasks ?s2) + length (nd_starting ?s2)) \<le> 1"
    using connection_limit_holds [OF r sv(1)] sv(3) by simp
  moreover have "over_limit (nd_server ?s2)" by (simp add: over_limit_def sv)
  ultimately show ?thesis using r by (intro exI [of _ ?s2]) simp
qed

end
