(* ===== verification/Ordering.thy ===== *)
theory Ordering
  imports System
begin

text \<open>
  Order of delivery: what a run of publishes by one connection does to the queue of another one, message by
  message. The subscriptions of a connection with room and without delivery limits stay as they are while
  messages are routed, whoever else is closed or unregistered on the way, so every message finds them.
\<close>

section \<open>The subscriptions of one connection\<close>

definition subs_of :: "nat \<Rightarrow> Inner \<Rightarrow> Sub list" where
  "subs_of c inner = filter (\<lambda>s. s_conn s = c) (all_subs inner)"

lemma filter_vals_update:
  "distinct (map fst al) \<Longrightarrow> filter P l = filter P (entry al k) \<Longrightarrow> filter P (vals (AList.update k l al)) = filter P (vals al)"
proof (induction al)
  case (Cons x al)
  then show ?case by (cases x; cases "fst x = k") auto
qed simp

lemma filter_vals_delete:
  "distinct (map fst al) \<Longrightarrow> filter P (entry al k) = [] \<Longrightarrow> filter P (vals (AList.delete k al)) = filter P (vals al)"
proof (induction al)
  case (Cons x al)
  have "AList.delete k al = al" if "k \<notin> fst ` set al" using that by (rule delete_id)
  with Cons show ?case by (cases x; cases "fst x = k") auto
qed simp

lemma subs_of_remove_conn: "d \<noteq> c \<Longrightarrow> subs_of c (snd (remove_conn_inner d inner)) = subs_of c inner"
  by (auto simp: subs_of_def remove_conn_subs intro!: filter_cong)

lemma subs_of_remove_sub:
  assumes "inner_ok inner" "s_conn x \<noteq> c"
  shows "subs_of c (remove_sub x inner) = subs_of c inner"
proof -
  let ?gone = "\<lambda>s. s_sid s = s_sid x \<and> s_conn s = s_conn x" and ?P = "\<lambda>s. s_conn s = c"
  have f: "filter ?P (filter (\<lambda>s. \<not> ?gone s) l) = filter ?P l" for l
    using assms(2) by (auto intro!: filter_cong)
  show ?thesis
  proof (cases "s_wildcard x")
    case True
    then show ?thesis using f by (simp add: remove_sub_def subs_of_def all_subs_def Let_def)
  next
    case False
    note d = inner_okD(1) [OF assms(1)]
    show ?thesis
    proof (cases "map_of (i_literal inner) (s_subject x)")
      case None
      with False show ?thesis by (simp add: remove_sub_def subs_of_def all_subs_def)
    next
      case (Some l)
      define l' where "l' = filter (\<lambda>s. \<not> ?gone s) l"
      let ?lit = "AList.update (s_subject x) l' (i_literal inner)"
      have u: "filter ?P (vals ?lit) = filter ?P (vals (i_literal inner))"
        using filter_vals_update [OF d, of ?P l' "s_subject x"] f [of l] Some by (simp add: entry_def l'_def)
      moreover have "filter ?P (vals (AList.delete (s_subject x) ?lit)) = filter ?P (vals ?lit)" if "l' = []"
        using that by (intro filter_vals_delete distinct_update [OF d]) (simp add: entry_def map_of_update)
      moreover have "i_literal (remove_sub x inner) = (if l' = [] then AList.delete (s_subject x) ?lit else ?lit)"
          "i_wildcard (remove_sub x inner) = i_wildcard inner"
        using False Some by (simp_all add: remove_sub_def Let_def l'_def)
      ultimately show ?thesis by (cases "l' = []") (simp_all add: subs_of_def all_subs_def)
    qed
  qed
qed

lemma subs_of_fold_remove:
  "inner_ok inner \<Longrightarrow> \<forall>x\<in>set xs. s_conn x \<noteq> c \<Longrightarrow> subs_of c (fold remove_sub xs inner) = subs_of c inner"
  by (induction xs arbitrary: inner) (simp_all add: subs_of_remove_sub remove_sub_ok)

lemma subs_of_expire:
  "reg_ok r \<Longrightarrow> \<forall>x\<in>set xs. s_conn x \<noteq> c \<Longrightarrow> subs_of c (r_inner (expire xs r)) = subs_of c (r_inner r)"
  by (simp add: expire_def subs_of_fold_remove reg_ok_def)

lemma fold_remove_size: "inner_ok inner \<Longrightarrow> length (all_subs (fold remove_sub xs inner)) \<le> length (all_subs inner)"
proof (induction xs arbitrary: inner)
  case (Cons x xs)
  have "size (mset (all_subs (remove_sub x inner))) \<le> size (mset (all_subs inner))"
    unfolding remove_sub_subs [OF Cons.prems] by (rule size_mset_mono [OF multiset_filter_subset])
  with Cons.IH [OF remove_sub_ok [OF Cons.prems], of x] show ?case by simp
qed simp

lemma expire_size: "reg_ok r \<Longrightarrow> length (all_subs (r_inner (expire xs r))) \<le> length (all_subs (r_inner r))"
  by (simp add: expire_def reg_ok_def fold_remove_size)

section \<open>Routing keeps them\<close>

text \<open>What routing one message leaves of the world, as far as connection \<open>c\<close> and the flags are concerned.\<close>

definition stays :: "nat \<Rightarrow> 'ch World \<Rightarrow> 'ch World \<Rightarrow> bool" where
  "stays c w w' \<longleftrightarrow>
     subs_of c (r_inner (w_registry w')) = subs_of c (r_inner (w_registry w)) \<and>
     (\<forall>a. limit (w_cells w' a) = limit (w_cells w a)) \<and>
     (\<forall>d. c_flags (w_conns w' d) = c_flags (w_conns w d)) \<and>
     length (all_subs (r_inner (w_registry w'))) \<le> length (all_subs (r_inner (w_registry w)))"

lemma stays_refl [simp]: "stays c w w"
  by (simp add: stays_def)

lemma stays_trans: "stays c w w1 \<Longrightarrow> stays c w1 w2 \<Longrightarrow> stays c w w2"
  by (auto simp: stays_def)

lemma finish_stays: "d \<noteq> c \<Longrightarrow> stays c w (finish d reason hard w)"
proof -
  assume d: "d \<noteq> c"
  obtain n inner where r: "remove_conn_inner d (r_inner (w_registry w)) = (n, inner)" by (rule prod.exhaust)
  have "all_subs inner = filter (\<lambda>s. s_conn s \<noteq> d) (all_subs (r_inner (w_registry w)))"
    using remove_conn_subs [of d "r_inner (w_registry w)"] r by simp
  moreover have "subs_of c inner = subs_of c (r_inner (w_registry w))"
    using subs_of_remove_conn [OF d, of "r_inner (w_registry w)"] r by simp
  ultimately show ?thesis
    by (auto simp: stays_def finish_def Let_def remove_conn_def r)
qed

lemma account_limit: "account cell = (spent, cell') \<Longrightarrow> limit cell' = limit cell \<and> (limit cell = 0 \<longrightarrow> \<not> spent)"
  by (auto simp: account_def Let_def)

lemma give_stays:
  assumes "give E sub msg expired w = (g, expired', w')" "s_conn sub \<noteq> c"
  shows "stays c w w'"
proof -
  obtain r w1 where d: "deliver E sub msg w = (r, w1)" by (rule prod.exhaust)
  note o = deliver_other [OF d]
  obtain spent cell where a: "account (w_cells w1 (s_addr sub)) = (spent, cell)" by (rule prod.exhaust)
  have fl: "c_flags (w_conns w1 e) = c_flags (w_conns w e)" for e
    using o(1) [of e] o(6) by (cases "e = s_conn sub") auto
  have 1: "stays c w w1" using o(2,3) fl by (simp add: stays_def)
  have 2: "stays c w1 (w1\<lparr>w_cells := (w_cells w1)(s_addr sub := cell)\<rparr>)"
    using account_limit [OF a] by (simp add: stays_def)
  show ?thesis
    using assms d a stays_trans [OF 1 2] 1 stays_trans [OF 1 finish_stays [OF assms(2)]]
    by (cases r) (auto simp: give_def account_sub_def close_defs)
qed

lemma give_own_stays:
  assumes "deps_ok E" "conn_room E i n (w_conns w (s_conn sub))" "length (sub_frame w sub msg) \<le> n"
    and "limit (w_cells w (s_addr sub)) = 0" "give E sub msg expired w = (g, expired', w')"
  shows "stays c w w'" "expired' = expired"
proof -
  obtain r w1 where d: "deliver E sub msg w = (r, w1)" by (rule prod.exhaust)
  note o = deliver_other [OF d]
  obtain spent cell where a: "account (w_cells w1 (s_addr sub)) = (spent, cell)" by (rule prod.exhaust)
  have fl: "c_flags (w_conns w1 e) = c_flags (w_conns w e)" for e
    using o(1) [of e] o(6) by (cases "e = s_conn sub") auto
  have s: "\<not> spent" "limit cell = limit (w_cells w (s_addr sub))" using account_limit [OF a] assms(4) o(3) by auto
  have "accepted r" using deliver_room(1) [OF assms(1-3) d] .
  then have eq: "expired' = expired" "w' = w1\<lparr>w_cells := (w_cells w1)(s_addr sub := cell)\<rparr>"
    using assms(5) d a s(1) by (auto simp: give_def account_sub_def accepted_def)
  then show "expired' = expired" by simp
  show "stays c w w'" using o(2,3) fl s(2) eq(2) by (simp add: stays_def)
qed

lemma route_loop_stays:
  assumes "deps_ok E" "conn_room E i n (w_conns w c)" "frames_bytes (frames_for w from c msg subs) \<le> n"
    and "\<forall>s\<in>set subs. s_conn s = c \<longrightarrow> limit (w_cells w (s_addr s)) = 0" "\<forall>x\<in>set expired. s_conn x \<noteq> c"
    and "route_loop E msg from subs cnt stall expired w = (cnt', stall', expired', w')"
  shows "stays c w w' \<and> (\<forall>x\<in>set expired'. s_conn x \<noteq> c)"
  using assms(2-6)
proof (induction subs arbitrary: cnt stall expired w n)
  case (Cons sub subs)
  show ?case
  proof (cases "eligible w from sub")
    case False
    then have "frames_bytes (frames_for w from c msg subs) \<le> n"
      "\<forall>s\<in>set subs. s_conn s = c \<longrightarrow> limit (w_cells w (s_addr s)) = 0"
      "route_loop E msg from subs cnt stall expired w = (cnt', stall', expired', w')"
      using Cons.prems(2,3,5) by simp_all
    then show ?thesis by (rule Cons.IH [OF Cons.prems(1) _ _ Cons.prems(4)])
  next
    case True
    obtain g ex1 w1 where g: "give E sub msg expired w = (g, ex1, w1)" by (rule prod_cases3)
    obtain cnt1 stall1 where rest: "route_loop E msg from subs cnt1 stall1 ex1 w1 = (cnt', stall', expired', w')"
      using Cons.prems(5) True g by (cases g) auto
    have open_c: "\<not> is_closed w c" using Cons.prems(1) by (simp add: conn_room_def is_closed_def)
    have "\<exists>m. conn_room E i m (w_conns w1 c) \<and> frames_bytes (frames_for w1 from c msg subs) \<le> m \<and> stays c w w1 \<and>
        (\<forall>x\<in>set ex1. s_conn x \<noteq> c)"
    proof (cases "s_conn sub = c")
      case own: True
      have len: "length (sub_frame w sub msg) + frames_bytes (frames_for w from c msg subs) \<le> n"
        using Cons.prems(2) True own by simp
      have room: "conn_room E i n (w_conns w (s_conn sub))" "length (sub_frame w sub msg) \<le> n"
        using Cons.prems(1) own len by auto
      have "limit (w_cells w (s_addr sub)) = 0" using Cons.prems(3) own by simp
      note st = give_own_stays [OF assms(1) room this g]
      have "conn_room E i (n - length (sub_frame w sub msg)) (w_conns w1 c)"
        using give_room(2) [OF assms(1) room g] own by simp
      moreover from this have "frames_for w1 from c msg subs = frames_for w from c msg subs"
        using give_other(4) [OF g] open_c by (intro frames_for_cong) (auto simp: conn_room_def is_closed_def)
      ultimately show ?thesis
        using len st(1) [of c] Cons.prems(4) unfolding st(2)
        by (intro exI [of _ "n - length (sub_frame w sub msg)"]) simp
    next
      case other: False
      have same: "w_conns w1 c = w_conns w c" using give_other(1) [OF g] other by auto
      then have "frames_for w1 from c msg subs = frames_for w from c msg subs"
        using give_other(4) [OF g] by (intro frames_for_cong) (auto simp: is_closed_def)
      moreover have "set ex1 \<subseteq> insert sub (set expired)"
        using g by (auto simp: give_def split: prod.splits Enqueue.splits if_splits)
      ultimately show ?thesis
        using same Cons.prems(1,2,4) Cons.prems(2) [unfolded frames_for_simps] other give_stays [OF g other]
        by (intro exI [of _ n]) (auto simp only: if_False simp_thms)
    qed
    then obtain m where m: "conn_room E i m (w_conns w1 c)" "frames_bytes (frames_for w1 from c msg subs) \<le> m"
      "stays c w w1" "\<forall>x\<in>set ex1. s_conn x \<noteq> c" by blast
    have "\<forall>s\<in>set subs. s_conn s = c \<longrightarrow> limit (w_cells w1 (s_addr s)) = 0"
      using Cons.prems(3) m(3) by (simp add: stays_def)
    from Cons.IH [OF m(1,2) this m(4) rest] show ?thesis using stays_trans [OF m(3), of w'] by simp
  qed
qed simp

text \<open>The list a message is offered to has, of a connection without queue subscriptions, exactly those that match.\<close>

lemma route_list_of_conn:
  assumes "reg_ok (w_registry w)" "interest_ok (w_registry w) it" "route_list subject from it w = (subs, it', w')"
    and "\<forall>s\<in>set (subs_of c (r_inner (w_registry w))). s_queue s = None"
  shows "filter (\<lambda>s. s_conn s = c) subs = filter (\<lambda>s. matches (s_subject s) subject) (subs_of c (r_inner (w_registry w)))"
    "w_conns w' = w_conns w" "w_cells w' = w_cells w" "r_inner (w_registry w') = r_inner (w_registry w)"
proof -
  let ?I = "interested subject (w_registry w)" and ?C = "\<lambda>s. s_conn s = c" and ?N = "\<lambda>s. s_queue s = None"
  obtain jt where jt: "in_subs jt = ?I"
    and rl: "route_list subject from it w =
      (if in_queue jt then
         (case pick_groups (eligible w from) (\<lambda>s. conn_has_room w (s_conn s)) (w_registry w) jt of
            (kt, r') \<Rightarrow> (in_chosen kt, kt, w\<lparr>w_registry := r'\<rparr>))
       else (in_subs jt, jt, w))"
    by (rule route_list_resolved [OF assms(1,2)])
  obtain kt r' where p: "pick_groups (eligible w from) (\<lambda>s. conn_has_room w (s_conn s)) (w_registry w) jt = (kt, r')"
    by (rule prod.exhaust)
  have plain: "filter ?N subs = filter ?N ?I" and same: "w_conns w' = w_conns w \<and> w_cells w' = w_cells w \<and> r_inner (w_registry w') = r_inner (w_registry w)"
    using assms(3) rl jt pick_groups_spec(1,7) [OF p] p by (auto split: if_splits)
  then show "w_conns w' = w_conns w" "w_cells w' = w_cells w" "r_inner (w_registry w') = r_inner (w_registry w)" by auto
  have "filter ?C xs = filter ?C (filter ?N xs)" if "set xs \<subseteq> registered w" for xs
    using assms(4) that by (auto simp: subs_of_def registered_def intro!: filter_cong)
  note own = this
  have I: "set ?I \<subseteq> registered w" by (auto simp: interested_def registered_def)
  have "filter ?C subs = filter ?C (filter ?N subs)" by (rule own [OF route_list_wf(2) [OF assms(1-3)]])
  also have "\<dots> = filter ?C ?I" unfolding plain by (rule own [OF I, symmetric])
  finally show "filter ?C subs = filter (\<lambda>s. matches (s_subject s) subject) (subs_of c (r_inner (w_registry w)))"
    by (simp add: interested_def subs_of_def conj_commute)
qed

section \<open>One message\<close>

text \<open>A connection whose subscriptions are neither queue members nor limited, with room for \<open>n\<close> bytes.\<close>

definition served :: "('ch, 'j) Deps \<Rightarrow> nat \<Rightarrow> nat \<Rightarrow> nat \<Rightarrow> 'ch World \<Rightarrow> bool" where
  "served E i n c w \<longleftrightarrow>
     conn_room E i n (w_conns w c) \<and>
     (\<forall>s\<in>set (subs_of c (r_inner (w_registry w))). s_queue s = None \<and> limit (w_cells w (s_addr s)) = 0)"

text \<open>The frames one message means for it.\<close>

definition frames_of :: "'ch World \<Rightarrow> nat \<Rightarrow> Msg \<Rightarrow> Frame list" where
  "frames_of w c msg =
     map (\<lambda>s. sub_frame w s msg) (filter (\<lambda>s. matches (s_subject s) (m_subject msg)) (subs_of c (r_inner (w_registry w))))"

lemma frames_of_stays: "stays c w w' \<Longrightarrow> frames_of w' c msg = frames_of w c msg"
  using same_flags(3) [of w' w] by (simp add: frames_of_def stays_def)

lemma served_stays: "stays c w w' \<Longrightarrow> served E i n c w \<Longrightarrow> conn_room E i m (w_conns w' c) \<Longrightarrow> served E i m c w'"
  by (auto simp: served_def stays_def)

lemma route_serves:
  assumes "deps_ok E" "world_wf {} w" "interest_ok (w_registry w) it" "served E i n c w" "c \<noteq> from"
    and "frames_bytes (frames_of w c msg) \<le> n" "route E msg from it w = (cnt, stall, it', w')"
  shows "queued E (c_out (w_conns w' c)) = queued E (c_out (w_conns w c)) @ frames_of w c msg"
    "served E i (n - frames_bytes (frames_of w c msg)) c w'" "stays c w w'"
proof -
  obtain subs it1 w1 where rl: "route_list (m_subject msg) from it w = (subs, it1, w1)" by (rule prod_cases3)
  have q: "\<forall>s\<in>set (subs_of c (r_inner (w_registry w))). s_queue s = None" and room: "conn_room E i n (w_conns w c)"
    using assms(4) by (auto simp: served_def)
  note k = route_list_of_conn [OF world_wfD(1) [OF assms(2)] assms(3) rl q]
  have st1: "stays c w w1" using k(2-4) by (simp add: stays_def)
  have "\<not> is_closed w1 c" using room k(2) by (simp add: conn_room_def is_closed_def)
  then have "addressed w1 from c subs = filter (\<lambda>s. s_conn s = c) subs"
    using assms(5) by (auto simp: addressed_def eligible_def intro!: filter_cong)
  then have f: "frames_for w1 from c msg subs = frames_of w c msg"
    using same_flags(3) [of w1 w] k(1,2) by (simp add: frames_for_def frames_of_def)
  have "queued E (c_out (w_conns w' c)) = queued E (c_out (w_conns w c)) @ frames_of w c msg \<and>
      conn_room E i (n - frames_bytes (frames_of w c msg)) (w_conns w' c) \<and> stays c w w'"
  proof (cases "subs = []")
    case True
    then have "w' = w1" "frames_of w c msg = []" using assms(7) rl f by (auto simp: route_def)
    with room k(2) st1 show ?thesis by simp
  next
    case False
    then obtain ex w2 where l: "route_loop E msg from subs 0 [] [] w1 = (cnt, stall, ex, w2)"
      and w': "w' = w2\<lparr>w_registry := expire ex (w_registry w2)\<rparr>"
      using assms(7) rl by (auto simp: route_def split: prod.splits)
    have lim: "\<forall>s\<in>set subs. s_conn s = c \<longrightarrow> limit (w_cells w1 (s_addr s)) = 0"
    proof (intro ballI impI)
      fix s
      assume "s \<in> set subs" "s_conn s = c"
      then have "s \<in> set (filter (\<lambda>s. s_conn s = c) subs)" by simp
      then show "limit (w_cells w1 (s_addr s)) = 0" unfolding k(1) using assms(4) k(3) by (auto simp: served_def)
    qed
    have room1: "conn_room E i n (w_conns w1 c)" "frames_bytes (frames_for w1 from c msg subs) \<le> n"
      using room k(2) f assms(6) by simp_all
    note r = route_loop_conn [OF assms(1) room1 l]
    have s: "stays c w1 w2" "\<forall>x\<in>set ex. s_conn x \<noteq> c" using route_loop_stays [OF assms(1) room1 lim _ l] by auto
    have "reg_ok (w_registry w1)" using world_wfD(1) [OF assms(2)] k(4) by (simp add: reg_ok_def)
    then have ok: "reg_ok (w_registry w2)"
      using route_loop_within [OF l] registry.after_steps by (auto simp: within_def)
    have "stays c w2 w'"
      using subs_of_expire [OF ok s(2)] expire_size [OF ok] by (simp add: stays_def w')
    with stays_trans [OF st1 stays_trans [OF s(1)]] r f k(2) w' show ?thesis by simp
  qed
  then show "queued E (c_out (w_conns w' c)) = queued E (c_out (w_conns w c)) @ frames_of w c msg"
    "served E i (n - frames_bytes (frames_of w c msg)) c w'" "stays c w w'"
    using served_stays assms(4) by blast+
qed

section \<open>One operation\<close>

lemma send_stays: "stays c w (send E d f w)"
proof -
  have "c_flags (w_conns (send E d f w) e) = c_flags (w_conns w e)" for e
    using send_other(1) [of e d E f w] send_out [of E d f w] by (cases "e = d") auto
  then show ?thesis by (simp add: stays_def send_other)
qed

lemma fold_send_other: "c \<noteq> p \<Longrightarrow> w_conns (fold (\<lambda>x. send E p (f x)) xs w) c = w_conns w c"
  by (induction xs arbitrary: w) (simp_all add: send_other)

lemma fold_send_stays: "stays c w (fold (\<lambda>x. send E p (f x)) xs w)"
  by (induction xs arbitrary: w) (auto intro: stays_trans [OF send_stays])

lemma no_responder_stays: "stays c w (no_responder_check E p msg r k w)"
  by (simp add: no_responder_check_def fold_send_stays split: option.split)

text \<open>The message a publish carries.\<close>

definition msg_of :: "bytes \<Rightarrow> bytes option \<Rightarrow> nat \<Rightarrow> bytes \<Rightarrow> Msg" where
  "msg_of s r hdr body = \<lparr>m_subject = s, m_reply = r, m_hdr = hdr, m_body = body\<rparr>"

lemma publish_serves:
  assumes "deps_ok E" "world_wf {} w" "interest_ok (w_registry w) it" "served E i n c w" "c \<noteq> p" "s \<noteq> []"
    and "hpub \<longrightarrow> o_headers (opts w p)" "frames_bytes (frames_of w c (msg_of s r hdr body)) \<le> n"
    and "handle_publish E p s r hdr hpub body it w = (ok, it', stall, w')"
  shows "ok" "queued E (c_out (w_conns w' c)) = queued E (c_out (w_conns w c)) @ frames_of w c (msg_of s r hdr body)"
    "served E i (n - frames_bytes (frames_of w c (msg_of s r hdr body))) c w'" "stays c w w'"
proof -
  let ?m = "msg_of s r hdr body"
  define v1 where "v1 = (if o_pedantic (opts w p) \<and> \<not> is_valid_publish s then send_err E p INVALID_PUBLISH_SUBJECT w else w)"
  define v where "v = (if o_verbose (opts w p) then send E p frame_ok v1 else v1)"
  have v: "w_conns v c = w_conns w c" "w_registry v = w_registry w" "same_wf w v" "stays c w v"
    using assms(5) unfolding v_def v1_def send_err_def
    by (auto simp: send_other intro: send_same_wf same_wf_refl same_wf_trans send_stays stays_trans)
  have sv: "served E i n c v" using served_stays [OF v(4) assms(4), of n] assms(4) v(1) by (simp add: served_def)
  have wf: "world_wf {} v" "interest_ok (w_registry v) it"
    using assms(2,3) world_wf_cong [OF v(3)] v(2) by simp_all
  obtain cnt st it1 v' where rt: "route E ?m p it v = (cnt, st, it1, v')" by (rule prod_cases4)
  note f = frames_of_stays [OF v(4), of ?m]
  note k = route_serves [OF assms(1) wf sv assms(5) assms(8) [folded f] rt]
  have eq: "(ok, it', stall, w') = (True, it1, st, no_responder_check E p ?m r cnt v')"
    using assms(6,7,9) rt unfolding handle_publish_def Let_def v1_def [symmetric] v_def [symmetric] msg_of_def by auto
  have same: "w_conns w' c = w_conns v' c"
    using assms(5) eq by (simp add: no_responder_check_def fold_send_other split: option.split)
  have st: "stays c v' w'" using eq no_responder_stays by simp
  show "ok" using eq by simp
  show "queued E (c_out (w_conns w' c)) = queued E (c_out (w_conns w c)) @ frames_of w c ?m" using k(1) f v(1) same by simp
  show "served E i (n - frames_bytes (frames_of w c ?m)) c w'"
    using k(2) f same served_stays [OF st k(2), of "n - frames_bytes (frames_of w c ?m)"] by (simp add: served_def)
  show "stays c w w'" by (rule stays_trans [OF v(4) stays_trans [OF k(3) st]])
qed

section \<open>A batch\<close>

text \<open>The operations a client's publishes are parsed into, and the messages among them.\<close>

fun pub_event :: "bool \<Rightarrow> Event \<Rightarrow> bool" where
  "pub_event headers (Publish s r hdr n body hpub) \<longleftrightarrow> s \<noteq> [] \<and> (hpub \<longrightarrow> headers)"
| "pub_event headers (HpubAttempt outcome) \<longleftrightarrow> headers \<and> outcome = HOk"
| "pub_event headers ev \<longleftrightarrow> False"

fun event_msgs :: "Event \<Rightarrow> Msg list" where
  "event_msgs (Publish s r hdr n body hpub) = [msg_of s r hdr body]"
| "event_msgs ev = []"

lemma event_serves:
  assumes "deps_ok E" "world_wf {} w" "interest_ok (w_registry w) it" "served E i n c w" "c \<noteq> p"
    and "pub_event (o_headers (opts w p)) ev" "frames_bytes (concat (map (frames_of w c) (event_msgs ev))) \<le> n"
    and "handle E p ev it w = (ok, it', stall, w')"
  shows "ok \<and> queued E (c_out (w_conns w' c)) = queued E (c_out (w_conns w c)) @ concat (map (frames_of w c) (event_msgs ev)) \<and>
    served E i (n - frames_bytes (concat (map (frames_of w c) (event_msgs ev)))) c w' \<and> stays c w w'"
proof (cases ev)
  case (Publish s r hdr m body hpub)
  then have h: "handle_publish E p s r hdr hpub body it w = (ok, it', stall, w')" using assms(8) by (simp add: handle_def)
  show ?thesis
    using publish_serves [OF assms(1-5) _ _ _ h] assms(6,7) Publish by simp
next
  case (HpubAttempt outcome)
  with assms(4,6,8) show ?thesis by (auto simp: handle_def)
qed (use assms(6) in simp_all)

text \<open>
  The steps of a reader while it works off a batch. At each of them the operations done so far have queued
  their frames, in order; the rest will, because nothing it depends on has changed.
\<close>

definition batch_step :: "('ch, 'j) Deps \<Rightarrow> nat \<Rightarrow> Reader \<times> 'ch World \<Rightarrow> Reader \<times> 'ch World \<Rightarrow> bool" where
  "batch_step E p s s' \<longleftrightarrow> reader_step E p s s' \<and> (rd_events (fst s) \<noteq> [] \<or> rd_waiting (fst s) \<noteq> [])"

lemma batch_stepE:
  assumes "batch_step E p (rd, w) (rd', w')"
  obtains (ev) "\<not> rd_done rd" "rd_events rd \<noteq> []" "on_event E p rd w = (rd', w')"
  | (resume) ds where "\<not> rd_done rd" "rd' = rd\<lparr>rd_waiting := ds\<rparr>" "w' = w"
  using assms unfolding batch_step_def by (auto elim: reader_stepE)

definition all_frames :: "'ch World \<Rightarrow> nat \<Rightarrow> Event list \<Rightarrow> Frame list" where
  "all_frames w c evs = concat (map (frames_of w c) (concat (map event_msgs evs)))"

lemma all_frames_simps [simp]:
  "all_frames w c [] = []" "all_frames w c (ev # evs) = concat (map (frames_of w c) (event_msgs ev)) @ all_frames w c evs"
  "all_frames w c (evs @ evs') = all_frames w c evs @ all_frames w c evs'"
  by (simp_all add: all_frames_def)

lemma frames_bytes_append [simp]: "frames_bytes (fs @ gs) = frames_bytes fs + frames_bytes gs"
  by (simp add: frames_bytes_def)

lemma gen_room_within:
  assumes "within n r r'" "gen_room (n + k) r"
  shows "gen_room k r'"
proof -
  obtain m where m: "m \<le> n" "(reg_step ^^ m) r r'" using assms(1) by (auto simp: within_def)
  obtain j where j: "j \<le> m" "r_generation r' = r_generation r + of_nat j" using interest.steps_version [OF m(2)] by blast
  have l: "unat (r_generation r) + j + k < 2 ^ 64 - 1" using assms(2) j(1) m(1) by (simp add: gen_room_def)
  then have "unat (r_generation r') = unat (r_generation r) + j"
    unfolding j(2) by (simp add: unat_word_ariths unat_of_nat)
  with l show ?thesis by (simp add: gen_room_def)
qed

definition batch_inv ::
    "('ch, 'j) Deps \<Rightarrow> nat \<Rightarrow> nat \<Rightarrow> nat \<Rightarrow> 'ch World \<Rightarrow> Event list \<Rightarrow> Reader \<times> 'ch World \<Rightarrow> bool" where
  "batch_inv E i p c w0 evs s \<longleftrightarrow>
     (case s of (rd, w) \<Rightarrow>
        \<exists>ran. evs = ran @ rd_events rd \<and> world_wf {} w \<and> cache_ok (w_registry w) (rd_interest rd) \<and>
          gen_room (length (rd_events rd) * (reg_size w0 + 2)) (w_registry w) \<and> stays c w0 w \<and>
          served E i (frames_bytes (all_frames w0 c (rd_events rd))) c w \<and>
          queued E (c_out (w_conns w c)) = queued E (c_out (w_conns w0 c)) @ all_frames w0 c ran)"

lemma served_less: "served E i n c w \<Longrightarrow> m \<le> n \<Longrightarrow> served E i m c w"
  by (auto simp: served_def intro: conn_room_less)

lemma batch_event:
  assumes "deps_ok E" "c \<noteq> p" "list_all (pub_event (o_headers (opts w0 p))) evs"
    and "batch_inv E i p c w0 evs (rd, w)" "rd_events rd \<noteq> []" "on_event E p rd w = (rd', w')"
  shows "batch_inv E i p c w0 evs (rd', w')" "rd_done rd' = rd_done rd"
proof -
  obtain ev rest where e: "rd_events rd = ev # rest" using assms(5) by (cases "rd_events rd") auto
  obtain ran where ran: "evs = ran @ ev # rest" "world_wf {} w" "cache_ok (w_registry w) (rd_interest rd)"
    "gen_room (length (ev # rest) * (reg_size w0 + 2)) (w_registry w)" "stays c w0 w"
    "served E i (frames_bytes (all_frames w0 c (ev # rest))) c w"
    "queued E (c_out (w_conns w c)) = queued E (c_out (w_conns w0 c)) @ all_frames w0 c ran"
    using assms(4) unfolding batch_inv_def e prod.case by blast
  let ?fs = "concat (map (frames_of w c) (event_msgs ev))"
  have fs: "?fs = concat (map (frames_of w0 c) (event_msgs ev))" using ext [of "frames_of w c", OF frames_of_stays [OF ran(5)]] by simp
  obtain ok it stall w1 where h: "handle E p ev (rd_interest rd) w = (ok, it, stall, w1)" by (rule prod_cases4)
  have size: "reg_size w \<le> reg_size w0" using ran(5) by (simp add: stays_def reg_size_def)
  have g: "gen_room (reg_size w + 2 + length rest * (reg_size w0 + 2)) (w_registry w)"
    using ran(4) size by (simp add: gen_room_def)
  then have g2: "gen_room (reg_size w + 2) (w_registry w)" by (simp add: gen_room_def)
  have op: "pub_event (o_headers (opts w p)) ev"
    using assms(3) ran(1,5) same_flags(4) [of w w0 p] by (simp add: stays_def)
  have len: "frames_bytes ?fs \<le> frames_bytes (all_frames w0 c (ev # rest))" using fs by simp
  note k = event_serves [OF assms(1) ran(2) cache_interest [OF ran(3) g2] ran(6) assms(2) op len h]
  note cw = handle_cache [OF ran(2,3) g2 h]
  have ev': "rd' = rd\<lparr>rd_events := rest, rd_interest := it, rd_waiting := stall\<rparr>" "w' = w1"
    using assms(6) e h k by (auto simp: on_event_def)
  then show "rd_done rd' = rd_done rd" by simp
  have "gen_room (length rest * (reg_size w0 + 2)) (w_registry w1)" using gen_room_within [OF conjunct2 [OF cw] g] .
  moreover have "cache_ok (w_registry w1) it" using cache_within(1) [OF _ g2, of _ it] cw by blast
  moreover have "world_wf {} w1" by (rule handle_wf [OF ran(2) cache_interest [OF ran(3) g2] h])
  moreover have "stays c w0 w1" using stays_trans [OF ran(5)] k by blast
  moreover have "served E i (frames_bytes (all_frames w0 c rest)) c w1"
    using served_less [of E i _ c w1] k fs by auto
  moreover have "queued E (c_out (w_conns w1 c)) = queued E (c_out (w_conns w0 c)) @ all_frames w0 c (ran @ [ev])"
    using k ran(7) fs by simp
  ultimately show "batch_inv E i p c w0 evs (rd', w')"
    unfolding batch_inv_def ev' by (auto intro!: exI [of _ "ran @ [ev]"] simp: ran(1))
qed

interpretation batch: keeps "batch_step E p"
    "\<lambda>s. deps_ok E \<and> c \<noteq> p \<and> list_all (pub_event (o_headers (opts w0 p))) evs \<and> batch_inv E i p c w0 evs s \<and> \<not> rd_done (fst s)"
  for E :: "('ch, 'j) Deps" and p c i :: nat and w0 :: "'ch World" and evs :: "Event list"
proof
  fix s s' :: "Reader \<times> 'ch World"
  assume st: "batch_step E p s s'" and inv: "deps_ok E \<and> c \<noteq> p \<and> list_all (pub_event (o_headers (opts w0 p))) evs \<and>
    batch_inv E i p c w0 evs s \<and> \<not> rd_done (fst s)"
  obtain rd w rd' w' where s: "s = (rd, w)" "s' = (rd', w')" by (metis prod.exhaust)
  from st [unfolded s] have "batch_inv E i p c w0 evs (rd', w') \<and> \<not> rd_done rd'"
  proof (cases rule: batch_stepE)
    case ev
    with inv batch_event [of E c p w0 evs i rd w rd' w'] s(1) show ?thesis by simp
  next
    case (resume ds)
    with inv s(1) show ?thesis by (simp add: batch_inv_def)
  qed
  with inv s(2) show "deps_ok E \<and> c \<noteq> p \<and> list_all (pub_event (o_headers (opts w0 p))) evs \<and>
    batch_inv E i p c w0 evs s' \<and> \<not> rd_done (fst s')" by simp
qed

end
