(* ===== verification/Startup.thy ===== *)
theory Startup
  imports Listener
begin

text \<open>
  The process shell (\<^verbatim>\<open>crates/server/src/main.rs\<close>): the command line, the configuration file, the cross-option check,
  binding and the ports file, in the order of \<^verbatim>\<open>run\<close>. The operating system's answers are the fields of \<open>Host\<close>.
\<close>

section \<open>The shell\<close>

definition PROGRAM :: bytes where "PROGRAM = ''nats-server-rs''"

text \<open>
  What the process asks of its surroundings: the contents of a file, the reader of IPv6 addresses, the kernel's answer to
  \<^verbatim>\<open>bind\<close>, the outcome of writing a file, the name of the executable, the process id, the seed and the version.
\<close>

record Host =
  h_read :: "bytes \<Rightarrow> bytes + bytes"
  h_v6 :: "bytes \<Rightarrow> SocketAddr option"
  h_bind :: "SocketAddr \<Rightarrow> bytes + SocketAddr"
  h_write :: "bytes \<Rightarrow> bytes \<Rightarrow> bytes option"
  h_exe :: "bytes option"
  h_pid :: nat
  h_rng :: Rng
  h_version :: bytes

text \<open>The warnings of the configuration file come first, then one of the ends of \<^verbatim>\<open>run\<close>, or the running server.\<close>

datatype Outcome =
    BadUsage bytes
  | ShowVersion
  | ShowUsage
  | ConfigOk
  | Failed bytes
  | Listening Server SocketAddr "bytes option"

fun exit_code :: "Outcome \<Rightarrow> nat" where
  "exit_code (BadUsage e) = 1"
| "exit_code (Failed e) = 1"
| "exit_code _ = 0"

fun listen_error_text :: "ListenError \<Rightarrow> bytes" where
  "listen_error_text InvalidInput = ''invalid socket address syntax''"
| "listen_error_text (BindFailed e) = e"

definition bind_server :: "Host \<Rightarrow> Server \<Rightarrow> bytes + (SocketAddr \<times> Server)" where
  "bind_server H sv =
     (case serve_bind (h_v6 H) (h_bind H) sv of
        Inr r \<Rightarrow> Inr r
      | Inl e \<Rightarrow>
          Inl (''process couldn'' @ [CHR 0x27] @ ''t start server: failed to listen on '' @ cfg_host (sv_cfg sv) @ '':'' @
               show_int (bind_port (sv_cfg sv)) @ '' - '' @ listen_error_text e))"

text \<open>\<^verbatim>\<open>Path::join\<close> with a relative name.\<close>

definition path_join :: "bytes \<Rightarrow> bytes \<Rightarrow> bytes" where
  "path_join dir name = (if dir = [] \<or> last dir = CHR ''/'' then dir @ name else dir @ ''/'' @ name)"

definition ports_body :: "SocketAddr \<Rightarrow> bytes" where
  "ports_body addr =
     [CHR 0x7B, CHR 0x22] @ ''nats'' @ [CHR 0x22] @ '':['' @ [CHR 0x22] @ ''nats://'' @ addr_ip addr @ '':'' @
     show_nat (unat (addr_port addr)) @ [CHR 0x22] @ '']'' @ [CHR 0x7D]"

definition write_ports_file :: "Host \<Rightarrow> Server \<Rightarrow> SocketAddr \<Rightarrow> bytes + bytes option" where
  "write_ports_file H sv addr =
     (case cfg_ports_file_dir (sv_cfg sv) of
        None \<Rightarrow> Inr None
      | Some dir \<Rightarrow>
          let exe = (case h_exe H of Some e \<Rightarrow> e | None \<Rightarrow> PROGRAM);
              path = path_join dir (exe @ ''_'' @ show_nat (h_pid H) @ ''.ports'')
          in case h_write H path (ports_body addr) of
            None \<Rightarrow> Inr (Some path)
          | Some e \<Rightarrow> Inl e)"

definition load_config :: "Host \<Rightarrow> CmdArgs \<Rightarrow> bytes + (Config \<times> bytes list)" where
  "load_config H args =
     (case arg_config_file args of
        None \<Rightarrow> Inr (default_config, [])
      | Some path \<Rightarrow>
          (case h_read H path of
             Inl e \<Rightarrow> Inl (''could not read config file '' @ path @ '': '' @ e)
           | Inr text \<Rightarrow> parse_config text))"

definition listen_on :: "Host \<Rightarrow> Config \<Rightarrow> Outcome" where
  "listen_on H cfg =
     (case bind_server H (server_new (h_version H) (h_rng H) cfg) of
        Inl e \<Rightarrow> Failed e
      | Inr (addr, sv) \<Rightarrow>
          (case write_ports_file H sv addr of
             Inl e \<Rightarrow> Failed e
           | Inr file \<Rightarrow> Listening sv addr file))"

definition run_server :: "Host \<Rightarrow> bytes list \<Rightarrow> bytes list \<times> Outcome" where
  "run_server H argv =
     (case parse_args argv PROGRAM of
        Inl e \<Rightarrow> ([], BadUsage e)
      | Inr args \<Rightarrow>
          if arg_version args then ([], ShowVersion)
          else if arg_help args then ([], ShowUsage)
          else case load_config H args of
            Inl e \<Rightarrow> ([], Failed e)
          | Inr (cfg, warnings) \<Rightarrow>
              let cfg = apply_flags args cfg in
              (warnings,
               case validate cfg of
                 Inl e \<Rightarrow> Failed e
               | Inr u \<Rightarrow> if arg_test_config args then ConfigOk else listen_on H cfg))"

section \<open>Writing a command line\<close>

definition opt_args :: "bytes \<Rightarrow> bytes option \<Rightarrow> bytes list" where
  "opt_args flag v = (case v of Some x \<Rightarrow> [flag, x] | None \<Rightarrow> [])"

definition switch_args :: "bytes \<Rightarrow> bool \<Rightarrow> bytes list" where
  "switch_args flag b = (if b then [flag] else [])"

definition render_args :: "CmdArgs \<Rightarrow> bytes list" where
  "render_args a =
     opt_args ''-a'' (arg_host a) @ opt_args ''-p'' (map_option show_int (arg_port a)) @ opt_args ''-n'' (arg_server_name a) @
     opt_args ''-c'' (arg_config_file a) @ opt_args ''--ports_file_dir'' (arg_ports_file_dir a) @
     switch_args ''-t'' (arg_test_config a) @ switch_args ''-v'' (arg_version a) @ switch_args ''-h'' (arg_help a) @
     switch_args ''-D'' (arg_debug a) @ switch_args ''-V'' (arg_trace a)"

text \<open>The flags one by one; \<open>rest\<close> is what is left of the line.\<close>

lemmas flag_steps = flag_name_def split_once_def starts_with_def parse_flag_def with_value_def flag_value_def

lemma arg_same:
  "arg_host out = None \<Longrightarrow> out\<lparr>arg_host := None\<rparr> = out" "arg_port out = None \<Longrightarrow> out\<lparr>arg_port := None\<rparr> = out"
  "arg_server_name out = None \<Longrightarrow> out\<lparr>arg_server_name := None\<rparr> = out"
  "arg_config_file out = None \<Longrightarrow> out\<lparr>arg_config_file := None\<rparr> = out"
  "arg_ports_file_dir out = None \<Longrightarrow> out\<lparr>arg_ports_file_dir := None\<rparr> = out"
  "\<not> arg_test_config out \<Longrightarrow> out\<lparr>arg_test_config := False\<rparr> = out" "\<not> arg_version out \<Longrightarrow> out\<lparr>arg_version := False\<rparr> = out"
  "\<not> arg_help out \<Longrightarrow> out\<lparr>arg_help := False\<rparr> = out" "\<not> arg_debug out \<Longrightarrow> out\<lparr>arg_debug := False\<rparr> = out"
  "\<not> arg_trace out \<Longrightarrow> out\<lparr>arg_trace := False\<rparr> = out" for out :: CmdArgs
  by simp_all

lemma loop_host: "arg_host out = None \<Longrightarrow> parse_args_loop p (opt_args ''-a'' v @ rest) out = parse_args_loop p rest (out\<lparr>arg_host := v\<rparr>)"
  by (cases v) (simp_all add: opt_args_def flag_steps arg_same)

lemma loop_name:
  "arg_server_name out = None \<Longrightarrow> parse_args_loop p (opt_args ''-n'' v @ rest) out = parse_args_loop p rest (out\<lparr>arg_server_name := v\<rparr>)"
  by (cases v) (simp_all add: opt_args_def flag_steps arg_same)

lemma loop_config:
  "arg_config_file out = None \<Longrightarrow> parse_args_loop p (opt_args ''-c'' v @ rest) out = parse_args_loop p rest (out\<lparr>arg_config_file := v\<rparr>)"
  by (cases v) (simp_all add: opt_args_def flag_steps arg_same)

lemma loop_ports:
  "arg_ports_file_dir out = None \<Longrightarrow> parse_args_loop p (opt_args ''--ports_file_dir'' v @ rest) out =
     parse_args_loop p rest (out\<lparr>arg_ports_file_dir := v\<rparr>)"
  by (cases v) (simp_all add: opt_args_def flag_steps arg_same)

lemma loop_switches:
  "\<not> arg_test_config out \<Longrightarrow> parse_args_loop p (switch_args ''-t'' b @ rest) out = parse_args_loop p rest (out\<lparr>arg_test_config := b\<rparr>)"
  "\<not> arg_version out \<Longrightarrow> parse_args_loop p (switch_args ''-v'' b @ rest) out = parse_args_loop p rest (out\<lparr>arg_version := b\<rparr>)"
  "\<not> arg_help out \<Longrightarrow> parse_args_loop p (switch_args ''-h'' b @ rest) out = parse_args_loop p rest (out\<lparr>arg_help := b\<rparr>)"
  "\<not> arg_debug out \<Longrightarrow> parse_args_loop p (switch_args ''-D'' b @ rest) out = parse_args_loop p rest (out\<lparr>arg_debug := b\<rparr>)"
  "\<not> arg_trace out \<Longrightarrow> parse_args_loop p (switch_args ''-V'' b @ rest) out = parse_args_loop p rest (out\<lparr>arg_trace := b\<rparr>)"
  by (cases b; simp add: switch_args_def flag_steps arg_same)+

definition port_in_range :: "CmdArgs \<Rightarrow> bool" where
  "port_in_range a \<longleftrightarrow> (case arg_port a of Some n \<Rightarrow> - (2 ^ 31) \<le> n \<and> n < 2 ^ 31 | None \<Rightarrow> True)"

lemma loop_port:
  assumes "case v of Some n \<Rightarrow> - (2 ^ 31) \<le> n \<and> n < 2 ^ 31 | None \<Rightarrow> True" "arg_port out = None"
  shows "parse_args_loop p (opt_args ''-p'' (map_option show_int v) @ rest) out = parse_args_loop p rest (out\<lparr>arg_port := v\<rparr>)"
proof (cases v)
  case (Some n)
  then have "parse_signed 32 (show_int n) = Some n" using assms(1) by (intro parse_signed_show_int) simp_all
  then show ?thesis using Some by (simp add: opt_args_def flag_steps set_port_def)
qed (use assms(2) in \<open>simp add: opt_args_def arg_same\<close>)

lemma parse_render_args: "port_in_range a \<Longrightarrow> parse_args (render_args a) p = Inr a"
proof -
  assume "port_in_range a"
  then have "case arg_port a of Some n \<Rightarrow> - (2 ^ 31) \<le> n \<and> n < 2 ^ 31 | None \<Rightarrow> True" by (simp add: port_in_range_def)
  from loop_port [OF this] loop_switches [where rest = "[]"]
  show "parse_args (render_args a) p = Inr a"
    unfolding parse_args_def render_args_def
    by (simp add: loop_host loop_name loop_config loop_ports loop_switches default_args_def)
qed

section \<open>Properties\<close>



end
