(* ===== verification/Harness.thy ===== *)
theory Harness
  imports Startup
begin

text \<open>
  The harness of the integration suite (\<^verbatim>\<open>crates/harness/src/lib.rs\<close>): it starts the server with a directory for
  the ports file, waits until the file names a port that answers, and hands the address to the clients. What the polls
  see (the clock, the child, the directory, the connection attempt) is a list of observations; \<^verbatim>\<open>serde_json\<close> is
  an argument.
\<close>

section \<open>Starting\<close>

definition resolve_bin :: "bytes option \<Rightarrow> bytes + bytes" where
  "resolve_bin env_val =
     (case env_val of
        Some bin \<Rightarrow>
          if bin \<noteq> [] then Inr bin
          else Inl ''NATS_SERVER_BIN is not set: point it at the nats-server binary under test''
      | None \<Rightarrow> Inl ''NATS_SERVER_BIN is not set: point it at the nats-server binary under test'')"

definition launch_args :: "bytes \<Rightarrow> bytes list \<Rightarrow> bytes list" where
  "launch_args dir extra_args = [''-a'', ''127.0.0.1'', ''-p'', ''-1'', ''--ports_file_dir'', dir] @ extra_args"

text \<open>\<^verbatim>\<open>start_with_config\<close>: the file it writes and the arguments it adds.\<close>

definition config_path :: "bytes \<Rightarrow> bytes" where
  "config_path dir = path_join dir ''nats.conf''"

definition start_with_config_args :: "bytes \<Rightarrow> bytes list" where
  "start_with_config_args dir = launch_args dir [''-c'', config_path dir]"

definition client_addr :: "bytes \<Rightarrow> 16 word \<Rightarrow> bytes" where
  "client_addr host port = host @ '':'' @ show_nat (unat port)"

section \<open>The ports file\<close>

definition file_name :: "bytes \<Rightarrow> bytes" where
  "file_name path = last (split_on (\<lambda>b. b = CHR ''/'') path)"

text \<open>\<^verbatim>\<open>path.extension() == Some("ports")\<close>.\<close>

definition has_ports_ext :: "bytes \<Rightarrow> bool" where
  "has_ports_ext path \<longleftrightarrow>
     (let n = file_name path in length n > 6 \<and> drop (length n - 6) n = ''.ports'')"

text \<open>The first occurrence of a text, and \<^verbatim>\<open>split(p).nth(1)\<close>.\<close>

fun find_str :: "bytes \<Rightarrow> bytes \<Rightarrow> nat option" where
  "find_str p [] = (if p = [] then Some 0 else None)"
| "find_str p (b # s) = (if starts_with p (b # s) then Some 0 else map_option Suc (find_str p s))"

definition second_piece :: "bytes \<Rightarrow> bytes \<Rightarrow> bytes option" where
  "second_piece p s =
     (case find_str p s of
        None \<Rightarrow> None
      | Some i \<Rightarrow>
          let rest = drop (i + length p) s in
          Some (case find_str p rest of None \<Rightarrow> rest | Some j \<Rightarrow> take j rest))"

definition rsplit_once :: "byte \<Rightarrow> bytes \<Rightarrow> (bytes \<times> bytes) option" where
  "rsplit_once c s = map_option (\<lambda>(a, b). (rev b, rev a)) (split_once c (rev s))"

text \<open>\<^verbatim>\<open>str::parse::<u16>\<close>.\<close>

definition parse_u16 :: "bytes \<Rightarrow> 16 word option" where
  "parse_u16 s = read_port (if s \<noteq> [] \<and> hd s = CHR ''+'' then tl s else s)"

datatype FileRead = Content bytes | Missing | Unreadable bytes

text \<open>
  One entry of the directory. \<open>js\<close> is \<^verbatim>\<open>from_str\<close> with the lookups that follow: \<open>None\<close> for text that is no
  JSON, otherwise the string at \<^verbatim>\<open>nats[0]\<close> if there is one.
\<close>

definition read_entry ::
    "(bytes \<Rightarrow> bytes option option) \<Rightarrow> bytes \<times> FileRead \<Rightarrow> bytes + (bytes \<times> 16 word) option" where
  "read_entry js e =
     (if \<not> has_ports_ext (fst e) then Inr None
      else case snd e of
        Missing \<Rightarrow> Inr None
      | Unreadable err \<Rightarrow> Inl err
      | Content content \<Rightarrow>
          (case js content of
             Some (Some url) \<Rightarrow>
               let authority = (case second_piece ''//'' url of Some a \<Rightarrow> a | None \<Rightarrow> url) in
               (case rsplit_once (CHR '':'') authority of
                  None \<Rightarrow> Inl (''bad ports url: '' @ url)
                | Some (host, port) \<Rightarrow>
                    (case parse_u16 port of None \<Rightarrow> Inr None | Some p \<Rightarrow> Inr (Some (host, p))))
           | _ \<Rightarrow> Inr None))"

fun read_entries ::
    "(bytes \<Rightarrow> bytes option option) \<Rightarrow> (bytes \<times> FileRead) list \<Rightarrow> bytes + (bytes \<times> 16 word) option" where
  "read_entries js [] = Inr None"
| "read_entries js (e # es) =
     (case read_entry js e of
        Inl err \<Rightarrow> Inl err
      | Inr (Some r) \<Rightarrow> Inr (Some r)
      | Inr None \<Rightarrow> read_entries js es)"

text \<open>\<^verbatim>\<open>read_dir\<close>: the entries, \<open>None\<close> when there is no such directory, or an error.\<close>

definition read_ports_file ::
    "(bytes \<Rightarrow> bytes option option) \<Rightarrow> bytes + (bytes \<times> FileRead) list option \<Rightarrow> bytes + (bytes \<times> 16 word) option" where
  "read_ports_file js dir =
     (case dir of
        Inl err \<Rightarrow> Inl err
      | Inr None \<Rightarrow> Inr None
      | Inr (Some es) \<Rightarrow> read_entries js es)"

section \<open>Readiness\<close>

definition parse_ipv4 :: "bytes \<Rightarrow> bool" where
  "parse_ipv4 host \<longleftrightarrow>
     (let os = map read_octet (split_on (\<lambda>b. b = CHR ''.'') host) in length os = 4 \<and> list_all (\<lambda>x. x \<noteq> None) os)"

definition tcp_reachable :: "(bytes \<Rightarrow> 16 word \<Rightarrow> bool) \<Rightarrow> bytes \<Rightarrow> 16 word \<Rightarrow> bool" where
  "tcp_reachable connects host port \<longleftrightarrow> parse_ipv4 host \<and> connects host port"

text \<open>One turn of the loop: whether the deadline has passed, the status of a child that exited, the directory, and who answers.\<close>

record Poll =
  po_late :: bool
  po_exit :: "bytes + bytes option"
  po_dir :: "bytes + (bytes \<times> FileRead) list option"
  po_connects :: "bytes \<Rightarrow> 16 word \<Rightarrow> bool"

datatype Ready = NotYet | ReadyAt bytes "16 word" bytes | NeverReady bytes

fun wait_until_ready :: "(bytes \<Rightarrow> bytes option option) \<Rightarrow> Poll list \<Rightarrow> Ready" where
  "wait_until_ready js [] = NotYet"
| "wait_until_ready js (p # ps) =
     (if po_late p then NeverReady ''server not ready within 10s''
      else case po_exit p of
        Inl e \<Rightarrow> NeverReady e
      | Inr (Some status) \<Rightarrow> NeverReady (''server exited early: '' @ status)
      | Inr None \<Rightarrow>
          (case read_ports_file js (po_dir p) of
             Inl e \<Rightarrow> NeverReady e
           | Inr (Some (host, port)) \<Rightarrow>
               if tcp_reachable (po_connects p) host port
               then ReadyAt host port (''nats://'' @ host @ '':'' @ show_nat (unat port))
               else wait_until_ready js ps
           | Inr None \<Rightarrow> wait_until_ready js ps))"

section \<open>The file the server writes\<close>

text \<open>What the harness relies on of the JSON reader: an object with one list of one string without escapes.\<close>

definition unescaped :: "byte \<Rightarrow> bool" where
  "unescaped b \<longleftrightarrow> 0x20 \<le> (of_char b :: nat) \<and> b \<noteq> CHR 0x22 \<and> b \<noteq> CHR 0x5C"

definition ports_json :: "(bytes \<Rightarrow> bytes option option) \<Rightarrow> bool" where
  "ports_json js \<longleftrightarrow>
     (\<forall>s. list_all unescaped s \<longrightarrow>
        js ([CHR 0x7B, CHR 0x22] @ ''nats'' @ [CHR 0x22] @ '':['' @ [CHR 0x22] @ s @ [CHR 0x22] @ '']'' @ [CHR 0x7D]) = Some (Some s))"

definition json_sample_url :: "bytes \<Rightarrow> bytes option option" where
  "json_sample_url t =
     (if take 10 t = [CHR 0x7B, CHR 0x22] @ ''nats'' @ [CHR 0x22] @ '':['' @ [CHR 0x22]
      then Some (Some (take (length t - 13) (drop 10 t))) else None)"

lemma ports_json_sample: "ports_json json_sample_url"
  by (simp add: ports_json_def json_sample_url_def)

lemma find_str_None: "p \<noteq> [] \<Longrightarrow> hd p \<notin> set s \<Longrightarrow> find_str p s = None"
  by (induction s) (auto simp: starts_with_def take_Cons' neq_Nil_conv split: if_splits)

lemma rsplit_once_last: "c \<notin> set b \<Longrightarrow> rsplit_once c (a @ c # b) = Some (a, b)"
  using split_once_first [of c "rev b" "rev a"] by (simp add: rsplit_once_def)

lemma parse_u16_show: "parse_u16 (show_nat (unat p)) = Some p"
  using digit_plain [OF show_nat_ends_digit(1) [of "unat p"]] read_port_show by (simp add: parse_u16_def)

definition addr_url :: "SocketAddr \<Rightarrow> bytes" where
  "addr_url addr = ''nats://'' @ addr_ip addr @ '':'' @ show_nat (unat (addr_port addr))"

lemma v4_ip_bytes: "x \<in> set (addr_ip (V4 a b c d p)) \<Longrightarrow> is_ascii_digit x \<or> x = CHR ''.''"
  using show_nat_digits by auto

lemma digit_unescaped: "is_ascii_digit x \<or> x = CHR ''.'' \<Longrightarrow> unescaped x"
  by (auto simp: is_ascii_digit_def unescaped_def)

lemma addr_url_plain: "list_all unescaped (addr_url (V4 a b c d p))"
proof -
  have "list_all unescaped (addr_ip (V4 a b c d p))"
    unfolding list_all_iff by (intro ballI digit_unescaped v4_ip_bytes)
  moreover have "list_all unescaped (show_nat (unat p))"
    unfolding list_all_iff by (intro ballI digit_unescaped disjI1 show_nat_digits)
  moreover have "list_all unescaped ''nats://''" "unescaped (CHR '':'')" by (simp_all add: unescaped_def)
  ultimately show ?thesis by (simp add: addr_url_def del: addr_ip.simps)
qed

lemma read_entry_ports:
  assumes "ports_json js" "has_ports_ext path"
  shows "read_entry js (path, Content (ports_body (V4 a b c d p))) = Inr (Some (addr_ip (V4 a b c d p), p))"
proof -
  let ?ip = "addr_ip (V4 a b c d p)"
  have "ports_body (V4 a b c d p) = [CHR 0x7B, CHR 0x22] @ ''nats'' @ [CHR 0x22] @ '':['' @ [CHR 0x22] @ addr_url (V4 a b c d p) @ [CHR 0x22] @ '']'' @ [CHR 0x7D]"
    by (simp add: ports_body_def addr_url_def)
  then have js: "js (ports_body (V4 a b c d p)) = Some (Some (addr_url (V4 a b c d p)))"
    using assms(1) addr_url_plain [of a b c d p] by (simp add: ports_json_def)
  let ?rest = "?ip @ CHR '':'' # show_nat (unat p)"
  have "CHR ''/'' \<notin> set ?rest"
    using v4_ip_bytes [of "CHR ''/''" a b c d p] show_nat_digits [of "CHR ''/''" "unat p"] by (auto simp: is_ascii_digit_def)
  then have none: "find_str ''//'' ?rest = None" by (intro find_str_None) simp_all
  have "find_str ''//'' (''nats://'' @ ?rest) = Some 5" by (simp add: starts_with_def)
  then have "second_piece ''//'' (addr_url (V4 a b c d p)) = Some ?rest"
    using none by (simp add: second_piece_def addr_url_def Let_def del: addr_ip.simps)
  moreover have "CHR '':'' \<notin> set (show_nat (unat p))" using show_nat_digits [of "CHR '':''" "unat p"] by (auto simp: is_ascii_digit_def)
  then have "rsplit_once (CHR '':'') ?rest = Some (?ip, show_nat (unat p))" by (rule rsplit_once_last)
  ultimately show ?thesis
    using assms(2) js by (simp add: read_entry_def Let_def parse_u16_show del: addr_ip.simps)
qed

text \<open>The name of the ports file.\<close>

lemma split_on_join_two: "p s \<Longrightarrow> split_on p (d @ s # n) = split_on p d @ split_on p n"
proof (induction d)
  case (Cons x d)
  then show ?case by (cases "split_on p d") auto
qed simp

lemma ports_path_ext:
  assumes "CHR ''/'' \<notin> set exe"
  shows "has_ports_ext (path_join dir (exe @ ''_'' @ show_nat pid @ ''.ports''))"
proof -
  let ?n = "exe @ ''_'' @ show_nat pid @ ''.ports''"
  have n: "\<forall>x\<in>set ?n. \<not> x = CHR ''/''"
    using assms show_nat_digits [of "CHR ''/''" pid] by (auto simp: is_ascii_digit_def)
  have last: "last (split_on (\<lambda>b. b = CHR ''/'') (d @ CHR ''/'' # ?n)) = ?n" for d
    using split_on_no_sep [OF n] by (simp only: split_on_join_two simp_thms) simp
  have "file_name (path_join dir ?n) = ?n"
  proof (cases "dir = [] \<or> last dir = CHR ''/''")
    case True
    then show ?thesis
    proof (cases dir rule: rev_cases)
      case Nil
      then show ?thesis by (simp add: file_name_def path_join_def split_on_no_sep [OF n, simplified])
    next
      case (snoc d x)
      then show ?thesis using True last [of d] by (simp add: file_name_def path_join_def)
    qed
  next
    case False
    then show ?thesis using last [of dir] by (simp add: file_name_def path_join_def)
  qed
  then show ?thesis by (simp add: has_ports_ext_def)
qed

section \<open>The server the harness starts\<close>

definition launch_record :: "bytes \<Rightarrow> bytes option \<Rightarrow> CmdArgs" where
  "launch_record dir file =
     default_args\<lparr>arg_host := Some ''127.0.0.1'', arg_port := Some (-1), arg_ports_file_dir := Some dir, arg_config_file := file\<rparr>"

lemma parse_launch_args: "parse_args (launch_args dir (opt_args ''-c'' file)) prog = Inr (launch_record dir file)"
proof -
  have "show_int (-1) = ''-1''" by code_simp
  then have a: "launch_args dir (opt_args ''-c'' file) =
      opt_args ''-a'' (Some ''127.0.0.1'') @ opt_args ''-p'' (map_option show_int (Some (-1))) @
      opt_args ''--ports_file_dir'' (Some dir) @ opt_args ''-c'' file @ []"
    by (simp add: launch_args_def opt_args_def)
  have "arg_host default_args = None" "arg_port default_args = None" "arg_ports_file_dir default_args = None"
    "arg_config_file default_args = None" by (simp_all add: default_args_def)
  then show ?thesis
    unfolding parse_args_def a
    by (simp add: loop_host loop_port [where v = "Some (-1)", simplified] loop_ports loop_config [where rest = "[]", simplified]
        launch_record_def)
qed

lemma localhost_text: "addr_ip (V4 127 0 0 1 p) = ''127.0.0.1''"
proof -
  have "show_nat 127 = ''127''" "show_nat 0 = ''0''" "show_nat 1 = ''1''" by code_simp+
  then show ?thesis by simp
qed

lemma launch_binds:
  assumes "cfg' = apply_flags (launch_record dir file) cfg" "h_bind H (V4 127 0 0 1 0) = Inr addr"
  shows "bind_server H (server_new v g cfg') = Inr (addr, (server_new v g cfg')\<lparr>sv_listen := Some addr\<rparr>)"
proof -
  have c: "cfg_host cfg' = addr_ip (V4 127 0 0 1 0)" "cfg_port cfg' = -1"
    unfolding localhost_text by (simp_all add: assms(1) apply_flags_def launch_record_def default_args_def)
  then have "parse_addr (h_v6 H) (bind_text cfg') = Some (V4 127 0 0 1 (requested_port (cfg_port cfg')))"
    by (intro bind_text_v4) simp_all
  then have "serve_bind (h_v6 H) (h_bind H) (server_new v g cfg') = Inr (addr, (server_new v g cfg')\<lparr>sv_listen := Some addr\<rparr>)"
    using c(2) assms(2) by (simp add: serve_bind_def server_new_def Let_def requested_port_def set_listen_def)
  then show ?thesis by (simp add: bind_server_def)
qed

section \<open>Properties\<close>



end
