(* ===== verification/Launch.thy ===== *)
theory Launch
  imports Harness
begin

text \<open>
  The child process of the harness (\<^verbatim>\<open>Server\<close> of \<^verbatim>\<open>crates/harness/src/lib.rs\<close>, \<^verbatim>\<open>target\<close> of \<^verbatim>\<open>crates/bench/src/lib.rs\<close>):
  how it is started, what becomes of it when it does not get ready, and what dropping the guard does. What these do to
  the system is a list of actions; what the temporary directory, the file system and \<^verbatim>\<open>spawn\<close> answer is an argument.
\<close>

section \<open>The guard\<close>

record Guard =
  g_child :: nat
  g_dir :: bytes
  g_url :: bytes
  g_host :: bytes
  g_port :: "16 word"

datatype SysCall =
    MakeDir bytes
  | WriteFile bytes bytes
  | Spawn bytes "bytes list" nat
  | Kill nat
  | Reap nat
  | RemoveDir bytes

text \<open>Dropping the guard: its own \<^verbatim>\<open>drop\<close>, then its fields, of which the directory removes itself.\<close>

definition drop_guard :: "Guard \<Rightarrow> SysCall list" where
  "drop_guard srv = [Kill (g_child srv), Reap (g_child srv), RemoveDir (g_dir srv)]"

text \<open>\<^verbatim>\<open>launch\<close>; it has no result while it waits. Whatever it owns when it fails is dropped.\<close>

definition launch ::
    "(bytes \<Rightarrow> bytes option option) \<Rightarrow> bytes option \<Rightarrow> (bytes + nat) \<Rightarrow> Poll list \<Rightarrow> bytes list \<Rightarrow> bytes \<Rightarrow> SysCall list \<times> (bytes + Guard) option" where
  "launch js env spawned polls extra_args dir =
     (case resolve_bin env of
        Inl e \<Rightarrow> ([RemoveDir dir], Some (Inl e))
      | Inr bin \<Rightarrow>
          (case spawned of
             Inl e \<Rightarrow> ([RemoveDir dir], Some (Inl (''failed to spawn '' @ bin)))
           | Inr pid \<Rightarrow>
               let started = [Spawn bin (launch_args dir extra_args) pid];
                   srv = \<lparr>g_child = pid, g_dir = dir, g_url = [], g_host = ''127.0.0.1'', g_port = 0\<rparr>
               in case wait_until_ready js polls of
                    NotYet \<Rightarrow> (started, None)
                  | NeverReady e \<Rightarrow> (started @ [Kill pid, Reap pid] @ drop_guard srv, Some (Inl e))
                  | ReadyAt host port url \<Rightarrow> (started, Some (Inr (srv\<lparr>g_host := host, g_port := port, g_url := url\<rparr>)))))"

definition start_with_args ::
    "(bytes \<Rightarrow> bytes option option) \<Rightarrow> bytes option \<Rightarrow> bytes + bytes \<Rightarrow> (bytes + nat) \<Rightarrow> Poll list \<Rightarrow> bytes list \<Rightarrow> SysCall list \<times> (bytes + Guard) option" where
  "start_with_args js env tmp spawned polls extra_args =
     (case tmp of
        Inl e \<Rightarrow> ([], Some (Inl e))
      | Inr dir \<Rightarrow> (let (acts, r) = launch js env spawned polls extra_args dir in (MakeDir dir # acts, r)))"

definition start ::
    "(bytes \<Rightarrow> bytes option option) \<Rightarrow> bytes option \<Rightarrow> bytes + bytes \<Rightarrow> (bytes + nat) \<Rightarrow> Poll list \<Rightarrow> SysCall list \<times> (bytes + Guard) option" where
  "start js env tmp spawned polls = start_with_args js env tmp spawned polls []"

definition start_with_config ::
    "(bytes \<Rightarrow> bytes option option) \<Rightarrow> bytes option \<Rightarrow> bytes + bytes \<Rightarrow> bytes option \<Rightarrow> (bytes + nat) \<Rightarrow> Poll list \<Rightarrow> bytes \<Rightarrow>
     SysCall list \<times> (bytes + Guard) option" where
  "start_with_config js env tmp write_err spawned polls config =
     (case tmp of
        Inl e \<Rightarrow> ([], Some (Inl e))
      | Inr dir \<Rightarrow>
          (case write_err of
             Some e \<Rightarrow> ([MakeDir dir, RemoveDir dir], Some (Inl e))
           | None \<Rightarrow>
               (let (acts, r) = launch js env spawned polls [''-c'', config_path dir] dir
                in (MakeDir dir # WriteFile (config_path dir) config # acts, r))))"

definition guard_addr :: "Guard \<Rightarrow> bytes" where
  "guard_addr srv = client_addr (g_host srv) (g_port srv)"

text \<open>\<^verbatim>\<open>target\<close> of the benches: a server that is already up, or one of their own.\<close>

definition bench_target ::
    "bytes option \<Rightarrow> SysCall list \<times> (bytes + Guard) option \<Rightarrow> SysCall list \<times> (bytes + (Guard option \<times> bytes)) option" where
  "bench_target url started =
     (let own = (fst started, map_option (map_sum id (\<lambda>srv. (Some srv, guard_addr srv))) (snd started)) in
      case url of
        Some u \<Rightarrow> if u \<noteq> [] then ([], Some (Inr (None, u))) else own
      | None \<Rightarrow> own)"

section \<open>What is left behind\<close>

text \<open>The children that run and the directories that exist, after some actions.\<close>

fun act :: "SysCall \<Rightarrow> nat list \<times> bytes list \<Rightarrow> nat list \<times> bytes list" where
  "act (MakeDir d) (ps, ds) = (ps, d # ds)"
| "act (WriteFile p b) (ps, ds) = (ps, ds)"
| "act (Spawn bin args pid) (ps, ds) = (pid # ps, ds)"
| "act (Kill pid) (ps, ds) = (ps, ds)"
| "act (Reap pid) (ps, ds) = (removeAll pid ps, ds)"
| "act (RemoveDir d) (ps, ds) = (ps, removeAll d ds)"

definition left_behind :: "SysCall list \<Rightarrow> nat list \<times> bytes list \<Rightarrow> nat list \<times> bytes list" where
  "left_behind acts s = fold act acts s"

text \<open>What is owed when a start is over: the drop of the guard, if there is one.\<close>

fun drop_result :: "bytes + Guard \<Rightarrow> SysCall list" where
  "drop_result (Inl e) = []"
| "drop_result (Inr srv) = drop_guard srv"

lemma launch_clean:
  assumes "launch js env spawned polls extra_args dir = (acts, Some r)" "\<forall>pid. spawned = Inr pid \<longrightarrow> pid \<notin> set ps" "dir \<notin> set ds"
  shows "left_behind (acts @ drop_result r) (ps, dir # ds) = (ps, ds)"
  using assms by (auto simp: launch_def left_behind_def drop_guard_def Let_def split: sum.splits Ready.splits)

section \<open>Properties\<close>



end
