(* ===== verification/Flood.thy ===== *)
theory Flood
  imports Wire Frames Config_File "HOL-Library.Sublist"
begin

text \<open>
  The delivery bench (\<^verbatim>\<open>crates/bench/src/bin/floodpubsub.rs\<close>): two raw sockets, a publisher that pushes
  pre-encoded frames and a subscriber that counts the frames the server sends. What a socket does is a list of
  events; the numbers are those of a release build, where \<^verbatim>\<open>usize\<close> wraps.
\<close>

section \<open>The frame scanner\<close>

datatype ScanFrame = Message nat | PingFrame | SkipBytes nat | NeedMore | ErrFrame bytes

text \<open>The last piece of \<^verbatim>\<open>rsplit\<close> at the blanks.\<close>

definition last_word :: "bytes \<Rightarrow> bytes" where
  "last_word s = last (split_on (\<lambda>b. b = SP) s)"

definition next_frame :: "bytes \<Rightarrow> ScanFrame" where
  "next_frame src =
     (case position (\<lambda>b. b = LF) src of
        None \<Rightarrow> NeedMore
      | Some nl \<Rightarrow>
          let line = take (nl + 1) src;
              body = take (nl - 1) line;
              verb_len = (case position (\<lambda>b. b = SP) body of Some i \<Rightarrow> i | None \<Rightarrow> length body);
              verb = take verb_len body
          in if verb = ''MSG'' \<or> verb = ''HMSG'' then
               (case parse_usize (trim (last_word (drop verb_len body))) of
                  None \<Rightarrow> ErrFrame line
                | Some n \<Rightarrow>
                    let need = (nl + 1 + n + 2) mod 2 ^ 64 in
                    if length src < need then NeedMore else Message need)
             else if verb = ''PING'' then PingFrame
             else if verb = ''-ERR'' then ErrFrame line
             else SkipBytes (nl + 1))"

section \<open>The subscriber\<close>

datatype SubEnd = SubRunning | SubOk | SubFailed bytes

record Sub_Thread =
  st_delivered :: u64
  st_consumed :: u64
  st_failed :: bool
  st_sent :: bytes
  st_end :: SubEnd

text \<open>
  The loop over the frames in the buffer, on what is left of it. It has no value when it does not come to an end,
  which a frame of length zero would cause.
\<close>

partial_function (option) scan_frames :: "u64 \<Rightarrow> bytes \<Rightarrow> Sub_Thread \<Rightarrow> (bytes \<times> Sub_Thread) option" where
  "scan_frames msgs src st =
     (case next_frame src of
        Message n \<Rightarrow>
          let st' = st\<lparr>st_consumed := st_consumed st + of_nat n, st_delivered := st_delivered st + 1\<rparr> in
          if st_delivered st' \<ge> msgs then Some (src, st'\<lparr>st_end := SubOk\<rparr>) else scan_frames msgs (drop n src) st'
      | PingFrame \<Rightarrow> scan_frames msgs (drop 6 src) (st\<lparr>st_sent := st_sent st @ ''PONG'' @ CRLF\<rparr>)
      | SkipBytes n \<Rightarrow> scan_frames msgs (drop n src) st
      | ErrFrame line \<Rightarrow> Some (src, st\<lparr>st_failed := True, st_end := SubOk\<rparr>)
      | NeedMore \<Rightarrow> Some (src, st))"

text \<open>One answer of \<^verbatim>\<open>sock.read\<close>: some bytes, the end, the poll interval over, an interruption, or an error.\<close>

datatype SockRead = GotBytes bytes | GotEof | GotTimeout bytes | GotInterrupt | GotError bytes

definition subscriber_read ::
    "u64 \<Rightarrow> nat \<Rightarrow> bool \<Rightarrow> bytes \<times> Sub_Thread \<Rightarrow> SockRead \<Rightarrow> (bytes \<times> Sub_Thread) option" where
  "subscriber_read msgs cap over s r =
     (case s of (buf, st) \<Rightarrow>
        if length buf = cap
        then Some (buf, st\<lparr>st_end := SubFailed ''subscriber buffer filled without a complete frame''\<rparr>)
        else case r of
          GotEof \<Rightarrow> Some (buf, st\<lparr>st_failed := True, st_end := SubOk\<rparr>)
        | GotBytes b \<Rightarrow> scan_frames msgs (buf @ b) st
        | GotTimeout e \<Rightarrow> Some (buf, if over then st\<lparr>st_end := SubOk\<rparr> else st)
        | GotInterrupt \<Rightarrow> Some (buf, st)
        | GotError e \<Rightarrow> Some (buf, st\<lparr>st_end := SubFailed e\<rparr>))"

text \<open>The subscriber's loop over the answers of its socket, until it ends.\<close>

fun subscriber_run :: "u64 \<Rightarrow> nat \<Rightarrow> (SockRead \<times> bool) list \<Rightarrow> bytes \<times> Sub_Thread \<Rightarrow> (bytes \<times> Sub_Thread) option" where
  "subscriber_run msgs cap [] s = Some s"
| "subscriber_run msgs cap (r # rs) s =
     (if st_end (snd s) \<noteq> SubRunning then Some s
      else case subscriber_read msgs cap (snd r) s (fst r) of
        None \<Rightarrow> None
      | Some s' \<Rightarrow> subscriber_run msgs cap rs s')"

definition sub_thread_new :: Sub_Thread where
  "sub_thread_new = \<lparr>st_delivered = 0, st_consumed = 0, st_failed = False, st_sent = [], st_end = SubRunning\<rparr>"

definition subscriber_cap :: "nat \<Rightarrow> nat" where
  "subscriber_cap read_bytes = max read_bytes (2 ^ 20)"

section \<open>The publisher\<close>

definition flood_frame :: "bytes \<Rightarrow> nat \<Rightarrow> bytes" where
  "flood_frame subject sz =
     (let frame = ''PUB '' @ subject @ '' '' @ show_nat sz @ CRLF;
          frame = frame @ replicate sz (CHR ''x'')
      in frame @ CRLF)"

definition per_chunk :: "nat \<Rightarrow> nat \<Rightarrow> nat" where
  "per_chunk target_bytes flen = max (target_bytes div flen) 1"

definition flood_chunk :: "nat \<Rightarrow> bytes \<Rightarrow> bytes" where
  "flood_chunk n frame = concat (replicate n frame)"

datatype SockWrite = WroteBytes nat | WriteInterrupt | WriteError bytes

datatype PubEnd = PubWaiting | PubOk nat | PubFailed bytes

text \<open>
  The inner loop of \<^verbatim>\<open>publisher\<close> on the answers of the socket: the second argument is \<^verbatim>\<open>&buf[off..]\<close>, \<open>out\<close> what the
  socket took so far. Without an answer the publisher waits in \<^verbatim>\<open>write\<close>.
\<close>

fun write_buf :: "SockWrite list \<Rightarrow> bytes \<Rightarrow> bytes \<Rightarrow> (PubEnd \<times> bytes) + (SockWrite list \<times> bytes)" where
  "write_buf [] buf out = (if buf = [] then Inr ([], out) else Inl (PubWaiting, out))"
| "write_buf (w # ws) buf out =
     (if buf = [] then Inr (w # ws, out)
      else case w of
        WroteBytes n \<Rightarrow>
          if n = 0 then Inl (PubFailed ''socket stopped accepting data'', out)
          else write_buf ws (drop n buf) (out @ take n buf)
      | WriteInterrupt \<Rightarrow> write_buf ws buf out
      | WriteError e \<Rightarrow> Inl (PubFailed e, out))"

function publish_loop :: "nat \<Rightarrow> nat \<Rightarrow> bytes \<Rightarrow> nat \<Rightarrow> SockWrite list \<Rightarrow> bytes \<Rightarrow> PubEnd \<times> bytes" where
  "publish_loop msgs target_bytes frame left ws out =
     (if left > 0 then
        let flen = length frame;
            n = per_chunk target_bytes flen;
            whole = min left n;
            buf = take (whole * flen) (flood_chunk n frame)
        in case write_buf ws buf out of
             Inl r \<Rightarrow> r
           | Inr (ws', out') \<Rightarrow> publish_loop msgs target_bytes frame (left - whole) ws' out'
      else (PubOk (msgs - left), out))"
  by pat_completeness auto
termination
  by (relation "measure (\<lambda>(msgs, target_bytes, frame, left, ws, out). left)") (auto simp: per_chunk_def)

declare publish_loop.simps [simp del]

definition publisher :: "bytes \<Rightarrow> nat \<Rightarrow> nat \<Rightarrow> nat \<Rightarrow> SockWrite list \<Rightarrow> PubEnd \<times> bytes" where
  "publisher subject msgs sz target_bytes ws = publish_loop msgs target_bytes (flood_frame subject sz) msgs ws []"

section \<open>The handshake\<close>

text \<open>\<^verbatim>\<open>dial\<close>: the first read must begin an \<^verbatim>\<open>INFO\<close> line.\<close>

definition dial_ok :: "bytes \<Rightarrow> bool" where
  "dial_ok info \<longleftrightarrow> length info > 5 \<and> take 5 info = ''INFO ''"

text \<open>\<^verbatim>\<open>windows(n).any(|w| w == p)\<close>.\<close>

definition has_window :: "bytes \<Rightarrow> bytes \<Rightarrow> bool" where
  "has_window p s \<longleftrightarrow> list_ex (\<lambda>i. take (length p) (drop i s) = p) [0..<length s + 1 - length p]"

datatype PongEnd = PongSeen | PongWaiting | PongFailed bytes

text \<open>The loop of \<^verbatim>\<open>expect_pong\<close>: what was seen, whether the deadline has passed and what the socket answers, what was sent.\<close>

fun expect_pong :: "bytes \<Rightarrow> (bool \<times> SockRead) list \<Rightarrow> bytes \<Rightarrow> PongEnd \<times> bytes" where
  "expect_pong seen [] sent = (PongWaiting, sent)"
| "expect_pong seen ((late, r) # rs) sent =
     (if late then (PongFailed ''no PONG'', sent)
      else case r of
        GotInterrupt \<Rightarrow> expect_pong seen rs sent
      | GotEof \<Rightarrow> (PongFailed ''closed before the PONG that proves the pipeline'', sent)
      | GotTimeout e \<Rightarrow> (PongFailed e, sent)
      | GotError e \<Rightarrow> (PongFailed e, sent)
      | GotBytes b \<Rightarrow>
          let seen = seen @ b in
          if has_window ''PONG'' seen then (PongSeen, sent)
          else
            let sent = (if has_window (''PING'' @ [CR]) seen then sent @ ''PONG'' @ CRLF else sent) in
            expect_pong (if length seen > 2 ^ 16 then [] else seen) rs sent)"

section \<open>Parameters\<close>

text \<open>The environment variables \<^verbatim>\<open>NATS_BENCH_URL\<close> and \<^verbatim>\<open>ADDR\<close>.\<close>

function trim_start_matches :: "bytes \<Rightarrow> bytes \<Rightarrow> bytes" where
  "trim_start_matches p s = (if p \<noteq> [] \<and> starts_with p s then trim_start_matches p (drop (length p) s) else s)"
  by pat_completeness auto
termination
proof (relation "measure (\<lambda>(p, s). length s)", goal_cases)
  case (2 p s)
  then have "s \<noteq> []" "0 < length p" by (auto simp: starts_with_def)
  then show ?case by simp
qed simp

declare trim_start_matches.simps [simp del]

definition connect_addr :: "bytes option \<Rightarrow> bytes option \<Rightarrow> bytes" where
  "connect_addr bench_url addr =
     (case bench_url of
        Some u \<Rightarrow> if u \<noteq> [] then trim_start_matches ''nats://'' u
                  else (case addr of Some a \<Rightarrow> a | None \<Rightarrow> ''127.0.0.1:4222'')
      | None \<Rightarrow> (case addr of Some a \<Rightarrow> a | None \<Rightarrow> ''127.0.0.1:4222''))"

text \<open>\<^verbatim>\<open>probe_every_ms\<close>: a number, or a second.\<close>

definition probe_every_ms :: "bytes option \<Rightarrow> nat" where
  "probe_every_ms v = (case Option.bind v parse_usize of Some n \<Rightarrow> n | None \<Rightarrow> 1000)"

text \<open>\<^verbatim>\<open>param\<close> of \<^verbatim>\<open>crates/bench/src/lib.rs\<close> panics on a value that is no number.\<close>

definition param :: "bytes \<Rightarrow> bytes option \<Rightarrow> nat \<Rightarrow> bytes + nat" where
  "param name v dflt =
     (case v of
        None \<Rightarrow> Inr dflt
      | Some s \<Rightarrow> (case parse_usize s of Some n \<Rightarrow> Inr n | None \<Rightarrow> Inl (name @ '' is not a number: '' @ s)))"

section \<open>What the publisher writes\<close>

lemma write_buf_all: "write_buf ws buf out = Inr (ws', out') \<Longrightarrow> out' = out @ buf"
  by (induction ws buf out rule: write_buf.induct) (auto split: if_splits SockWrite.splits)

lemma write_buf_prefix: "write_buf ws buf out = Inl (e, out') \<Longrightarrow> prefix out' (out @ buf)"
proof (induction ws buf out rule: write_buf.induct)
  case (2 w ws buf out)
  show ?case
  proof (cases "\<exists>n. w = WroteBytes n \<and> n \<noteq> 0 \<and> buf \<noteq> []")
    case True
    then obtain n where n: "w = WroteBytes n" "n \<noteq> 0" "buf \<noteq> []" by blast
    with 2 have "prefix out' ((out @ take n buf) @ drop n buf)" by simp
    then show ?thesis by simp
  next
    case False
    with 2 show ?thesis by (auto split: if_splits SockWrite.splits)
  qed
qed (auto split: if_splits)

lemma write_buf_end: "write_buf ws buf out = Inl (e, out') \<Longrightarrow> e \<noteq> PubOk n"
  by (induction ws buf out rule: write_buf.induct) (auto split: if_splits SockWrite.splits)

lemma flood_chunk_take:
  assumes "k \<le> n"
  shows "take (k * length frame) (flood_chunk n frame) = concat (replicate k frame)"
proof -
  have "flood_chunk n frame = concat (replicate k frame) @ concat (replicate (n - k) frame)"
    using assms by (simp add: flood_chunk_def replicate_add [symmetric] concat_append [symmetric])
  moreover have "length (concat (replicate k frame)) = k * length frame" by (induction k) simp_all
  ultimately show ?thesis by simp
qed

lemma publish_chunk:
  "take (min left (per_chunk tb (length frame)) * length frame) (flood_chunk (per_chunk tb (length frame)) frame) =
     concat (replicate (min left (per_chunk tb (length frame))) frame)"
  by (rule flood_chunk_take) simp

lemma concat_replicate_split: "k \<le> n \<Longrightarrow> concat (replicate n x) = concat (replicate k x) @ concat (replicate (n - k) x)"
  by (simp add: replicate_add [symmetric] concat_append [symmetric])

text \<open>Whatever the socket answers, it gets the frames in order from the first one on; all of them when the publisher succeeds.\<close>

lemma publish_loop_stream:
  "publish_loop msgs tb frame left ws out = (e, out') \<Longrightarrow> left \<le> msgs \<Longrightarrow>
     prefix out' (out @ concat (replicate left frame)) \<and>
     (\<forall>n. e = PubOk n \<longrightarrow> n = msgs \<and> out' = out @ concat (replicate left frame))"
proof (induction msgs tb frame left ws out rule: publish_loop.induct)
  case (1 msgs tb frame left ws out)
  define k where "k = min left (per_chunk tb (length frame))"
  define buf where "buf = concat (replicate k frame)"
  have chunk: "take (k * length frame) (flood_chunk (per_chunk tb (length frame)) frame) = buf"
    unfolding buf_def k_def by (rule publish_chunk)
  show ?case
  proof (cases "left > 0")
    case False
    with 1(2) show ?thesis by (auto simp: publish_loop.simps)
  next
    case True
    have step: "(case write_buf ws buf out of Inl r \<Rightarrow> r | Inr (ws', out') \<Rightarrow> publish_loop msgs tb frame (left - k) ws' out') = (e, out')"
      using 1(2) True unfolding publish_loop.simps [of msgs tb frame left ws out] Let_def k_def [symmetric] chunk by simp
    have all: "concat (replicate left frame) = buf @ concat (replicate (left - k) frame)"
      unfolding buf_def by (rule concat_replicate_split) (simp add: k_def)
    show ?thesis
    proof (cases "write_buf ws buf out")
      case (Inl r)
      then have r: "write_buf ws buf out = Inl (e, out')" using step by simp
      from write_buf_end [OF r] write_buf_prefix [OF r] show ?thesis unfolding all by (simp add: prefix_prefix [of _ "out @ buf", simplified])
    next
      case (Inr r)
      obtain ws' out1 where r: "r = (ws', out1)" by (rule prod.exhaust)
      have o: "out1 = out @ buf" using write_buf_all [OF Inr [unfolded r]] .
      have "publish_loop msgs tb frame (left - k) ws' out1 = (e, out')" using step Inr r by simp
      from 1(1) [OF True refl refl refl refl, folded k_def, unfolded chunk, OF Inr [unfolded r] refl this] 1(3)
      show ?thesis unfolding all o by simp
    qed
  qed
qed

text \<open>A socket that never fails and never takes nothing: then as many answers as there are bytes are enough.\<close>

fun takes :: "SockWrite \<Rightarrow> bool" where
  "takes (WroteBytes n) = (n \<noteq> 0)"
| "takes WriteInterrupt = True"
| "takes (WriteError e) = False"

definition progress :: "SockWrite list \<Rightarrow> nat" where
  "progress ws = length (filter (\<lambda>w. w \<noteq> WriteInterrupt) ws)"

lemma write_buf_ends:
  "list_all takes ws \<Longrightarrow> length buf \<le> progress ws \<Longrightarrow>
     \<exists>ws' out'. write_buf ws buf out = Inr (ws', out') \<and> list_all takes ws' \<and> progress ws \<le> progress ws' + length buf"
proof (induction ws arbitrary: buf out)
  case Nil
  then show ?case by (simp add: progress_def)
next
  case (Cons w ws)
  show ?case
  proof (cases "buf = []")
    case True
    with Cons.prems(1) show ?thesis by (intro exI [of _ "w # ws"] exI [of _ out]) simp
  next
    case False
    show ?thesis
    proof (cases w)
      case (WroteBytes n)
      then have n: "n \<noteq> 0" and p: "progress (w # ws) = Suc (progress ws)" and a: "list_all takes ws"
        using Cons.prems(1) by (simp_all add: progress_def)
      have d: "Suc (length (drop n buf)) \<le> length buf" using n False by (cases n; cases buf) auto
      then have "length (drop n buf) \<le> progress ws" using Cons.prems(2) p by linarith
      from Cons.IH [OF a this, of "out @ take n buf"] obtain ws' out' where
        w: "write_buf ws (drop n buf) (out @ take n buf) = Inr (ws', out')" "list_all takes ws'"
        "progress ws \<le> progress ws' + length (drop n buf)" by blast
      have "progress (w # ws) \<le> progress ws' + length buf" unfolding p using w(3) d by linarith
      moreover have "write_buf (w # ws) buf out = Inr (ws', out')" using False n w(1) WroteBytes by simp
      ultimately show ?thesis using w(2) by blast
    next
      case WriteInterrupt
      then have p: "progress (w # ws) = progress ws" and a: "list_all takes ws"
        using Cons.prems(1) by (simp_all add: progress_def)
      have "write_buf (w # ws) buf out = write_buf ws buf out" using False WriteInterrupt by simp
      then show ?thesis using Cons.IH [OF a, of buf out] Cons.prems(2) unfolding p by simp
    next
      case (WriteError e)
      with Cons.prems(1) show ?thesis by simp
    qed
  qed
qed

lemma publish_loop_ends:
  "list_all takes ws \<Longrightarrow> left * length frame \<le> progress ws \<Longrightarrow>
     \<exists>out'. publish_loop msgs tb frame left ws out = (PubOk msgs, out')"
proof (induction msgs tb frame left ws out rule: publish_loop.induct)
  case (1 msgs tb frame left ws out)
  define k where "k = min left (per_chunk tb (length frame))"
  define buf where "buf = concat (replicate k frame)"
  have chunk: "take (k * length frame) (flood_chunk (per_chunk tb (length frame)) frame) = buf"
    unfolding buf_def k_def by (rule publish_chunk)
  show ?case
  proof (cases "left > 0")
    case False
    then show ?thesis by (auto simp: publish_loop.simps)
  next
    case True
    have lb: "length buf = k * length frame" unfolding buf_def by (induction k) simp_all
    have kl: "k \<le> left" by (simp add: k_def)
    have "length buf \<le> progress ws" unfolding lb using 1(3) mult_le_mono1 [OF kl] by (rule order_trans [rotated])
    from write_buf_ends [OF 1(2) this, of out] obtain ws' out1 where
      w: "write_buf ws buf out = Inr (ws', out1)" "list_all takes ws'" "progress ws \<le> progress ws' + length buf" by blast
    have "(left - k) * length frame \<le> progress ws'"
      using w(3) 1(3) kl unfolding lb by (simp add: diff_mult_distrib)
    from 1(1) [OF True refl refl refl refl, folded k_def, unfolded chunk, OF w(1) refl w(2) this] kl
    show ?thesis
      unfolding publish_loop.simps [of msgs tb frame left ws out] Let_def k_def [symmetric] chunk using True w(1) by auto
  qed
qed

lemma flood_frame_pub: "flood_frame subject sz = pub_frame subject None (replicate sz (CHR ''x''))"
  by (simp add: flood_frame_def pub_frame_def CRLF_def Let_def)

lemma flood_frames:
  "concat (map client_frame (replicate n (CPub subject None (replicate sz (CHR ''x''))))) = concat (replicate n (flood_frame subject sz))"
  "concat (map client_events (replicate n (CPub subject None (replicate sz (CHR ''x''))))) =
     replicate n (Publish subject None 0 sz (replicate sz (CHR ''x'')) False)"
  by (induction n) (simp_all add: flood_frame_pub)

section \<open>The scanner on the frames of the server\<close>

text \<open>A frame scans as \<open>r\<close>: whole it gives \<open>r\<close> whatever follows, and any shorter beginning waits for more.\<close>

fun scan_len :: "ScanFrame \<Rightarrow> nat" where
  "scan_len (Message n) = n"
| "scan_len PingFrame = 6"
| "scan_len (SkipBytes n) = n"
| "scan_len r = 0"

definition scans :: "bytes \<Rightarrow> ScanFrame \<Rightarrow> bool" where
  "scans f r \<longleftrightarrow>
     f \<noteq> [] \<and> scan_len r = length f \<and> (\<forall>rest. next_frame (f @ rest) = r) \<and> (\<forall>p. strict_prefix p f \<longrightarrow> next_frame p = NeedMore)"

lemma next_frame_no_line: "LF \<notin> set p \<Longrightarrow> next_frame p = NeedMore"
proof -
  assume "LF \<notin> set p"
  then have "position (\<lambda>b. b = LF) p = None" by (auto simp: position_None_iff)
  then show "next_frame p = NeedMore" by (simp add: next_frame_def)
qed

lemma verb_of:
  "take (case position (\<lambda>b. b = SP) l of Some i \<Rightarrow> i | None \<Rightarrow> length l) l = takeWhile (\<lambda>b. b \<noteq> SP) l"
  "drop (case position (\<lambda>b. b = SP) l of Some i \<Rightarrow> i | None \<Rightarrow> length l) l = dropWhile (\<lambda>b. b \<noteq> SP) l"
  by (induction l) (auto split: option.splits)

lemma next_frame_line:
  assumes "LF \<notin> set l"
  shows "next_frame (l @ CR # LF # rest) =
    (let verb = takeWhile (\<lambda>b. b \<noteq> SP) l; line = l @ [CR, LF] in
     if verb = ''MSG'' \<or> verb = ''HMSG'' then
       (case parse_usize (trim (last_word (dropWhile (\<lambda>b. b \<noteq> SP) l))) of
          None \<Rightarrow> ErrFrame line
        | Some n \<Rightarrow>
            let need = (length l + n + 4) mod 2 ^ 64 in
            if length l + 2 + length rest < need then NeedMore else Message need)
     else if verb = ''PING'' then PingFrame
     else if verb = ''-ERR'' then ErrFrame line
     else SkipBytes (length l + 2))"
proof -
  have "position (\<lambda>b. b = LF) l = None" using assms by (auto simp: position_None_iff)
  then have p: "position (\<lambda>b. b = LF) (l @ CR # LF # rest) = Some (length l + 1)" by (simp add: position_append)
  have 1: "take (length l + 1 + 1) (l @ CR # LF # rest) = l @ [CR, LF]" "take (length l + 1 - 1) (l @ [CR, LF]) = l" by simp_all
  have 2: "length l + 2 + n + 2 = length l + n + 4" "length (l @ CR # LF # rest) = length l + 2 + length rest"
    "length l + 1 + 1 = length l + 2" for n by simp_all
  show ?thesis unfolding next_frame_def p option.case Let_def 1 verb_of unfolding 2 ..
qed

lemma strict_prefix_line:
  assumes "strict_prefix p (l @ [CR, LF] @ rest)" "LF \<notin> set l"
  shows "LF \<notin> set p \<or> (\<exists>q. p = l @ CR # LF # q \<and> strict_prefix q rest)"
proof -
  have ne: "p \<noteq> (l @ [CR, LF]) @ rest" and "prefix p ((l @ [CR, LF]) @ rest)"
    using assms(1) by (simp_all add: strict_prefix_def)
  then have "prefix p (l @ [CR, LF]) \<or> (\<exists>q. p = (l @ [CR, LF]) @ q \<and> prefix q rest)" by (simp only: prefix_append)
  moreover have "prefix p (l @ [CR, LF]) \<longleftrightarrow> p = l @ [CR, LF] \<or> prefix p (l @ [CR])"
    using prefix_snoc [of p "l @ [CR]" LF] by simp
  ultimately consider "prefix p (l @ [CR])" | "p = l @ [CR, LF]" | q where "p = (l @ [CR, LF]) @ q" "prefix q rest" by blast
  then show ?thesis
  proof cases
    case 1
    then have "set p \<subseteq> set (l @ [CR])" by (rule set_mono_prefix)
    then show ?thesis using assms(2) by auto
  next
    case 2
    then show ?thesis using ne by (auto simp: strict_prefix_def)
  next
    case 3
    then show ?thesis using ne by (auto simp: strict_prefix_def)
  qed
qed

lemma split_on_join:
  "ws \<noteq> [] \<Longrightarrow> list_all (\<lambda>w. SP \<notin> set w) ws \<Longrightarrow> split_on (\<lambda>b. b = SP) (join_sep SP ws) = ws"
proof (induction ws rule: induct_list012)
  case (2 w)
  then have "\<forall>x\<in>set w. \<not> x = SP" by auto
  then show ?case by (simp add: split_on_no_sep)
next
  case (3 w u us)
  then have "\<forall>x\<in>set w. \<not> x = SP" by auto
  with 3 show ?case by (simp add: split_on_append_sep)
qed simp

lemma takeWhile_join:
  assumes "SP \<notin> set w"
  shows "takeWhile (\<lambda>b. b \<noteq> SP) (join_sep SP (w # u # us)) = w"
    "dropWhile (\<lambda>b. b \<noteq> SP) (join_sep SP (w # u # us)) = SP # join_sep SP (u # us)"
proof -
  have "\<forall>b\<in>set w. b \<noteq> SP" using assms by auto
  then show "takeWhile (\<lambda>b. b \<noteq> SP) (join_sep SP (w # u # us)) = w"
    "dropWhile (\<lambda>b. b \<noteq> SP) (join_sep SP (w # u # us)) = SP # join_sep SP (u # us)"
    by simp_all
qed

lemma parse_usize_show: "n < 2 ^ 64 \<Longrightarrow> parse_usize (show_nat n) = Some n"
proof -
  assume n: "n < 2 ^ 64"
  have "hd (show_nat n) \<noteq> CHR ''+''" using digit_plain [OF show_nat_ends_digit(1) [of n]] by simp
  moreover have "list_all is_ascii_digit (show_nat n)" using show_nat_digits by (auto simp: list_all_iff)
  ultimately show "parse_usize (show_nat n) = Some n" using n by (simp add: parse_usize_def)
qed

lemma trim_show_nat: "trim (show_nat n) = show_nat n"
  using digit_plain [OF show_nat_ends_digit(1) [of n]] digit_plain [OF show_nat_ends_digit(2) [of n]]
  by (intro trim_bare(1)) (simp add: bare_def)

lemma join_no_LF: "list_all plain ws \<Longrightarrow> LF \<notin> set (join_sep SP ws)"
  by (induction ws rule: induct_list012) (auto simp: plain_def)

text \<open>A message: at least two plain words, the first the verb, the last the size of what follows the line.\<close>

lemma message_scans:
  fixes w u :: bytes and us :: "bytes list"
  assumes ws: "list_all plain (w # u # us)" "w = ''MSG'' \<or> w = ''HMSG''" "last (u # us) = show_nat (length body)"
  defines "f \<equiv> join_sep SP (w # u # us) @ [CR, LF] @ body @ [CR, LF]"
  assumes len: "length f < 2 ^ 64"
  shows "scans f (Message (length f))"
proof -
  let ?l = "join_sep SP (w # u # us)"
  have lf: "LF \<notin> set ?l" using join_no_LF [OF ws(1)] .
  have sp: "SP \<notin> set w" "list_all (\<lambda>w. SP \<notin> set w) (u # us)" using ws(1) by (auto simp: plain_def list_all_iff)
  have "split_on (\<lambda>b. b = SP) (SP # join_sep SP (u # us)) = [] # (u # us)" using split_on_join [OF _ sp(2)] by simp
  then have "last_word (dropWhile (\<lambda>b. b \<noteq> SP) ?l) = show_nat (length body)"
    unfolding last_word_def takeWhile_join(2) [OF sp(1)] using ws(3) by simp
  moreover have "length body < 2 ^ 64" using len by (simp add: f_def)
  ultimately have n: "parse_usize (trim (last_word (dropWhile (\<lambda>b. b \<noteq> SP) ?l))) = Some (length body)"
    by (simp only: trim_show_nat parse_usize_show)
  have fl: "length f = length ?l + length body + 4" by (simp add: f_def)
  then have m: "(length ?l + length body + 4) mod 2 ^ 64 = length f" using len by simp
  have step: "next_frame (?l @ CR # LF # rest) = (if length ?l + 2 + length rest < length f then NeedMore else Message (length f))"
    for rest
    unfolding next_frame_line [OF lf] Let_def takeWhile_join(1) [OF sp(1)] n option.case m using ws(2) by auto
  have "next_frame (f @ rest) = Message (length f)" for rest
    using step [of "body @ [CR, LF] @ rest"] by (simp add: f_def)
  moreover have "next_frame p = NeedMore" if p: "strict_prefix p f" for p
    using strict_prefix_line [OF p [unfolded f_def] lf]
  proof
    assume "\<exists>q. p = ?l @ CR # LF # q \<and> strict_prefix q (body @ [CR, LF])"
    then obtain q where q: "p = ?l @ CR # LF # q" "strict_prefix q (body @ [CR, LF])" by blast
    have "length q < length (body @ [CR, LF])" by (rule prefix_length_less [OF q(2)])
    then show ?thesis using step [of q] fl q(1) by simp
  qed (rule next_frame_no_line)
  ultimately show ?thesis by (simp add: scans_def) (simp add: f_def)
qed

text \<open>A control line.\<close>

lemma control_scans:
  assumes "LF \<notin> set l" "takeWhile (\<lambda>b. b \<noteq> SP) l \<notin> {''MSG'', ''HMSG'', ''-ERR''}"
    "takeWhile (\<lambda>b. b \<noteq> SP) l = ''PING'' \<Longrightarrow> length l = 4"
  shows "scans (l @ [CR, LF]) (if takeWhile (\<lambda>b. b \<noteq> SP) l = ''PING'' then PingFrame else SkipBytes (length l + 2))"
proof -
  have "next_frame p = NeedMore" if p: "strict_prefix p (l @ [CR, LF])" for p
    using strict_prefix_line [of p l "[]"] p assms(1) next_frame_no_line by auto
  then show ?thesis
    using assms next_frame_line [OF assms(1)] by (auto simp: scans_def Let_def)
qed

section \<open>The subscriber over any reads\<close>

definition effect :: "ScanFrame \<Rightarrow> Sub_Thread \<Rightarrow> Sub_Thread" where
  "effect r st =
     (case r of
        Message n \<Rightarrow> st\<lparr>st_consumed := st_consumed st + of_nat n, st_delivered := st_delivered st + 1\<rparr>
      | PingFrame \<Rightarrow> st\<lparr>st_sent := st_sent st @ ''PONG'' @ CRLF\<rparr>
      | _ \<Rightarrow> st)"

definition is_message :: "ScanFrame \<Rightarrow> bool" where
  "is_message r \<longleftrightarrow> (\<exists>n. r = Message n)"

text \<open>The frames still to come do not reach the number the subscriber waits for.\<close>

definition short_of :: "u64 \<Rightarrow> Sub_Thread \<Rightarrow> (bytes \<times> ScanFrame) list \<Rightarrow> bool" where
  "short_of msgs st fs \<longleftrightarrow> unat (st_delivered st) + length (filter (\<lambda>f. is_message (snd f)) fs) < unat msgs"

lemma unat_succ_less: "unat x + 1 + k < unat y \<Longrightarrow> unat (x + 1) = unat x + 1" for x y :: u64
proof -
  assume "unat x + 1 + k < unat y"
  then have "unat x + 1 < 2 ^ 64" using unsigned_less [of y, where 'a = nat] by simp
  then show "unat (x + 1) = unat x + 1" by (simp add: unat_word_ariths)
qed

lemma short_of_step:
  assumes "short_of msgs st (f # fs)"
  shows "short_of msgs (effect (snd f) st) fs"
    "is_message (snd f) \<Longrightarrow> \<not> st_delivered (effect (snd f) st) \<ge> msgs"
proof -
  show s: "short_of msgs (effect (snd f) st) fs"
    using assms unat_succ_less [of "st_delivered st" _ msgs]
    by (cases "snd f") (auto simp: short_of_def effect_def is_message_def)
  show "\<not> st_delivered (effect (snd f) st) \<ge> msgs"
    using s by (simp add: short_of_def word_le_nat_alt)
qed

lemma effect_end [simp]: "st_end (effect r st) = st_end st"
  by (simp add: effect_def split: ScanFrame.split)

lemma scan_frame:
  assumes "scans (fst f) (snd f)" "short_of msgs st (f # fs)"
  shows "scan_frames msgs (fst f @ rest) st = scan_frames msgs rest (effect (snd f) st)"
proof -
  obtain b r where f: "f = (b, r)" by (rule prod.exhaust)
  have s: "next_frame (b @ rest) = r" "scan_len r = length b" "b \<noteq> []" using assms(1) f by (simp_all add: scans_def)
  have m: "is_message r \<Longrightarrow> \<not> st_delivered (effect r st) \<ge> msgs" using short_of_step(2) [OF assms(2)] f by simp
  show ?thesis
    using s m f by (cases r) (simp_all add: scan_frames.simps [of msgs "b @ rest"] effect_def is_message_def Let_def)
qed

text \<open>What the loop makes of the beginning of a stream of frames: it takes the whole frames and keeps the rest.\<close>

lemma scan_stream:
  assumes "list_all (\<lambda>f. scans (fst f) (snd f)) fs" "short_of msgs st fs" "prefix t (concat (map fst fs))"
  shows "\<exists>gs hs p. fs = gs @ hs \<and> t = concat (map fst gs) @ p \<and> (hs = [] \<and> p = [] \<or> hs \<noteq> [] \<and> strict_prefix p (fst (hd hs))) \<and>
    scan_frames msgs t st = Some (p, fold effect (map snd gs) st) \<and> short_of msgs (fold effect (map snd gs) st) hs"
  using assms
proof (induction fs arbitrary: t st)
  case Nil
  have "next_frame [] = NeedMore" by (simp add: next_frame_no_line)
  with Nil show ?case by (simp add: scan_frames.simps [of msgs "[]"])
next
  case (Cons f fs)
  have s: "scans (fst f) (snd f)" using Cons.prems(1) by simp
  consider "strict_prefix t (fst f)" | t' where "t = fst f @ t'" "prefix t' (concat (map fst fs))"
    using Cons.prems(3) by (cases "t = fst f") (auto simp: prefix_append strict_prefix_def)
  then show ?case
  proof cases
    case 1
    then have "next_frame t = NeedMore" using s by (simp add: scans_def)
    then have "scan_frames msgs t st = Some (t, st)" by (simp add: scan_frames.simps [of msgs t])
    with 1 Cons.prems(2) show ?thesis by (intro exI [of _ "[]"] exI [of _ "f # fs"] exI [of _ t]) simp
  next
    case 2
    have l: "list_all (\<lambda>f. scans (fst f) (snd f)) fs" using Cons.prems(1) by simp
    from Cons.IH [OF l short_of_step(1) [OF Cons.prems(2)] 2(2)] obtain gs hs p where
      g: "fs = gs @ hs" "t' = concat (map fst gs) @ p" "hs = [] \<and> p = [] \<or> hs \<noteq> [] \<and> strict_prefix p (fst (hd hs))"
      "scan_frames msgs t' (effect (snd f) st) = Some (p, fold effect (map snd gs) (effect (snd f) st))"
      "short_of msgs (fold effect (map snd gs) (effect (snd f) st)) hs" by blast
    with 2(1) scan_frame [OF s Cons.prems(2), of t'] show ?thesis
      by (intro exI [of _ "f # gs"] exI [of _ hs] exI [of _ p]) simp
  qed
qed

lemma subscriber_stream:
  assumes "list_all (\<lambda>f. scans (fst f) (snd f) \<and> length (fst f) \<le> cap) fs" "short_of msgs st fs" "st_end st = SubRunning"
    and "buf @ concat cs = concat (map fst fs)" "fs = [] \<and> buf = [] \<or> fs \<noteq> [] \<and> strict_prefix buf (fst (hd fs))" "cap > 0"
  shows "subscriber_run msgs cap (map (\<lambda>c. (GotBytes c, False)) cs) (buf, st) = Some ([], fold effect (map snd fs) st)"
  using assms(1-5)
proof (induction cs arbitrary: fs buf st)
  case Nil
  have "fs = []"
  proof (rule ccontr)
    assume "fs \<noteq> []"
    then obtain f gs where f: "fs = f # gs" by (cases fs) auto
    then have "length buf < length (fst f)" using Nil.prems(5) by (simp add: prefix_length_less)
    then show False using Nil.prems(4) f by simp
  qed
  then show ?case using Nil.prems by simp
next
  case (Cons c cs)
  have l: "list_all (\<lambda>f. scans (fst f) (snd f)) fs" using Cons.prems(1) by (simp add: list_all_iff)
  have "prefix (buf @ c) (concat (map fst fs))" using Cons.prems(4) by (metis append.assoc concat.simps(2) prefixI)
  from scan_stream [OF l Cons.prems(2) this] obtain gs hs p where
    g: "fs = gs @ hs" "buf @ c = concat (map fst gs) @ p" "hs = [] \<and> p = [] \<or> hs \<noteq> [] \<and> strict_prefix p (fst (hd hs))"
    "scan_frames msgs (buf @ c) st = Some (p, fold effect (map snd gs) st)" "short_of msgs (fold effect (map snd gs) st) hs" by blast
  have e: "st_end (fold effect rs st) = st_end st" for rs by (induction rs arbitrary: st) simp_all
  have "length buf < cap"
    using Cons.prems(1,5) assms(6) by (cases fs) (auto dest!: prefix_length_less)
  then have s: "subscriber_read msgs cap False (buf, st) (GotBytes c) = Some (p, fold effect (map snd gs) st)"
    using g(4) by (simp add: subscriber_read_def)
  have "list_all (\<lambda>f. scans (fst f) (snd f) \<and> length (fst f) \<le> cap) hs" using Cons.prems(1) g(1) by simp
  moreover have "(buf @ c) @ concat cs = concat (map fst gs) @ concat (map fst hs)" using Cons.prems(4) g(1) by simp
  then have "p @ concat cs = concat (map fst hs)" unfolding g(2) by simp
  ultimately have "subscriber_run msgs cap (map (\<lambda>c. (GotBytes c, False)) cs) (p, fold effect (map snd gs) st) =
      Some ([], fold effect (map snd hs) (fold effect (map snd gs) st))"
    using Cons.IH [OF _ g(5)] e Cons.prems(3) g(3) by simp
  then show ?case using s Cons.prems(3) g(1) by simp
qed

section \<open>The frames a server sends to the bench\<close>

datatype Sent = Delivery Arena bool bytes Msg | Status bytes bytes bytes | SentPing | SentPong | SentOk

fun sent_bytes :: "('ch, 'j) Deps \<Rightarrow> Sent \<Rightarrow> bytes" where
  "sent_bytes E (Delivery a hs sid msg) = fst (build_frame E a hs sid msg)"
| "sent_bytes E (Status reply sid published) = no_responder_frame reply sid published"
| "sent_bytes E SentPing = frame_ping"
| "sent_bytes E SentPong = frame_pong"
| "sent_bytes E SentOk = frame_ok"

fun sent_plain :: "Sent \<Rightarrow> bool" where
  "sent_plain (Delivery a hs sid msg) \<longleftrightarrow> chunk a = [] \<and> msg_plain sid msg"
| "sent_plain (Status reply sid published) \<longleftrightarrow> plain reply \<and> plain sid"
| "sent_plain s \<longleftrightarrow> True"

fun is_delivery :: "Sent \<Rightarrow> bool" where
  "is_delivery (Delivery a hs sid msg) \<longleftrightarrow> True"
| "is_delivery (Status reply sid published) \<longleftrightarrow> True"
| "is_delivery s \<longleftrightarrow> False"

definition sent_scan :: "('ch, 'j) Deps \<Rightarrow> Sent \<Rightarrow> ScanFrame" where
  "sent_scan E s =
     (if is_delivery s then Message (length (sent_bytes E s))
      else if s = SentPing then PingFrame else SkipBytes (length (sent_bytes E s)))"

lemma msg_frame_scans:
  assumes "msg_plain sid msg" "length (msg_frame headers sid msg) < 2 ^ 64"
  shows "scans (msg_frame headers sid msg) (Message (length (msg_frame headers sid msg)))"
proof -
  obtain w u us where ws: "msg_words headers sid msg = w # u # us" "w = ''MSG'' \<or> w = ''HMSG''"
    "last (u # us) = show_nat (length (delivered_body headers msg))"
    by (auto simp: msg_words_def)
  show ?thesis
    using message_scans [OF msg_words_plain [OF assms(1), of headers, unfolded ws(1)] ws(2,3)] assms(2)
    by (simp add: msg_frame_def ws(1) CRLF_def)
qed

lemma status_scans:
  assumes "plain reply" "plain sid" "length (no_responder_frame reply sid published) < 2 ^ 64"
  shows "scans (no_responder_frame reply sid published) (Message (length (no_responder_frame reply sid published)))"
proof -
  let ?body = "''NATS/1.0 503'' @ CRLF @ ''Nats-Subject: '' @ published @ CRLF @ CRLF"
  let ?n = "show_nat (status_len published)"
  have f: "no_responder_frame reply sid published = join_sep SP [''HMSG'', reply, sid, ?n, ?n] @ [CR, LF] @ ?body @ [CR, LF]"
    by (simp add: no_responder_frame_def no_responder_head_def CRLF_def)
  have p: "list_all plain [''HMSG'', reply, sid, ?n, ?n]" using assms(1,2) by (simp add: plain_def [of "''HMSG''"])
  have "last [reply, sid, ?n, ?n] = show_nat (length ?body)" unfolding status_block_length by simp
  from message_scans [OF p _ this] assms(3) show ?thesis unfolding f by simp
qed

lemma sent_scans:
  assumes "sent_plain s" "length (sent_bytes E s) < 2 ^ 64"
  shows "scans (sent_bytes E s) (sent_scan E s)"
proof (cases s)
  case (Delivery a hs sid msg)
  with assms show ?thesis using msg_frame_scans by (simp add: sent_scan_def build_frame_bytes)
next
  case (Status reply sid published)
  with assms show ?thesis using status_scans by (simp add: sent_scan_def)
next
  case SentPing
  then show ?thesis using control_scans [of "''PING''"] by (simp add: sent_scan_def frame_ping_def frame_line_def CRLF_def)
next
  case SentPong
  then show ?thesis using control_scans [of "''PONG''"] by (simp add: sent_scan_def frame_pong_def frame_line_def CRLF_def)
next
  case SentOk
  then show ?thesis using control_scans [of "''+OK''"] by (simp add: sent_scan_def frame_ok_def frame_line_def CRLF_def)
qed

lemma fold_effect_sent:
  "fold effect (map (sent_scan E) ss) st =
     st\<lparr>st_delivered := st_delivered st + of_nat (length (filter is_delivery ss)),
        st_consumed := st_consumed st + of_nat (length (concat (map (sent_bytes E) (filter is_delivery ss)))),
        st_sent := st_sent st @ concat (replicate (length (filter (\<lambda>s. s = SentPing) ss)) (''PONG'' @ CRLF))\<rparr>"
proof (induction ss arbitrary: st)
  case (Cons s ss)
  then show ?case by (cases s) (simp_all add: sent_scan_def effect_def)
qed simp

section \<open>The handshake ends\<close>

lemma expect_pong_sees:
  "has_window ''PONG'' (seen @ concat bs) \<Longrightarrow> length (seen @ concat bs) \<le> 2 ^ 16 \<Longrightarrow> bs \<noteq> [] \<Longrightarrow>
     fst (expect_pong seen (map (\<lambda>b. (False, GotBytes b)) bs) sent) = PongSeen"
proof (induction bs arbitrary: seen sent)
  case (Cons b bs)
  show ?case
  proof (cases "has_window ''PONG'' (seen @ b)")
    case False
    then have "bs \<noteq> []" using Cons.prems(1) by auto
    with False Cons.IH [of "seen @ b"] Cons.prems show ?thesis by (simp add: Let_def)
  qed (simp add: Let_def)
qed simp

text \<open>The old \<^verbatim>\<open>PING\<close> stays in \<open>seen\<close>, so every further read answers it again.\<close>

lemma expect_pong_answers_again:
  "expect_pong [] [(False, GotBytes (''PING'' @ CRLF)), (False, GotBytes (''+OK'' @ CRLF)), (False, GotBytes (''PONG'' @ CRLF))] [] =
     (PongSeen, ''PONG'' @ CRLF @ ''PONG'' @ CRLF)"
  by code_simp

section \<open>The subscriber counts\<close>

lemma subscriber_counts:
  assumes "list_all (\<lambda>s. sent_plain s \<and> length (sent_bytes E s) \<le> subscriber_cap rb) ss" "rb < 2 ^ 64"
    and "concat cs = concat (map (sent_bytes E) ss)" "length (filter is_delivery ss) < unat msgs"
  shows "subscriber_run msgs (subscriber_cap rb) (map (\<lambda>c. (GotBytes c, False)) cs) ([], sub_thread_new) =
    Some ([], \<lparr>st_delivered = of_nat (length (filter is_delivery ss)),
               st_consumed = of_nat (length (concat (map (sent_bytes E) (filter is_delivery ss)))), st_failed = False,
               st_sent = concat (replicate (length (filter (\<lambda>s. s = SentPing) ss)) (''PONG'' @ CRLF)), st_end = SubRunning\<rparr>)"
proof -
  let ?fs = "map (\<lambda>s. (sent_bytes E s, sent_scan E s)) ss"
  have cap: "subscriber_cap rb < 2 ^ 64" "0 < subscriber_cap rb" using assms(2) by (simp_all add: subscriber_cap_def)
  have 1: "list_all (\<lambda>f. scans (fst f) (snd f) \<and> length (fst f) \<le> subscriber_cap rb) ?fs"
    using assms(1) sent_scans cap(1) by (auto simp: list_all_iff intro: order_le_less_trans)
  have "is_message (sent_scan E s) = is_delivery s" for s by (simp add: sent_scan_def is_message_def)
  then have 2: "short_of msgs sub_thread_new ?fs"
    using assms(4) by (simp add: short_of_def sub_thread_new_def filter_map comp_def)
  have 3: "?fs = [] \<and> [] = [] \<or> ?fs \<noteq> [] \<and> strict_prefix [] (fst (hd ?fs))"
    using 1 by (cases ss) (auto simp: scans_def strict_prefix_def)
  have "[] @ concat cs = concat (map fst ?fs)" using assms(3) by (simp add: comp_def)
  from subscriber_stream [OF 1 2 _ this 3 cap(2)] show ?thesis
    using fold_effect_sent [of E ss sub_thread_new] by (simp add: sub_thread_new_def comp_def)
qed

section \<open>Properties\<close>

text \<open>C11. The delivery bench counts exactly what the server delivers: whatever frames the server builds and however the
  stream is cut into reads, a subscriber that still waits for more has counted each delivery and status frame once with
  its length, answered each keepalive once, and kept nothing.\<close>

theorem bench_counts_every_delivery:
  assumes "list_all (\<lambda>s. sent_plain s \<and> length (sent_bytes E s) \<le> subscriber_cap rb) ss" "rb < 2 ^ 64"
    and "concat cs = concat (map (sent_bytes E) ss)" "length (filter is_delivery ss) < unat msgs"
  shows "subscriber_run msgs (subscriber_cap rb) (map (\<lambda>c. (GotBytes c, False)) cs) ([], sub_thread_new) =
    Some ([], \<lparr>st_delivered = of_nat (length (filter is_delivery ss)),
               st_consumed = of_nat (length (concat (map (sent_bytes E) (filter is_delivery ss)))), st_failed = False,
               st_sent = concat (replicate (length (filter (\<lambda>s. s = SentPing) ss)) (''PONG'' @ CRLF)), st_end = SubRunning\<rparr>)"
  using subscriber_counts [OF assms] .

theorem bench_counts_every_delivery_witness:
  "\<exists>stream. stream = frame_ping @ fst (build_frame list_deps (arena_new list_deps) False ''7'' \<lparr>m_subject = ''a'', m_reply = None, m_hdr = 0, m_body = ''hi''\<rparr>) \<and>
     (\<exists>st. subscriber_run 5 (subscriber_cap 0) [(GotBytes (take 9 stream), False), (GotBytes (drop 9 stream), False)] ([], sub_thread_new) = Some ([], st) \<and>
       st_delivered st = 1 \<and> st_sent st = ''PONG'' @ CRLF)"
proof -
  let ?m = "\<lparr>m_subject = ''a'', m_reply = None, m_hdr = 0, m_body = ''hi''\<rparr>"
  let ?ss = "[SentPing, Delivery (arena_new list_deps) False ''7'' ?m]"
  define stream where "stream = concat (map (sent_bytes list_deps) ?ss)"
  have a: "chunk (arena_new list_deps) = []" "msg_plain ''7'' ?m" by (simp_all add: arena_new_def msg_plain_def plain_def)
  have "length (msg_frame (m_hdr ?m > 0 \<and> False) ''7'' ?m) = 15" by code_simp
  then have "list_all (\<lambda>s. sent_plain s \<and> length (sent_bytes list_deps s) \<le> subscriber_cap 0) ?ss"
    using a by (simp add: build_frame_bytes subscriber_cap_def frame_ping_def frame_line_def CRLF_def)
  moreover have "concat [take 9 stream, drop 9 stream] = concat (map (sent_bytes list_deps) ?ss)"
    unfolding stream_def [symmetric] by simp
  ultimately show ?thesis
    using bench_counts_every_delivery [of list_deps 0 ?ss "[take 9 stream, drop 9 stream]" 5]
    by (intro exI [of _ stream] conjI) (simp_all add: stream_def)
qed

text \<open>C12. The publisher of the bench hands its socket the frames one after the other whatever the socket takes at a time, so
  that the server's parser gets a prefix of the announced publishes; on a socket that keeps taking bytes it ends, and the
  parser has then seen exactly as many publishes as were asked for.\<close>

theorem flood_publishes_all:
  assumes "list_all takes ws" "msgs * length (flood_frame subject sz) \<le> progress ws"
    and "pub_fits lim subject None (replicate sz (CHR ''x''))"
  shows "\<exists>out. publisher subject msgs sz tb ws = (PubOk msgs, out) \<and>
    feed_into lim Line out [] = (Line, [], replicate msgs (Publish subject None 0 sz (replicate sz (CHR ''x'')) False), Inr ())"
proof -
  let ?p = "CPub subject None (replicate sz (CHR ''x''))"
  obtain out where o: "publisher subject msgs sz tb ws = (PubOk msgs, out)"
    using publish_loop_ends [OF assms(1,2)] unfolding publisher_def by blast
  then have "out = concat (replicate msgs (flood_frame subject sz))"
    using publish_loop_stream [of msgs tb "flood_frame subject sz" msgs ws "[]"] by (simp add: publisher_def)
  then have "out = concat (map client_frame (replicate msgs ?p))" unfolding flood_frames .
  moreover have "list_all (client_fits lim) (replicate msgs ?p)" using assms(3) by (simp add: list_all_iff)
  ultimately have "feed_into lim Line out [] = (Line, [], concat (map client_events (replicate msgs ?p)), Inr ())"
    using feed_client_frames [of lim "replicate msgs ?p" "[]"] by simp
  then show ?thesis using o unfolding flood_frames by simp
qed

theorem flood_publishes_all_witness:
  "\<exists>out. publisher ''a'' 2 3 20 (WriteInterrupt # replicate 30 (WroteBytes 1)) = (PubOk 2, out) \<and>
     feed_into default_limits Line out [] = (Line, [], replicate 2 (Publish ''a'' None 0 3 ''xxx'' False), Inr ())"
proof -
  have "list_all takes (WriteInterrupt # replicate 30 (WroteBytes 1))" by (simp add: list_all_iff)
  moreover have "2 * length (flood_frame ''a'' 3) \<le> progress (WriteInterrupt # replicate 30 (WroteBytes 1))" by code_simp
  moreover have "pub_fits default_limits ''a'' None (replicate 3 (CHR ''x''))"
    by (simp add: pub_fits_def plain_def default_limits_def)
  moreover have "replicate 3 (CHR ''x'') = ''xxx''" by (simp add: numeral_3_eq_3)
  ultimately show ?thesis using flood_publishes_all [of "WriteInterrupt # replicate 30 (WroteBytes 1)" 2 "''a''" 3 default_limits 20] by simp
qed

end
