(* ===== verification/Floodpub.thy ===== *)
theory Floodpub
  imports Flood Wire_Client
begin

text \<open>
  The drain bench (\<^verbatim>\<open>crates/bench/src/bin/floodpub.rs\<close>): one publisher without subscribers, and a last \<^verbatim>\<open>PING\<close> whose
  answer is to prove that the server has read everything. The environment, the first read, the answers to the writes and
  what each turn of the last loop sees are arguments; the report lines are left out.
\<close>

section \<open>The bench\<close>

record Flood_Env =
  fe_addr :: "bytes option"
  fe_msgs :: "bytes option"
  fe_size :: "bytes option"
  fe_subject :: "bytes option"
  fe_target :: "bytes option"

definition target_bytes_of :: "bytes option \<Rightarrow> nat" where
  "target_bytes_of v = (case Option.bind v parse_usize of Some n \<Rightarrow> n | None \<Rightarrow> 256 * 1024)"

definition floodpub_connect :: bytes where
  \<open>floodpub_connect = ''CONNECT {"verbose":false,"pedantic":false,"tls_required":false,"name":"floodpub","lang":"rust","version":"0.1.0","protocol":1,"echo":true,"headers":true,"no_responders":true}''\<close>

text \<open>\<^verbatim>\<open>write_all\<close> of the standard library: it goes on after an interruption, and fails when nothing is taken.\<close>

fun write_all :: "SockWrite list \<Rightarrow> bytes \<Rightarrow> bytes \<Rightarrow> (PubEnd \<times> bytes) + (SockWrite list \<times> bytes)" where
  "write_all [] buf out = (if buf = [] then Inr ([], out) else Inl (PubWaiting, out))"
| "write_all (w # ws) buf out =
     (if buf = [] then Inr (w # ws, out)
      else case w of
        WroteBytes n \<Rightarrow>
          if n = 0 then Inl (PubFailed ''failed to write whole buffer'', out)
          else write_all ws (drop n buf) (out @ take n buf)
      | WriteInterrupt \<Rightarrow> write_all ws buf out
      | WriteError e \<Rightarrow> Inl (PubFailed e, out))"

text \<open>The loop over the chunks; it also counts the bytes.\<close>

function pour ::
    "nat \<Rightarrow> bytes \<Rightarrow> nat \<Rightarrow> u64 \<Rightarrow> SockWrite list \<Rightarrow> bytes \<Rightarrow> (PubEnd \<times> bytes) + (u64 \<times> SockWrite list \<times> bytes)" where
  "pour target frame left count ws out =
     (if left > 0 then
        let flen = length frame;
            n = per_chunk target flen;
            whole = min left n;
            buf = take (whole * flen) (flood_chunk n frame)
        in case write_buf ws buf out of
             Inl r \<Rightarrow> Inl r
           | Inr (ws', out') \<Rightarrow> pour target frame (left - whole) (count + of_nat (length buf)) ws' out'
      else Inr (count, ws, out))"
  by pat_completeness auto
termination
  by (relation "measure (\<lambda>(target, frame, left, count, ws, out). left)") (auto simp: per_chunk_def)

declare pour.simps [simp del]

text \<open>The last loop: whether the deadline has passed, and the answer of the read. Its value is \<^verbatim>\<open>timed\<close>.\<close>

datatype GateEnd = GateWaiting | GateOver bool | GateFailed bytes

fun gate :: "bytes \<Rightarrow> (bool \<times> SockRead) list \<Rightarrow> GateEnd" where
  "gate seen [] = GateWaiting"
| "gate seen ((late, r) # rs) =
     (if late then GateOver True
      else case r of
        GotEof \<Rightarrow> GateOver True
      | GotBytes b \<Rightarrow>
          let seen = seen @ b in
          if has_window (''PONG'' @ [CR]) seen \<or> has_window (''+OK'' @ [CR]) seen then GateOver False
          else gate (if length seen > 2 ^ 20 then [] else seen) rs
      | GotTimeout e \<Rightarrow> gate seen rs
      | GotInterrupt \<Rightarrow> gate seen rs
      | GotError e \<Rightarrow> GateFailed e)"

datatype FloodEnd = FloodPanic bytes | FloodWaiting | FloodFailed bytes | FloodOk u64

fun flood_end :: "PubEnd \<Rightarrow> FloodEnd" where
  "flood_end (PubFailed e) = FloodFailed e"
| "flood_end _ = FloodWaiting"

text \<open>
  \<^verbatim>\<open>main\<close> from the handshake on, then \<^verbatim>\<open>main\<close> itself: \<open>first\<close> is an error of \<^verbatim>\<open>connect\<close> or the read, or what the first read gave. The
  second value is what the socket took.
\<close>

definition floodpub_run ::
    "bytes \<Rightarrow> nat \<Rightarrow> nat \<Rightarrow> nat \<Rightarrow> SockWrite list \<Rightarrow> (bool \<times> SockRead) list \<Rightarrow> FloodEnd \<times> bytes" where
  "floodpub_run subject msgs sz target ws polls =
     (case write_all ws floodpub_connect [] of
        Inl (e, out) \<Rightarrow> (flood_end e, out)
      | Inr (ws, out) \<Rightarrow>
     (case write_all ws (CRLF @ ''PING'' @ CRLF) out of
        Inl (e, out) \<Rightarrow> (flood_end e, out)
      | Inr (ws, out) \<Rightarrow>
     (case pour target (flood_frame subject sz) msgs 0 ws out of
        Inl (e, out) \<Rightarrow> (flood_end e, out)
      | Inr (count, ws, out) \<Rightarrow>
     (case write_all ws (''PING'' @ CRLF) out of
        Inl (e, out) \<Rightarrow> (flood_end e, out)
      | Inr (ws, out) \<Rightarrow>
          ((case gate [] polls of
              GateWaiting \<Rightarrow> FloodWaiting
            | GateFailed e \<Rightarrow> FloodFailed e
            | GateOver timed \<Rightarrow> if timed then FloodFailed ''server never consumed the whole stream'' else FloodOk count), out)))))"

definition floodpub :: "Flood_Env \<Rightarrow> bytes + bytes \<Rightarrow> SockWrite list \<Rightarrow> (bool \<times> SockRead) list \<Rightarrow> FloodEnd \<times> bytes" where
  "floodpub env first ws polls =
     (let addr = (case fe_addr env of Some a \<Rightarrow> a | None \<Rightarrow> ''127.0.0.1:4222'') in
      case param ''MSGS'' (fe_msgs env) 20000000 of
        Inl e \<Rightarrow> (FloodPanic e, [])
      | Inr msgs \<Rightarrow>
      (case param ''SIZE'' (fe_size env) 128 of
        Inl e \<Rightarrow> (FloodPanic e, [])
      | Inr sz \<Rightarrow>
          let subject = (case fe_subject env of Some s \<Rightarrow> s | None \<Rightarrow> ''test'');
              target = target_bytes_of (fe_target env)
          in case first of
               Inl e \<Rightarrow> (FloodFailed e, [])
             | Inr info \<Rightarrow>
                 if \<not> dial_ok info then (FloodFailed (''no INFO from '' @ addr), [])
                 else floodpub_run subject msgs sz target ws polls))"

section \<open>What is written\<close>

lemma write_all_ends:
  assumes "list_all takes ws" "length buf \<le> progress ws"
  shows "\<exists>ws'. write_all ws buf out = Inr (ws', out @ buf) \<and> list_all takes ws' \<and> progress ws \<le> progress ws' + length buf"
proof -
  have "write_all ws buf out = write_buf ws buf out" using assms(1)
    by (induction ws buf out rule: write_all.induct) (auto split: SockWrite.splits)
  then show ?thesis using write_buf_ends [OF assms, of out] write_buf_all [of ws buf out] by fastforce
qed

lemma pour_ends:
  "list_all takes ws \<Longrightarrow> left * length frame \<le> progress ws \<Longrightarrow>
     \<exists>ws'. pour target frame left count ws out = Inr (count + of_nat (left * length frame), ws', out @ concat (replicate left frame)) \<and>
       list_all takes ws' \<and> progress ws \<le> progress ws' + left * length frame"
proof (induction target frame left count ws out rule: pour.induct)
  case (1 target frame left count ws out)
  define k where "k = min left (per_chunk target (length frame))"
  define buf where "buf = concat (replicate k frame)"
  have chunk: "take (k * length frame) (flood_chunk (per_chunk target (length frame)) frame) = buf"
    unfolding buf_def k_def by (rule publish_chunk)
  show ?case
  proof (cases "left > 0")
    case False
    with 1(2) show ?thesis by (simp add: pour.simps)
  next
    case True
    have lb: "length buf = k * length frame" unfolding buf_def by (induction k) simp_all
    have kl: "k \<le> left" by (simp add: k_def)
    have "length buf \<le> progress ws" unfolding lb using 1(3) mult_le_mono1 [OF kl] by (rule order_trans [rotated])
    from write_buf_ends [OF 1(2) this, of out] obtain ws' out1 where
      w: "write_buf ws buf out = Inr (ws', out1)" "list_all takes ws'" "progress ws \<le> progress ws' + length buf" by blast
    have o: "out1 = out @ buf" using write_buf_all [OF w(1)] .
    have split: "left * length frame = length buf + (left - k) * length frame"
      unfolding lb using kl by (simp add: diff_mult_distrib)
    have all: "concat (replicate left frame) = buf @ concat (replicate (left - k) frame)"
      unfolding buf_def by (rule concat_replicate_split) (rule kl)
    have "(left - k) * length frame \<le> progress ws'" using w(3) 1(3) unfolding split by linarith
    from 1(1) [OF True refl refl refl refl, folded k_def, unfolded chunk, OF w(1) refl w(2) this] obtain ws2 where
      r: "pour target frame (left - k) (count + of_nat (length buf)) ws' out1 =
        Inr (count + of_nat (length buf) + of_nat ((left - k) * length frame), ws2, out1 @ concat (replicate (left - k) frame))"
      "list_all takes ws2" "progress ws' \<le> progress ws2 + (left - k) * length frame" by blast
    have "pour target frame left count ws out = pour target frame (left - k) (count + of_nat (length buf)) ws' out1"
      unfolding pour.simps [of target frame left count ws out] Let_def k_def [symmetric] chunk using True w(1) by simp
    moreover have "progress ws \<le> progress ws2 + left * length frame" unfolding split using r(3) w(3) by linarith
    ultimately show ?thesis using r unfolding split all o by (simp add: add.assoc)
  qed
qed

text \<open>Everything the bench sends, in the order it sends it.\<close>

definition handshake :: bytes where
  "handshake = floodpub_connect @ CRLF @ ''PING'' @ CRLF"

definition floodpub_stream :: "bytes \<Rightarrow> nat \<Rightarrow> nat \<Rightarrow> bytes" where
  "floodpub_stream subject msgs sz = handshake @ concat (replicate msgs (flood_frame subject sz)) @ ''PING'' @ CRLF"

lemma floodpub_writes:
  assumes "list_all takes ws" "length (floodpub_stream subject msgs sz) \<le> progress ws"
  shows "floodpub_run subject msgs sz target ws polls =
    ((case gate [] polls of
        GateWaiting \<Rightarrow> FloodWaiting
      | GateFailed e \<Rightarrow> FloodFailed e
      | GateOver timed \<Rightarrow> if timed then FloodFailed ''server never consumed the whole stream''
                          else FloodOk (of_nat (msgs * length (flood_frame subject sz)))),
     floodpub_stream subject msgs sz)"
proof -
  let ?f = "flood_frame subject sz"
  have "length (concat (replicate msgs ?f)) = msgs * length ?f" by (induction msgs) simp_all
  then have room: "length floodpub_connect + (length (CRLF @ ''PING'' @ CRLF) + (msgs * length ?f + length (''PING'' @ CRLF))) \<le> progress ws"
    using assms(2) by (simp add: floodpub_stream_def handshake_def)
  obtain ws1 where 1: "write_all ws floodpub_connect [] = Inr (ws1, floodpub_connect)" "list_all takes ws1"
    "progress ws \<le> progress ws1 + length floodpub_connect"
    using write_all_ends [OF assms(1), of floodpub_connect "[]"] room by auto
  then have r1: "length (CRLF @ ''PING'' @ CRLF) + (msgs * length ?f + length (''PING'' @ CRLF)) \<le> progress ws1" using room by linarith
  then obtain ws2 where 2: "write_all ws1 (CRLF @ ''PING'' @ CRLF) floodpub_connect = Inr (ws2, handshake)" "list_all takes ws2"
    "progress ws1 \<le> progress ws2 + length (CRLF @ ''PING'' @ CRLF)"
    using write_all_ends [OF 1(2), of "CRLF @ ''PING'' @ CRLF" floodpub_connect] by (auto simp: handshake_def)
  then have r2: "msgs * length ?f + length (''PING'' @ CRLF) \<le> progress ws2" using r1 by linarith
  then have "msgs * length ?f \<le> progress ws2" by linarith
  then obtain ws3 where 3: "pour target ?f msgs 0 ws2 handshake =
      Inr (of_nat (msgs * length ?f), ws3, handshake @ concat (replicate msgs ?f))" "list_all takes ws3"
    "progress ws2 \<le> progress ws3 + msgs * length ?f"
    using pour_ends [OF 2(2), of msgs ?f target 0 handshake] by auto
  have "length (''PING'' @ CRLF) \<le> progress ws3" using r2 3(3) by linarith
  then obtain ws4 where "write_all ws3 (''PING'' @ CRLF) (handshake @ concat (replicate msgs ?f)) = Inr (ws4, floodpub_stream subject msgs sz)"
    using write_all_ends [OF 3(2), of "''PING'' @ CRLF" "handshake @ concat (replicate msgs ?f)"] by (auto simp: floodpub_stream_def)
  then show ?thesis using 1(1) 2(1) 3(1) by (simp add: floodpub_run_def del: of_nat_mult)
qed

section \<open>What the server reads\<close>

definition floodpub_json :: bytes where
  "floodpub_json = drop 8 floodpub_connect"

lemma connect_line: "floodpub_connect = ''CONNECT '' @ floodpub_json"
  by (simp add: floodpub_connect_def floodpub_json_def)

lemma feed_handshake:
  assumes "length floodpub_connect \<le> max_control_line lim"
  shows "feed_into lim Line (handshake @ src) out = feed_into lim Line src (out @ [Connect floodpub_json, Ping])"
proof -
  have "floodpub_json \<noteq> []" "\<not> is_blank (hd floodpub_json)" "CR \<notin> set floodpub_json"
    "length floodpub_json + 8 \<le> max_control_line lim" "4 \<le> max_control_line lim"
    using assms by (simp_all add: floodpub_connect_def floodpub_json_def is_blank_def)
  note fed = feed_connect [OF this(1-4), of "''PING'' @ CRLF @ src" out] feed_ping [OF this(5), of src "out @ [Connect floodpub_json]"]
  have eq: "handshake @ src = ''CONNECT '' @ floodpub_json @ CRLF @ ''PING'' @ CRLF @ src" by (simp add: handshake_def connect_line)
  show ?thesis unfolding eq using fed by simp
qed

lemma feed_floodpub_stream:
  assumes "length floodpub_connect \<le> max_control_line lim" "pub_fits lim subject None (replicate sz (CHR ''x''))"
  shows "feed_into lim Line (floodpub_stream subject msgs sz) [] =
    (Line, [], [Connect floodpub_json, Ping] @ replicate msgs (Publish subject None 0 sz (replicate sz (CHR ''x'')) False) @ [Ping], Inr ())"
proof -
  let ?p = "CPub subject None (replicate sz (CHR ''x''))"
  have c: "4 \<le> max_control_line lim" using assms(1) by (simp add: floodpub_connect_def)
  have "list_all (client_fits lim) (replicate msgs ?p)" using assms(2) by (simp add: list_all_iff)
  from parser.run_frames [OF this, of "''PING'' @ CRLF" "[Connect floodpub_json, Ping]", unfolded fold_events flood_frames]
  have "feed_into lim Line (concat (replicate msgs (flood_frame subject sz)) @ ''PING'' @ CRLF) [Connect floodpub_json, Ping] =
      feed_into lim Line (''PING'' @ CRLF) ([Connect floodpub_json, Ping] @ replicate msgs (Publish subject None 0 sz (replicate sz (CHR ''x'')) False))"
    by simp
  then show ?thesis
    using feed_ping [OF c, of "[]"] feed_handshake [OF assms(1), of _ "[]"] by (simp add: floodpub_stream_def feed_into_empty)
qed

lemma gate_sees:
  "has_window (''PONG'' @ [CR]) (seen @ concat bs) \<Longrightarrow> length (seen @ concat bs) \<le> 2 ^ 20 \<Longrightarrow> bs \<noteq> [] \<Longrightarrow>
     gate seen (map (\<lambda>b. (False, GotBytes b)) bs) = GateOver False"
proof (induction bs arbitrary: seen)
  case (Cons b bs)
  show ?case
  proof (cases "has_window (''PONG'' @ [CR]) (seen @ b)")
    case False
    then have "bs \<noteq> []" using Cons.prems(1) by auto
    with False Cons.IH [of "seen @ b"] Cons.prems show ?thesis by (simp add: Let_def)
  qed (simp add: Let_def)
qed simp

section \<open>Properties\<close>

text \<open>C37. The drain bench on a socket that keeps taking bytes: whatever the parameters, the server's parser gets the
  \<^verbatim>\<open>CONNECT\<close>, a \<^verbatim>\<open>PING\<close>, exactly the asked number of publishes and a last \<^verbatim>\<open>PING\<close>, and the run succeeds with the right
  number of bytes. But it needs no more than one \<^verbatim>\<open>PONG\<close> for that, however the reads cut it, and the server owes one as
  soon as it has read the handshake: the gate does not show that the publishes were consumed.\<close>

theorem floodpub_gate_opens_early:
  assumes "param ''MSGS'' (fe_msgs env) 20000000 = Inr msgs" "param ''SIZE'' (fe_size env) 128 = Inr sz" "fe_subject env = Some subject"
    and "dial_ok info" "list_all takes ws" "length (floodpub_stream subject msgs sz) \<le> progress ws"
    and "length floodpub_connect \<le> max_control_line lim" "pub_fits lim subject None (replicate sz (CHR ''x''))"
    and "concat bs = frame_pong"
  shows "floodpub env (Inr info) ws (map (\<lambda>b. (False, GotBytes b)) bs) =
      (FloodOk (of_nat (msgs * length (flood_frame subject sz))), floodpub_stream subject msgs sz) \<and>
    feed_into lim Line (floodpub_stream subject msgs sz) [] =
      (Line, [], [Connect floodpub_json, Ping] @ replicate msgs (Publish subject None 0 sz (replicate sz (CHR ''x'')) False) @ [Ping], Inr ()) \<and>
    feed_into lim Line handshake [] = (Line, [], [Connect floodpub_json, Ping], Inr ())"
proof (intro conjI)
  have "has_window (''PONG'' @ [CR]) frame_pong" by code_simp
  moreover have len: "length frame_pong = 6" by code_simp
  moreover have "bs \<noteq> []" using len unfolding assms(9) [symmetric] by (cases bs) simp_all
  ultimately have "gate [] (map (\<lambda>b. (False, GotBytes b)) bs) = GateOver False"
    using gate_sees [of "[]" bs] assms(9) by simp
  then show "floodpub env (Inr info) ws (map (\<lambda>b. (False, GotBytes b)) bs) =
      (FloodOk (of_nat (msgs * length (flood_frame subject sz))), floodpub_stream subject msgs sz)"
    using assms(1-4) floodpub_writes [OF assms(5,6)] by (simp add: floodpub_def del: of_nat_mult)
  show "feed_into lim Line handshake [] = (Line, [], [Connect floodpub_json, Ping], Inr ())"
    using feed_handshake [OF assms(7), of "[]" "[]"] by (simp add: feed_into_empty)
qed (rule feed_floodpub_stream [OF assms(7,8)])

theorem floodpub_gate_opens_early_witness:
  "let env = \<lparr>fe_addr = None, fe_msgs = Some ''2'', fe_size = Some ''3'', fe_subject = Some ''a'', fe_target = None\<rparr> in
   fst (floodpub env (Inr ''INFO {}'') (WriteInterrupt # replicate 300 (WroteBytes 9)) [(False, GotBytes ''PO''), (False, GotBytes (''NG'' @ CRLF))]) = FloodOk 28"
proof -
  define env where "env = \<lparr>fe_addr = None, fe_msgs = Some ''2'', fe_size = Some ''3'', fe_subject = Some ''a'', fe_target = None\<rparr>"
  let ?ws = "WriteInterrupt # replicate 300 (WroteBytes 9)"
  have "param ''MSGS'' (Some ''2'') 20000000 = Inr 2" "param ''SIZE'' (Some ''3'') 128 = Inr 3" "dial_ok ''INFO {}''"
    "length (floodpub_stream ''a'' 2 3) = 216" "length (flood_frame ''a'' 3) = 14" "length floodpub_connect = 174" "concat [''PO'', ''NG'' @ CRLF] = frame_pong"
    by code_simp+
  moreover have "list_all takes ?ws" "progress ?ws = 300" by (simp_all add: list_all_iff progress_def)
  moreover have "pub_fits default_limits ''a'' None (replicate 3 (CHR ''x''))" "174 \<le> max_control_line default_limits"
    by (simp_all add: pub_fits_def plain_def default_limits_def)
  ultimately show ?thesis
    using floodpub_gate_opens_early [of env 2 3 "''a''" "''INFO {}''" ?ws default_limits "[''PO'', ''NG'' @ CRLF]"]
    unfolding env_def [symmetric] Let_def by (simp add: env_def)
qed

end
