(* ===== verification/Flood_Threads.thy ===== *)
theory Flood_Threads
  imports Floodpub Transition
begin

text \<open>
  The three threads of the delivery bench (\<^verbatim>\<open>main\<close>, \<^verbatim>\<open>publisher\<close> and \<^verbatim>\<open>subscriber\<close> of
  \<^verbatim>\<open>crates/bench/src/bin/floodpubsub.rs\<close>) with the flags and counters they share, as a step relation. A step of the
  subscriber is one read with the frames found in it; a step of the publisher is its handshake, a wait, or the flood; a
  step of \<^verbatim>\<open>main\<close> is one look at the shared state. Clock readings are nanoseconds; progress lines are left out.
\<close>

section \<open>The handshakes\<close>

definition bench_connect :: bytes where
  \<open>bench_connect = ''CONNECT {"verbose":false,"pedantic":false,"tls_required":false,"name":"floodpubsub","lang":"rust","version":"0.1.0","protocol":1,"echo":true,"headers":true,"no_responders":true}''\<close>

text \<open>\<^verbatim>\<open>dial\<close>: \<open>first\<close> is an error of \<^verbatim>\<open>connect\<close> or the read, or what the first read gave.\<close>

definition dial :: "bytes \<Rightarrow> bytes + bytes \<Rightarrow> bytes + unit" where
  "dial addr first =
     (case first of
        Inl e \<Rightarrow> Inl e
      | Inr info \<Rightarrow> if dial_ok info then Inr () else Inl (''no INFO from '' @ addr))"

text \<open>One \<^verbatim>\<open>write_all\<close> after the other.\<close>

fun write_each :: "SockWrite list \<Rightarrow> bytes list \<Rightarrow> bytes \<Rightarrow> (PubEnd \<times> bytes) + (SockWrite list \<times> bytes)" where
  "write_each ws [] out = Inr (ws, out)"
| "write_each ws (b # bs) out =
     (case write_all ws b out of
        Inl r \<Rightarrow> Inl r
      | Inr (ws', out') \<Rightarrow> write_each ws' bs out')"

text \<open>
  From \<^verbatim>\<open>dial\<close> to the \<^verbatim>\<open>PONG\<close>: no value while it waits, an error, or what was written. The two threads differ in what they
  write.
\<close>

definition greet :: "bytes list \<Rightarrow> bytes \<Rightarrow> bytes + bytes \<Rightarrow> SockWrite list \<Rightarrow> (bool \<times> SockRead) list \<Rightarrow> (bytes + bytes) option" where
  "greet hello addr first ws reads =
     (case dial addr first of
        Inl e \<Rightarrow> Some (Inl e)
      | Inr _ \<Rightarrow>
          (case write_each ws hello [] of
             Inl (PubFailed e, out) \<Rightarrow> Some (Inl e)
           | Inl (_, out) \<Rightarrow> None
           | Inr (ws', out) \<Rightarrow>
               (case expect_pong [] reads out of
                  (PongWaiting, sent) \<Rightarrow> None
                | (PongFailed e, sent) \<Rightarrow> Some (Inl e)
                | (PongSeen, sent) \<Rightarrow> Some (Inr sent))))"

definition publisher_hello :: "bytes list" where
  "publisher_hello = [bench_connect, CRLF @ ''PING'' @ CRLF]"

definition subscriber_hello :: "bytes \<Rightarrow> bytes \<Rightarrow> bytes list" where
  "subscriber_hello subject sid = [bench_connect, CRLF, ''SUB '' @ subject @ '' '' @ sid @ CRLF @ ''PING'' @ CRLF]"

section \<open>The shared state\<close>

record Bench_Cfg =
  bc_addr :: bytes
  bc_msgs :: u64
  bc_size :: nat
  bc_subject :: bytes
  bc_sid :: bytes
  bc_target :: nat
  bc_read :: nat
  bc_stall :: nat
  bc_quiesce :: nat

datatype Pub_Phase = PubDialing | PubAwaitsSub | PubAwaitsGo | PubFlooding | PubReturned "bytes + u64"

datatype Sub_Phase = SubDialing | SubAwaitsGo | SubReading | SubReturned "bytes + unit"

text \<open>
  \<^verbatim>\<open>main\<close>: its wait for the subscription since a time, its wait for the publisher, the head and the body of the loop that
  waits for the count to settle with \<^verbatim>\<open>last\<close> and \<^verbatim>\<open>moved\<close>, the join with \<^verbatim>\<open>got\<close> and \<^verbatim>\<open>moved\<close>, and its result, the
  count and the duration it reports.
\<close>

datatype Main_Phase =
    AwaitSub nat
  | AwaitPub
  | SettleHead u64 nat
  | SettleBody u64 nat
  | Joining u64 nat
  | MainOver "bytes + (u64 \<times> nat)"

record Bench =
  b_clock :: nat
  b_subscribed :: bool
  b_go :: bool
  b_done :: bool
  b_pub :: Pub_Phase
  b_sub :: Sub_Phase
  b_buf :: bytes
  b_thread :: Sub_Thread
  b_main :: Main_Phase
  b_t0 :: nat

definition bench_new :: "nat \<Rightarrow> Bench" where
  "bench_new t =
     \<lparr>b_clock = t, b_subscribed = False, b_go = False, b_done = False, b_pub = PubDialing, b_sub = SubDialing, b_buf = [],
      b_thread = sub_thread_new, b_main = AwaitSub t, b_t0 = t\<rparr>"

text \<open>\<^verbatim>\<open>main\<close>: \<^verbatim>\<open>MSGS\<close>, \<^verbatim>\<open>SIZE\<close> and the other numbers, the first one that is no number panics.\<close>

definition bench_cfg ::
    "(bytes \<Rightarrow> bytes option) \<Rightarrow> bytes + Bench_Cfg" where
  "bench_cfg env =
     (let addr = connect_addr (env ''NATS_BENCH_URL'') (env ''ADDR'') in
      case param ''MSGS'' (env ''MSGS'') 10000000 of Inl e \<Rightarrow> Inl e | Inr msgs \<Rightarrow>
      (case param ''SIZE'' (env ''SIZE'') 256 of Inl e \<Rightarrow> Inl e | Inr sz \<Rightarrow>
      (let subject = (case env ''SUBJECT'' of Some s \<Rightarrow> s | None \<Rightarrow> ''bench'');
           sid = (case env ''SID'' of Some s \<Rightarrow> s | None \<Rightarrow> ''1'') in
      case param ''TARGET_BYTES'' (env ''TARGET_BYTES'') (256 * 1024) of Inl e \<Rightarrow> Inl e | Inr target \<Rightarrow>
      (case param ''READ_BYTES'' (env ''READ_BYTES'') (4 * 1024 * 1024) of Inl e \<Rightarrow> Inl e | Inr rd \<Rightarrow>
      (case param ''STALL_SECS'' (env ''STALL_SECS'') 60 of Inl e \<Rightarrow> Inl e | Inr stall \<Rightarrow>
      (case param ''QUIESCE_SECS'' (env ''QUIESCE_SECS'') 2 of Inl e \<Rightarrow> Inl e | Inr quiesce \<Rightarrow>
       Inr \<lparr>bc_addr = addr, bc_msgs = of_nat msgs, bc_size = sz, bc_subject = subject, bc_sid = sid, bc_target = target,
            bc_read = rd, bc_stall = stall, bc_quiesce = quiesce\<rparr>))))))"

section \<open>The steps of \<^verbatim>\<open>main\<close>\<close>

definition secs :: "nat \<Rightarrow> nat" where
  "secs n = n * 1000000000"

text \<open>\<^verbatim>\<open>err_of\<close>; no value stands for a panic.\<close>

fun err_of :: "(bytes + unit) option \<Rightarrow> bytes" where
  "err_of (Some (Inr _)) = ''ended cleanly''"
| "err_of (Some (Inl e)) = e"
| "err_of None = ''panicked''"

definition start_clock :: "Bench \<Rightarrow> Bench" where
  "start_clock s = s\<lparr>b_t0 := b_clock s, b_go := True, b_main := AwaitPub\<rparr>"

definition main_over :: "bytes + (u64 \<times> nat) \<Rightarrow> Bench \<Rightarrow> Bench" where
  "main_over r s = s\<lparr>b_main := MainOver r\<rparr>"

text \<open>After the loop: the count is taken and the subscriber told to end.\<close>

definition settled :: "nat \<Rightarrow> Bench \<Rightarrow> Bench" where
  "settled moved s = s\<lparr>b_done := True, b_main := Joining (st_delivered (b_thread s)) moved\<rparr>"

definition main_turn :: "Bench_Cfg \<Rightarrow> Bench \<Rightarrow> Bench" where
  "main_turn c s =
     (let delivered = st_delivered (b_thread s); failed = st_failed (b_thread s) in
      case b_main s of
        AwaitSub wait \<Rightarrow>
          if b_subscribed s then start_clock s
          else if \<not> b_clock s - wait < secs 20 then main_over (Inl ''subscriber never subscribed'') s
          else if failed then main_over (Inl ''subscriber died subscribing'') s
          else (case b_sub s of SubReturned _ \<Rightarrow> start_clock s | _ \<Rightarrow> s)
      | AwaitPub \<Rightarrow>
          (case b_pub s of
             PubReturned (Inl e) \<Rightarrow> main_over (Inl e) s
           | PubReturned (Inr written) \<Rightarrow>
               if written \<noteq> bc_msgs c
               then main_over (Inl (''publisher wrote '' @ show_nat (unat written) @ '' of '' @ show_nat (unat (bc_msgs c)))) s
               else s\<lparr>b_main := SettleHead delivered (b_clock s)\<rparr>
           | _ \<Rightarrow> s)
      | SettleHead prev moved \<Rightarrow>
          if delivered < bc_msgs c \<and> \<not> failed then s\<lparr>b_main := SettleBody prev moved\<rparr> else settled moved s
      | SettleBody prev moved \<Rightarrow>
          if delivered \<noteq> prev then
            (if b_clock s - b_t0 s > secs (bc_stall c) then settled (b_clock s) s
             else s\<lparr>b_main := SettleHead delivered (b_clock s)\<rparr>)
          else if b_clock s - moved > secs (bc_quiesce c) then settled moved s
          else if b_clock s - b_t0 s > secs (bc_stall c) then settled moved s
          else s\<lparr>b_main := SettleHead prev moved\<rparr>
      | Joining got moved \<Rightarrow>
          (case b_sub s of
             SubReturned r \<Rightarrow>
               if failed then main_over (Inl (''subscriber went away: '' @ err_of (Some r))) s
               else main_over (Inr (got, moved - b_t0 s)) s
           | _ \<Rightarrow> s)
      | MainOver _ \<Rightarrow> s)"

section \<open>All threads\<close>

fun sub_phase :: "SubEnd \<Rightarrow> Sub_Phase" where
  "sub_phase SubRunning = SubReading"
| "sub_phase SubOk = SubReturned (Inr ())"
| "sub_phase (SubFailed e) = SubReturned (Inl e)"

inductive bench_step :: "Bench_Cfg \<Rightarrow> Bench \<Rightarrow> Bench \<Rightarrow> bool" for c where
  clock: "bench_step c s (s\<lparr>b_clock := b_clock s + d\<rparr>)"
| look: "bench_step c s (main_turn c s)"
| sub_refused: "b_sub s = SubDialing \<Longrightarrow> greet (subscriber_hello (bc_subject c) (bc_sid c)) (bc_addr c) first ws reads = Some (Inl e) \<Longrightarrow>
    bench_step c s (s\<lparr>b_sub := SubReturned (Inl e)\<rparr>)"
| sub_greeted: "b_sub s = SubDialing \<Longrightarrow> greet (subscriber_hello (bc_subject c) (bc_sid c)) (bc_addr c) first ws reads = Some (Inr sent) \<Longrightarrow>
    bench_step c s (s\<lparr>b_subscribed := True, b_sub := SubAwaitsGo\<rparr>)"
| sub_goes: "b_sub s = SubAwaitsGo \<Longrightarrow> b_go s \<Longrightarrow> bench_step c s (s\<lparr>b_sub := SubReading\<rparr>)"
| sub_reads: "b_sub s = SubReading \<Longrightarrow>
    subscriber_read (bc_msgs c) (subscriber_cap (bc_read c)) (b_done s) (b_buf s, b_thread s) r = Some (buf, st) \<Longrightarrow>
    bench_step c s (s\<lparr>b_buf := buf, b_thread := st, b_sub := sub_phase (st_end st)\<rparr>)"
| pub_refused: "b_pub s = PubDialing \<Longrightarrow> greet publisher_hello (bc_addr c) first ws reads = Some (Inl e) \<Longrightarrow>
    bench_step c s (s\<lparr>b_pub := PubReturned (Inl e)\<rparr>)"
| pub_greeted: "b_pub s = PubDialing \<Longrightarrow> greet publisher_hello (bc_addr c) first ws reads = Some (Inr sent) \<Longrightarrow>
    bench_step c s (s\<lparr>b_pub := PubAwaitsSub\<rparr>)"
| pub_sees_sub: "b_pub s = PubAwaitsSub \<Longrightarrow> b_subscribed s \<Longrightarrow> bench_step c s (s\<lparr>b_pub := PubAwaitsGo\<rparr>)"
| pub_goes: "b_pub s = PubAwaitsGo \<Longrightarrow> b_go s \<Longrightarrow> bench_step c s (s\<lparr>b_pub := PubFlooding\<rparr>)"
| pub_fails: "b_pub s = PubFlooding \<Longrightarrow>
    publisher (bc_subject c) (unat (bc_msgs c)) (bc_size c) (bc_target c) ws = (PubFailed e, out) \<Longrightarrow>
    bench_step c s (s\<lparr>b_pub := PubReturned (Inl e)\<rparr>)"
| pub_ends: "b_pub s = PubFlooding \<Longrightarrow>
    publisher (bc_subject c) (unat (bc_msgs c)) (bc_size c) (bc_target c) ws = (PubOk n, out) \<Longrightarrow>
    bench_step c s (s\<lparr>b_pub := PubReturned (Inr (of_nat n))\<rparr>)"

section \<open>What every run keeps\<close>

definition counting :: "u64 \<Rightarrow> bytes \<Rightarrow> Sub_Thread \<Rightarrow> bytes \<times> Sub_Thread \<Rightarrow> bool" where
  "counting msgs src st r \<longleftrightarrow>
     (st_delivered st < msgs \<and> st_end st = SubRunning \<longrightarrow>
        st_delivered (snd r) \<le> msgs \<and> (st_end (snd r) = SubRunning \<longrightarrow> st_delivered (snd r) < msgs))"

lemma scan_frames_count: "scan_frames msgs src st = Some r \<Longrightarrow> counting msgs src st r"
proof (erule scan_frames.raw_induct [rotated], goal_cases)
  case (1 f msgs src st r)
  have inc: "st_delivered st < msgs \<Longrightarrow> st_delivered st + 1 \<le> msgs" by (rule inc_le)
  have go: "f m a t = Some r \<Longrightarrow> counting m a t r" for m a t using 1(1) by blast
  show ?case
  proof (cases "next_frame src")
    case (Message n)
    with 1(2) inc go show ?thesis
      by (fastforce simp: Let_def counting_def not_le split: if_splits)
  next
    case PingFrame
    with 1(2) go show ?thesis by (fastforce simp: counting_def)
  next
    case (SkipBytes n)
    with 1(2) go show ?thesis by (fastforce simp: counting_def)
  qed (use 1(2) in \<open>auto simp: counting_def\<close>)
qed

text \<open>The count stays below the number asked for while the subscriber runs, and never passes it.\<close>

lemma subscriber_read_count:
  assumes "subscriber_read msgs cap over (buf, st) r = Some (buf', st')" "st_delivered st < msgs" "st_end st = SubRunning"
  shows "st_delivered st' \<le> msgs \<and> (st_end st' = SubRunning \<longrightarrow> st_delivered st' < msgs)"
  using assms scan_frames_count [of msgs _ st "(buf', st')"]
  by (auto simp: subscriber_read_def counting_def split: if_splits SockRead.splits)

definition pub_went :: "Bench \<Rightarrow> bool" where
  "pub_went s \<longleftrightarrow> b_pub s = PubFlooding \<or> (\<exists>n. b_pub s = PubReturned (Inr n))"

text \<open>What the threads know of each other.\<close>

definition threads_ok :: "Bench_Cfg \<Rightarrow> Bench \<Rightarrow> bool" where
  "threads_ok c s \<longleftrightarrow>
     (b_sub s = SubDialing \<longrightarrow> \<not> b_subscribed s) \<and> (b_sub s = SubAwaitsGo \<or> b_sub s = SubReading \<longrightarrow> b_subscribed s) \<and>
     (b_pub s = PubAwaitsGo \<or> pub_went s \<longrightarrow> b_subscribed s) \<and> (pub_went s \<or> b_sub s = SubReading \<longrightarrow> b_go s) \<and>
     (\<forall>n. b_pub s = PubReturned (Inr n) \<longrightarrow> n = bc_msgs c)"

definition count_ok :: "Bench_Cfg \<Rightarrow> Bench \<Rightarrow> bool" where
  "count_ok c s \<longleftrightarrow>
     st_delivered (b_thread s) \<le> bc_msgs c \<and>
     (b_sub s = SubDialing \<or> b_sub s = SubAwaitsGo \<or> b_sub s = SubReading \<longrightarrow>
        st_delivered (b_thread s) < bc_msgs c \<and> st_end (b_thread s) = SubRunning)"

fun main_ok :: "Bench_Cfg \<Rightarrow> Bench \<Rightarrow> Main_Phase \<Rightarrow> bool" where
  "main_ok c s (AwaitSub _) = (\<not> b_go s)"
| "main_ok c s AwaitPub = (b_go s \<and> b_t0 s \<le> b_clock s)"
| "main_ok c s (SettleHead _ moved) = (b_pub s = PubReturned (Inr (bc_msgs c)) \<and> b_t0 s \<le> moved \<and> moved \<le> b_clock s)"
| "main_ok c s (SettleBody _ moved) = (b_pub s = PubReturned (Inr (bc_msgs c)) \<and> b_t0 s \<le> moved \<and> moved \<le> b_clock s)"
| "main_ok c s (Joining got moved) =
     (b_done s \<and> got \<le> bc_msgs c \<and> b_pub s = PubReturned (Inr (bc_msgs c)) \<and> b_t0 s \<le> moved \<and> moved \<le> b_clock s)"
| "main_ok c s (MainOver (Inl e)) = True"
| "main_ok c s (MainOver (Inr (got, dur))) =
     (got \<le> bc_msgs c \<and> b_pub s = PubReturned (Inr (bc_msgs c)) \<and> b_t0 s + dur \<le> b_clock s \<and>
      (\<exists>r. b_sub s = SubReturned r) \<and> \<not> st_failed (b_thread s))"

definition bench_ok :: "Bench_Cfg \<Rightarrow> Bench \<Rightarrow> bool" where
  "bench_ok c s \<longleftrightarrow> threads_ok c s \<and> count_ok c s \<and> main_ok c s (b_main s)"

lemma bench_new_ok: "0 < bc_msgs c \<Longrightarrow> bench_ok c (bench_new t)"
  by (simp add: bench_ok_def bench_new_def threads_ok_def pub_went_def count_ok_def sub_thread_new_def)

lemmas main_turn_defs = main_turn_def start_clock_def main_over_def settled_def

lemma main_turn_same [simp]:
  "b_clock (main_turn c s) = b_clock s" "b_subscribed (main_turn c s) = b_subscribed s" "b_pub (main_turn c s) = b_pub s"
  "b_sub (main_turn c s) = b_sub s" "b_buf (main_turn c s) = b_buf s" "b_thread (main_turn c s) = b_thread s"
  by (simp_all add: main_turn_defs Let_def split: Main_Phase.splits Pub_Phase.splits Sub_Phase.splits sum.splits)

lemma main_turn_go: "b_go s \<Longrightarrow> b_go (main_turn c s)"
  by (simp add: main_turn_defs Let_def split: Main_Phase.splits Pub_Phase.splits Sub_Phase.splits sum.splits)

lemma main_turn_ok:
  assumes "bench_ok c s"
  shows "bench_ok c (main_turn c s)"
proof -
  have "threads_ok c (main_turn c s)" "count_ok c (main_turn c s)"
    using assms main_turn_go [of s c] by (auto simp: bench_ok_def threads_ok_def count_ok_def pub_went_def)
  moreover have "main_ok c (main_turn c s) (b_main (main_turn c s))"
  proof (cases "b_main s")
    case (MainOver r)
    then have "main_turn c s = s" by (simp add: main_turn_def)
    with assms show ?thesis by (simp add: bench_ok_def)
  next
    case AwaitPub
    with assms show ?thesis
      by (simp add: bench_ok_def threads_ok_def main_turn_defs split: Pub_Phase.splits sum.splits)
  next
    case (Joining got moved)
    with assms show ?thesis by (simp add: bench_ok_def main_turn_defs split: Sub_Phase.splits)
  next
    case (SettleBody prev moved)
    with assms show ?thesis by (auto simp: bench_ok_def count_ok_def main_turn_defs Let_def)
  qed (use assms in \<open>simp_all add: bench_ok_def count_ok_def main_turn_defs split: Sub_Phase.splits\<close>)
  ultimately show ?thesis by (simp add: bench_ok_def)
qed

lemma publisher_returns_msgs:
  "publisher subject msgs sz target ws = (PubOk n, out) \<Longrightarrow> n = msgs"
  using publish_loop_stream [of msgs target "flood_frame subject sz" msgs ws "[]" "PubOk n" out] by (simp add: publisher_def)

lemma main_ok_same:
  assumes "main_ok c s m" "b_clock s \<le> b_clock s'" "b_t0 s' = b_t0 s" "b_go s' = b_go s" "b_done s' = b_done s"
    and "b_pub s' = b_pub s \<or> (\<forall>r. b_pub s \<noteq> PubReturned r)" "b_sub s' = b_sub s \<and> b_thread s' = b_thread s \<or> (\<forall>r. b_sub s \<noteq> SubReturned r)"
  shows "main_ok c s' m"
  using assms by (cases "(c, s, m)" rule: main_ok.cases) auto

lemma bench_step_main:
  assumes "bench_step c s s'" "main_ok c s (b_main s)" "s' \<noteq> main_turn c s"
  shows "main_ok c s' (b_main s')"
  using assms(1)
  by cases (use assms(2,3) in \<open>auto elim!: main_ok_same\<close>)

lemmas bench_parts = bench_ok_def threads_ok_def count_ok_def pub_went_def

lemma bench_step_ok:
  assumes "bench_step c s s'" "bench_ok c s"
  shows "bench_ok c s'"
proof (cases "s' = main_turn c s")
  case True
  with main_turn_ok [OF assms(2)] show ?thesis by simp
next
  case False
  then have m: "main_ok c s' (b_main s')" using bench_step_main [OF assms(1)] assms(2) by (simp add: bench_ok_def)
  have "threads_ok c s' \<and> count_ok c s'"
    using assms(1)
  proof cases
    case (sub_reads r buf st)
    have "st_delivered st \<le> bc_msgs c \<and> (st_end st = SubRunning \<longrightarrow> st_delivered st < bc_msgs c)"
      using subscriber_read_count [OF sub_reads(3)] assms(2) sub_reads(2) by (simp add: bench_ok_def count_ok_def)
    then show ?thesis
      using assms(2) sub_reads(1,2) by (cases "st_end st") (auto simp: bench_parts)
  next
    case (pub_ends ws n out)
    have "n = unat (bc_msgs c)" using pub_ends(3) by (rule publisher_returns_msgs)
    with pub_ends(1,2) assms(2) show ?thesis by (auto simp: bench_parts)
  qed (use assms(2) False in \<open>auto simp: bench_parts\<close>)
  with m show ?thesis by (simp add: bench_ok_def)
qed

interpretation bench: keeps "bench_step c" "bench_ok c" for c
  by unfold_locales (rule bench_step_ok)

section \<open>The run ends\<close>

lemma settle_stops:
  assumes "b_main s = SettleHead prev moved \<or> b_main s = SettleBody prev moved" "b_clock s - b_t0 s > secs (bc_stall c)"
  shows "\<exists>s' got m. (bench_step c)\<^sup>*\<^sup>* s s' \<and> b_main s' = Joining got m"
proof -
  let ?t = "main_turn c s"
  have body: "\<exists>got m. b_main (main_turn c u) = Joining got m"
    if "b_main u = SettleBody prev moved" "b_clock u - b_t0 u > secs (bc_stall c)" for u
    using that by (simp add: main_turn_defs Let_def)
  show ?thesis
  proof (cases "b_main s = SettleBody prev moved")
    case True
    with body [OF _ assms(2)] bench_step.look [of c s] show ?thesis by (blast intro: r_into_rtranclp)
  next
    case False
    then have h: "b_main s = SettleHead prev moved" using assms(1) by blast
    show ?thesis
    proof (cases "st_delivered (b_thread s) < bc_msgs c \<and> \<not> st_failed (b_thread s)")
      case True
      then have t: "?t = s\<lparr>b_main := SettleBody prev moved\<rparr>" using h by (simp add: main_turn_def)
      then have "\<exists>got m. b_main (main_turn c ?t) = Joining got m" using body [of ?t] assms(2) by simp
      moreover have "(bench_step c)\<^sup>*\<^sup>* s (main_turn c ?t)"
        using bench_step.look [of c s] bench_step.look [of c ?t] by (rule converse_rtranclp_into_rtranclp [OF _ r_into_rtranclp])
      ultimately show ?thesis by blast
    next
      case False
      then have "\<exists>got m. b_main ?t = Joining got m" using h by (auto simp: main_turn_defs Let_def)
      with bench_step.look [of c s] show ?thesis by (blast intro: r_into_rtranclp)
    qed
  qed
qed

lemma subscriber_returns:
  assumes "bench_ok c s" "b_main s = Joining got moved"
  shows "\<exists>s' r. (bench_step c)\<^sup>*\<^sup>* s s' \<and> b_main s' = Joining got moved \<and> b_sub s' = SubReturned r"
proof -
  have "b_done s" "pub_went s" using assms by (simp_all add: bench_ok_def pub_went_def)
  then have pub: "b_subscribed s" "b_go s" "b_done s" using assms(1) by (simp_all add: bench_ok_def threads_ok_def)
  have reading: "\<exists>u' r. bench_step c u u' \<and> b_main u' = Joining got moved \<and> b_sub u' = SubReturned r"
    if u: "b_sub u = SubReading" "b_done u" "b_main u = Joining got moved" for u
  proof -
    have "\<exists>st. subscriber_read (bc_msgs c) (subscriber_cap (bc_read c)) (b_done u) (b_buf u, b_thread u) (GotTimeout []) = Some (b_buf u, st) \<and>
        st_end st \<noteq> SubRunning" using u(2) by (simp add: subscriber_read_def)
    then obtain st where r: "subscriber_read (bc_msgs c) (subscriber_cap (bc_read c)) (b_done u) (b_buf u, b_thread u) (GotTimeout []) = Some (b_buf u, st)"
      "st_end st \<noteq> SubRunning" by blast
    let ?u = "u\<lparr>b_buf := b_buf u, b_thread := st, b_sub := sub_phase (st_end st)\<rparr>"
    obtain r where "b_sub ?u = SubReturned r" using r(2) by (cases "st_end st") simp_all
    moreover have "b_main ?u = Joining got moved" using u(3) by simp
    ultimately show ?thesis using bench_step.sub_reads [OF u(1) r(1)] by blast
  qed
  show ?thesis
  proof (cases "b_sub s")
    case SubDialing
    with assms(1) pub(1) show ?thesis by (simp add: bench_parts)
  next
    case SubAwaitsGo
    let ?u = "s\<lparr>b_sub := SubReading\<rparr>"
    have "bench_step c s ?u" using SubAwaitsGo pub(2) by (rule bench_step.sub_goes)
    moreover obtain u' r where "bench_step c ?u u'" "b_main u' = Joining got moved" "b_sub u' = SubReturned r"
      using reading [of ?u] pub(3) assms(2) by auto
    ultimately show ?thesis by (blast intro: converse_rtranclp_into_rtranclp)
  next
    case SubReading
    with reading [of s] pub(3) assms(2) show ?thesis by (blast intro: r_into_rtranclp)
  next
    case (SubReturned r)
    with assms(2) show ?thesis by blast
  qed
qed

text \<open>Once the publisher has returned with success there is always a way to the end of the run.\<close>

lemma bench_can_end:
  assumes "bench_ok c s" "b_main s \<noteq> AwaitPub" "\<And>w. b_main s \<noteq> AwaitSub w"
  shows "\<exists>s' r. (bench_step c)\<^sup>*\<^sup>* s s' \<and> b_main s' = MainOver r"
proof -
  have join: "\<exists>s' r. (bench_step c)\<^sup>*\<^sup>* u s' \<and> b_main s' = MainOver r" if "bench_ok c u" "b_main u = Joining got moved" for u got moved
  proof -
    from subscriber_returns [OF that] obtain v r where v: "(bench_step c)\<^sup>*\<^sup>* u v" "b_main v = Joining got moved" "b_sub v = SubReturned r" by blast
    then have "\<exists>r. b_main (main_turn c v) = MainOver r" by (simp add: main_turn_defs Let_def)
    with v(1) bench_step.look [of c v] show ?thesis by (blast intro: rtranclp.rtrancl_into_rtrancl)
  qed
  have settle: "\<exists>s' r. (bench_step c)\<^sup>*\<^sup>* s s' \<and> b_main s' = MainOver r"
    if "b_main s = SettleHead prev moved \<or> b_main s = SettleBody prev moved" for prev moved
  proof -
    let ?u = "s\<lparr>b_clock := b_clock s + (b_t0 s + secs (bc_stall c) + 1)\<rparr>"
    have "b_main ?u = SettleHead prev moved \<or> b_main ?u = SettleBody prev moved" "b_clock ?u - b_t0 ?u > secs (bc_stall c)"
      using that by auto
    from settle_stops [OF this] obtain v got m where v: "(bench_step c)\<^sup>*\<^sup>* ?u v" "b_main v = Joining got m" by blast
    from bench_step.clock v(1) have sv: "(bench_step c)\<^sup>*\<^sup>* s v" by (rule converse_rtranclp_into_rtranclp)
    obtain s' r where "(bench_step c)\<^sup>*\<^sup>* v s'" "b_main s' = MainOver r" using join [OF bench.reach [OF sv assms(1)] v(2)] by blast
    with rtranclp_trans [OF sv] show ?thesis by blast
  qed
  show ?thesis
  proof (cases "b_main s")
    case (SettleHead prev moved)
    then show ?thesis by (intro settle disjI1)
  next
    case (SettleBody prev moved)
    then show ?thesis by (intro settle disjI2)
  next
    case (Joining got moved)
    then show ?thesis by (rule join [OF assms(1)])
  qed (use assms(2,3) in blast)+
qed

section \<open>A subscriber that does not get through\<close>

text \<open>
  When the subscriber returns before it has subscribed, \<^verbatim>\<open>main\<close> leaves its wait to "surface its error", but goes on to wait
  for a publisher that waits for the subscription.
\<close>

definition stuck :: "Bench \<Rightarrow> bool" where
  "stuck s \<longleftrightarrow> b_main s = AwaitPub \<and> b_pub s = PubAwaitsSub \<and> \<not> b_subscribed s \<and> (\<exists>r. b_sub s = SubReturned r)"

lemma stuck_step: "bench_step c s s' \<Longrightarrow> stuck s \<Longrightarrow> stuck s'"
  by (cases rule: bench_step.cases) (auto simp: stuck_def main_turn_def)

interpretation stuck: keeps "bench_step c" stuck for c
  by unfold_locales (rule stuck_step)

text \<open>Any other error of the subscriber is lost when the run is reported: only the flag \<^verbatim>\<open>failed\<close> is looked at.\<close>

lemma subscriber_error_unreported:
  "b_main s = Joining got moved \<Longrightarrow> b_sub s = SubReturned (Inl e) \<Longrightarrow> \<not> st_failed (b_thread s) \<Longrightarrow>
     b_main (main_turn c s) = MainOver (Inr (got, moved - b_t0 s))"
  by (simp add: main_turn_defs)

lemma read_error_keeps_failed:
  "length buf < cap \<Longrightarrow> subscriber_read msgs cap over (buf, st) (GotError e) = Some (buf, st\<lparr>st_end := SubFailed e\<rparr>)"
  by (simp add: subscriber_read_def)

section \<open>Properties\<close>


text \<open>A run for one message of no bytes, from the start to its report.\<close>

definition bench_sample :: Bench_Cfg where
  "bench_sample =
     \<lparr>bc_addr = ''h'', bc_msgs = 1, bc_size = 0, bc_subject = ''a'', bc_sid = ''1'', bc_target = 9, bc_read = 0, bc_stall = 60, bc_quiesce = 2\<rparr>"

lemma bench_sample_greets:
  "\<exists>sent. greet (subscriber_hello ''a'' ''1'') ''h'' (Inr ''INFO {}'') (replicate 3 (WroteBytes 500)) [(False, GotBytes frame_pong)] = Some (Inr sent)"
  "\<exists>sent. greet publisher_hello ''h'' (Inr ''INFO {}'') (replicate 2 (WroteBytes 500)) [(False, GotBytes frame_pong)] = Some (Inr sent)"
  "greet (subscriber_hello ''a'' ''1'') ''h'' (Inr ''INFO {}'') (replicate 3 (WroteBytes 500)) [(False, GotTimeout ''timed out'')] = Some (Inl ''timed out'')"
proof -
  have p: "has_window ''PONG'' frame_pong" by code_simp
  have l: "length bench_connect \<le> 500" by (simp add: bench_connect_def)
  show "\<exists>sent. greet (subscriber_hello ''a'' ''1'') ''h'' (Inr ''INFO {}'') (replicate 3 (WroteBytes 500)) [(False, GotBytes frame_pong)] = Some (Inr sent)"
    "\<exists>sent. greet publisher_hello ''h'' (Inr ''INFO {}'') (replicate 2 (WroteBytes 500)) [(False, GotBytes frame_pong)] = Some (Inr sent)"
    "greet (subscriber_hello ''a'' ''1'') ''h'' (Inr ''INFO {}'') (replicate 3 (WroteBytes 500)) [(False, GotTimeout ''timed out'')] = Some (Inl ''timed out'')"
    using p l by (simp_all add: greet_def dial_def dial_ok_def subscriber_hello_def publisher_hello_def numeral_3_eq_3 numeral_2_eq_2 CRLF_def)
qed

lemma bench_sample_floods: "publisher ''a'' 1 0 9 [WroteBytes 20] = (PubOk 1, flood_frame ''a'' 0)"
  by code_simp

lemma bench_sample_counts:
  "subscriber_read 1 (subscriber_cap 0) False ([], sub_thread_new) (GotBytes (''MSG a 1 0'' @ CRLF @ CRLF)) =
     Some (''MSG a 1 0'' @ CRLF @ CRLF,
       \<lparr>st_delivered = 1, st_consumed = 13, st_failed = False, st_sent = [], st_end = SubOk\<rparr>)"
proof -
  define msg where "msg = ''MSG a 1 0'' @ CRLF @ CRLF"
  have "next_frame msg = Message 13" unfolding msg_def by code_simp
  then show ?thesis
    unfolding msg_def [symmetric]
    by (simp add: subscriber_read_def subscriber_cap_def scan_frames.simps [of _ msg] sub_thread_new_def Let_def)
qed


text \<open>A bench whose subscriber is refused hangs: whenever the subscriber's handshake can fail while the publisher's
  succeeds, there is a run in which the subscriber has returned its error and \<^verbatim>\<open>main\<close> waits for the publisher for ever.\<close>

theorem refused_subscriber_hangs_the_bench:
  assumes "greet (subscriber_hello (bc_subject c) (bc_sid c)) (bc_addr c) f1 ws1 rs1 = Some (Inl e)"
    and "greet publisher_hello (bc_addr c) f2 ws2 rs2 = Some (Inr sent)"
  shows "\<exists>s. (bench_step c)\<^sup>*\<^sup>* (bench_new t) s \<and> b_sub s = SubReturned (Inl e) \<and>
    (\<forall>s'. (bench_step c)\<^sup>*\<^sup>* s s' \<longrightarrow> b_main s' = AwaitPub)"
proof -
  let ?s1 = "(bench_new t)\<lparr>b_sub := SubReturned (Inl e)\<rparr>"
  let ?s2 = "?s1\<lparr>b_pub := PubAwaitsSub\<rparr>"
  have "bench_step c (bench_new t) ?s1" by (rule bench_step.sub_refused [OF _ assms(1)]) (simp add: bench_new_def)
  moreover have "bench_step c ?s1 ?s2" by (rule bench_step.pub_greeted [OF _ assms(2)]) (simp add: bench_new_def)
  moreover have "bench_step c ?s2 (main_turn c ?s2)" by (rule bench_step.look)
  ultimately have "(bench_step c)\<^sup>*\<^sup>* (bench_new t) (main_turn c ?s2)"
    by (meson converse_rtranclp_into_rtranclp r_into_rtranclp)
  moreover have "stuck (main_turn c ?s2)"
    by (simp add: stuck_def main_turn_def start_clock_def bench_new_def secs_def sub_thread_new_def)
  then have "b_main s' = AwaitPub" if "(bench_step c)\<^sup>*\<^sup>* (main_turn c ?s2) s'" for s'
    using stuck.reach [OF that] by (simp add: stuck_def)
  ultimately show ?thesis by (intro exI [of _ "main_turn c ?s2"]) simp
qed

theorem refused_subscriber_hangs_the_bench_witness:
  "\<exists>s. (bench_step bench_sample)\<^sup>*\<^sup>* (bench_new 0) s \<and> b_sub s = SubReturned (Inl ''timed out'') \<and>
     b_main (s\<lparr>b_clock := b_clock s + secs 3600\<rparr>) = AwaitPub"
proof -
  have "bc_subject bench_sample = ''a''" "bc_sid bench_sample = ''1''" "bc_addr bench_sample = ''h''" by (simp_all add: bench_sample_def)
  then have "greet (subscriber_hello (bc_subject bench_sample) (bc_sid bench_sample)) (bc_addr bench_sample) (Inr ''INFO {}'')
      (replicate 3 (WroteBytes 500)) [(False, GotTimeout ''timed out'')] = Some (Inl ''timed out'')"
    "\<exists>sent. greet publisher_hello (bc_addr bench_sample) (Inr ''INFO {}'') (replicate 2 (WroteBytes 500)) [(False, GotBytes frame_pong)] = Some (Inr sent)"
    using bench_sample_greets(2,3) by simp_all
  then obtain s where s: "(bench_step bench_sample)\<^sup>*\<^sup>* (bench_new 0) s" "b_sub s = SubReturned (Inl ''timed out'')"
    "\<forall>s'. (bench_step bench_sample)\<^sup>*\<^sup>* s s' \<longrightarrow> b_main s' = AwaitPub"
    using refused_subscriber_hangs_the_bench [of bench_sample _ _ _ "''timed out''" _ _ _ _ 0] by blast
  have "(bench_step bench_sample)\<^sup>*\<^sup>* s (s\<lparr>b_clock := b_clock s + secs 3600\<rparr>)" by (rule r_into_rtranclp) (rule bench_step.clock)
  with s show ?thesis by blast
qed

end
