(* ===== verification/Parsebench.thy ===== *)
theory Parsebench
  imports Wire Frames
begin

text \<open>
  The parser benchmark, \<^verbatim>\<open>crates/server/examples/parsebench.rs\<close>: the block of publishes it builds
  (\<^verbatim>\<open>chunk\<close>) and the rounds it drives the parser through (\<^verbatim>\<open>run\<close>). The inner loop of
  \<^verbatim>\<open>run\<close> ends only when the parser leaves nothing behind, so it is a partial function; it is shown to
  end, and to count every frame, on the blocks \<^verbatim>\<open>chunk\<close> builds. The clock and the printed averages are not
  modelled.
\<close>

section \<open>The block\<close>

definition bench_frame :: "nat \<Rightarrow> bytes \<Rightarrow> bytes" where
  "bench_frame sz subject = ''PUB '' @ subject @ '' '' @ show_nat sz @ CRLF @ replicate sz (CHR ''x'') @ CRLF"

lemma bench_frame_grows: "0 < length (bench_frame sz subject)"
  by (simp add: bench_frame_def)

function chunk_loop :: "nat \<Rightarrow> bytes \<Rightarrow> nat \<Rightarrow> bytes \<Rightarrow> nat \<Rightarrow> bytes \<times> nat" where
  "chunk_loop sz subject limit out n =
     (let flen = length subject + sz + 8 in
      if length out + flen + 8 < limit then chunk_loop sz subject limit (out @ bench_frame sz subject) (n + 1)
      else (out, n))"
  by pat_completeness auto
termination
  by (relation "measure (\<lambda>(sz, subject, limit, out, n). limit - length out)")
    (auto simp: bench_frame_def)

declare chunk_loop.simps [simp del]

definition bench_chunk :: "nat \<Rightarrow> bytes \<Rightarrow> nat \<Rightarrow> bytes \<times> nat" where
  "bench_chunk sz subject limit = chunk_loop sz subject limit [] 0"

section \<open>The rounds\<close>

fun is_publish :: "Event \<Rightarrow> bool" where
  "is_publish (Publish s r h n body hp) = True"
| "is_publish _ = False"

text \<open>One round: the error values are the panics of \<^verbatim>\<open>expect\<close> and \<^verbatim>\<open>unreachable!\<close>; no value means that
  the loop goes on for ever.\<close>

partial_function (option) bench_drain ::
  "Limits \<Rightarrow> State \<Rightarrow> bytes \<Rightarrow> 64 word \<Rightarrow> (bytes + 64 word) option" where
  "bench_drain lim st buf msgs =
     (if buf = [] then Some (Inr msgs)
      else case feed_into lim st buf [] of
        (st', buf', events, res) \<Rightarrow>
          (case res of
             Inl e \<Rightarrow> Some (Inl ''parse'')
           | Inr u \<Rightarrow>
               if list_all is_publish events then bench_drain lim st' buf' (msgs + of_nat (length events))
               else Some (Inl ''only publishes'')))"

declare bench_drain.simps [code]

fun bench_run :: "bytes \<Rightarrow> nat \<Rightarrow> Limits \<Rightarrow> 64 word \<Rightarrow> (bytes + 64 word) option" where
  "bench_run wire 0 lim msgs = Some (Inr msgs)"
| "bench_run wire (Suc rounds) lim msgs =
     (case bench_drain lim Line wire msgs of
        Some (Inr msgs') \<Rightarrow> bench_run wire rounds lim msgs'
      | r \<Rightarrow> r)"

text \<open>\<^verbatim>\<open>main\<close> on the variables \<^verbatim>\<open>SIZE\<close> and \<^verbatim>\<open>ROUNDS\<close>: the warm-up, then the rounds it reports.
  Lengths are natural numbers: a \<^verbatim>\<open>SIZE\<close> so close to \<^verbatim>\<open>2^64\<close> that the length of a frame wraps is outside the model.\<close>

definition parsebench_main :: "bytes option \<Rightarrow> bytes option \<Rightarrow> (bytes + 64 word) option" where
  "parsebench_main size_var rounds_var =
     (let sz = (case Option.bind size_var parse_usize of Some n \<Rightarrow> n | None \<Rightarrow> 128);
          rounds = (case Option.bind rounds_var parse_usize of Some n \<Rightarrow> n | None \<Rightarrow> 2000);
          (wire, frames) = bench_chunk sz ''test'' (2 ^ 16);
          lim = default_limits
      in case bench_run wire 32 lim 0 of
           Some (Inr _) \<Rightarrow> bench_run wire rounds lim 0
         | r \<Rightarrow> r)"

section \<open>Lemmas\<close>

lemma bench_frame_pub: "bench_frame sz subject = pub_frame subject None (replicate sz (CHR ''x''))"
  by (simp add: bench_frame_def pub_frame_def CRLF_def)

lemma chunk_loop_frames:
  "out = concat (replicate n (bench_frame sz subject)) \<Longrightarrow>
    fst (chunk_loop sz subject limit out n) = concat (replicate (snd (chunk_loop sz subject limit out n)) (bench_frame sz subject))"
proof (induction sz subject limit out n rule: chunk_loop.induct)
  case (1 sz subject limit out n)
  have "out @ bench_frame sz subject = concat (replicate (n + 1) (bench_frame sz subject))"
    using 1(2) by (simp add: replicate_append_same [symmetric])
  then show ?case using 1 by (subst (1 2) chunk_loop.simps) (simp add: Let_def)
qed

lemma chunk_loop_full:
  "limit \<le> length (fst (chunk_loop sz subject limit out n)) + (length subject + sz + 16)"
proof (induction sz subject limit out n rule: chunk_loop.induct)
  case (1 sz subject limit out n)
  then show ?case by (subst chunk_loop.simps) (simp add: Let_def)
qed

lemma chunk_loop_within:
  "sz < 10 ^ 7 \<Longrightarrow> length out \<le> limit \<Longrightarrow> length (fst (chunk_loop sz subject limit out n)) \<le> limit"
proof (induction sz subject limit out n rule: chunk_loop.induct)
  case (1 sz subject limit out n)
  have "length (show_nat sz) \<le> 7" using 1(2) length_show_nat [of 7 sz] by simp
  then show ?case using 1 by (subst chunk_loop.simps) (simp add: Let_def bench_frame_def CRLF_def)
qed

lemma bench_drain_frames:
  assumes "pub_fits lim subject None (replicate sz (CHR ''x''))"
  shows "bench_drain lim Line (concat (replicate n (bench_frame sz subject))) msgs = Some (Inr (msgs + of_nat n))"
proof -
  let ?p = "CPub subject None (replicate sz (CHR ''x''))"
  let ?es = "concat (map client_events (replicate n ?p))"
  have "concat (replicate n (bench_frame sz subject)) = concat (map client_frame (replicate n ?p))"
    by (simp add: bench_frame_pub)
  moreover have "feed_into lim Line (concat (map client_frame (replicate n ?p))) [] = (Line, [], ?es, Inr ())"
    using feed_client_frames [of lim "replicate n ?p" "[]"] assms by (simp add: list_all_iff)
  moreover have "list_all is_publish ?es \<and> length ?es = n" by (induction n) simp_all
  moreover have "n = 0" if "concat (replicate n (bench_frame sz subject)) = []"
    using that bench_frame_grows [of sz subject] by (cases n) simp_all
  ultimately show ?thesis by (subst bench_drain.simps) (auto simp: bench_drain.simps [of lim Line "[]"])
qed

text \<open>The benchmark's message count is right: the block holds the announced number of frames, is as full as the room
  for one more frame allows without exceeding its size, every round ends, and the rounds count each frame once.\<close>

theorem parsebench_counts:
  assumes "pub_fits lim subject None (replicate sz (CHR ''x''))" "sz < 10 ^ 7"
  shows "case bench_chunk sz subject limit of (wire, frames) \<Rightarrow>
    length wire \<le> limit \<and> limit \<le> length wire + (length subject + sz + 16) \<and>
    bench_run wire rounds lim msgs = Some (Inr (msgs + of_nat (frames * rounds)))"
proof -
  obtain wire frames where c: "bench_chunk sz subject limit = (wire, frames)" by (cases "bench_chunk sz subject limit")
  then have w: "wire = concat (replicate frames (bench_frame sz subject))"
    using chunk_loop_frames [of "[]" 0 sz subject limit] by (simp add: bench_chunk_def)
  have "bench_run wire rounds lim msgs = Some (Inr (msgs + of_nat (frames * rounds)))"
    by (induction rounds arbitrary: msgs) (simp_all add: w bench_drain_frames [OF assms(1)] algebra_simps)
  then show ?thesis
    using c chunk_loop_full [of limit sz subject "[]" 0] chunk_loop_within [OF assms(2), of "[]" limit subject 0]
    by (simp add: bench_chunk_def)
qed

text \<open>The benchmark ends for every \<^verbatim>\<open>SIZE\<close> and \<^verbatim>\<open>ROUNDS\<close>, also for one no frame of which fits the
  block, and reports the frames of all rounds.\<close>

lemma bench_run_empty: "bench_run [] rounds lim msgs = Some (Inr msgs)"
  by (induction rounds) (simp_all add: bench_drain.simps [of lim Line "[]"])

theorem parsebench_main_counts:
  "parsebench_main size_var rounds_var =
     Some (Inr (of_nat (snd (bench_chunk (case Option.bind size_var parse_usize of Some n \<Rightarrow> n | None \<Rightarrow> 128) ''test'' (2 ^ 16)) *
       (case Option.bind rounds_var parse_usize of Some n \<Rightarrow> n | None \<Rightarrow> 2000))))"
proof -
  define sz where "sz = (case Option.bind size_var parse_usize of Some n \<Rightarrow> n | None \<Rightarrow> 128)"
  define rounds where "rounds = (case Option.bind rounds_var parse_usize of Some n \<Rightarrow> n | None \<Rightarrow> 2000)"
  obtain wire frames where c: "bench_chunk sz ''test'' (2 ^ 16) = (wire, frames)" by (rule prod.exhaust)
  have "bench_run wire r default_limits m = Some (Inr (m + of_nat (frames * r)))" for r m
  proof (cases "sz < 2 ^ 16")
    case True
    then have "pub_fits default_limits ''test'' None (replicate sz (CHR ''x''))" "sz < 10 ^ 7"
      using length_show_nat [of 7 sz] by (simp_all add: pub_fits_def plain_def default_limits_def)
    from parsebench_counts [OF this, of "2 ^ 16" r m] c show ?thesis by simp
  next
    case False
    then have "wire = [] \<and> frames = 0" using c unfolding bench_chunk_def by (subst (asm) chunk_loop.simps) (simp add: Let_def)
    then show ?thesis by (simp add: bench_run_empty)
  qed
  then show ?thesis unfolding parsebench_main_def Let_def sz_def [symmetric] rounds_def [symmetric] c by simp
qed

end
