(* ===== verification/Alloc_Stats.thy ===== *)
theory Alloc_Stats
  imports Durations Transition
begin

text \<open>
  The counting allocator (\<^verbatim>\<open>crates/server/src/allocstats.rs\<close>, built with its feature): the counters as 64-bit words
  that wrap, the tags per site, the histogram of sizes, and the lines of a dump. The system's allocator
  is the source of the steps; it is taken to succeed.
\<close>

section \<open>Counters\<close>

datatype Site =
    ReadBuf | Events | FrameChunk | Payload | Subscribe | ControlLine | Connection | Routing | Other

definition all_sites :: "Site list" where
  "all_sites = [ReadBuf, Events, FrameChunk, Payload, Subscribe, ControlLine, Connection, Routing, Other]"

instantiation Site :: enum
begin

definition enum_Site :: "Site list" where "enum_Site = all_sites"
definition enum_all_Site :: "(Site \<Rightarrow> bool) \<Rightarrow> bool" where "enum_all_Site p = list_all p all_sites"
definition enum_ex_Site :: "(Site \<Rightarrow> bool) \<Rightarrow> bool" where "enum_ex_Site p = list_ex p all_sites"

instance
proof
  show u: "(UNIV :: Site set) = set enum_class.enum" by (auto simp: enum_Site_def all_sites_def intro: Site.exhaust)
  show "distinct (enum_class.enum :: Site list)" by (simp add: enum_Site_def all_sites_def)
  show "enum_class.enum_all P = Ball UNIV P" for P :: "Site \<Rightarrow> bool"
    unfolding u by (simp add: enum_all_Site_def enum_Site_def list_all_iff)
  show "enum_class.enum_ex P = Bex UNIV P" for P :: "Site \<Rightarrow> bool"
    unfolding u by (simp add: enum_ex_Site_def enum_Site_def list_ex_iff)
qed

end

definition SITE_COUNT :: nat where "SITE_COUNT = 9"
definition HIST_BUCKETS :: nat where "HIST_BUCKETS = 28"

fun site_index :: "Site \<Rightarrow> nat" where
  "site_index ReadBuf = 0" | "site_index Events = 1" | "site_index FrameChunk = 2" | "site_index Payload = 3"
| "site_index Subscribe = 4" | "site_index ControlLine = 5" | "site_index Connection = 6" | "site_index Routing = 7"
| "site_index Other = 8"

definition NAMES :: "bytes list" where
  "NAMES = [''read_buf'', ''events'', ''frame_chunk'', ''payload'', ''subscribe'', ''control_line'', ''connection'', ''routing'', ''other'']"

record Stats =
  al_allocs :: u64
  al_bytes :: u64
  al_live :: u64
  al_tags :: "u64 list"
  al_hist :: "u64 list"

definition stats_new :: Stats where
  "stats_new = \<lparr>al_allocs = 0, al_bytes = 0, al_live = 0, al_tags = replicate SITE_COUNT 0, al_hist = replicate HIST_BUCKETS 0\<rparr>"

definition bump :: "nat \<Rightarrow> u64 list \<Rightarrow> u64 list" where
  "bump i xs = xs[i := xs ! i + 1]"

definition tag_site :: "Site \<Rightarrow> Stats \<Rightarrow> Stats" where
  "tag_site site s = s\<lparr>al_tags := bump (site_index site) (al_tags s)\<rparr>"

definition tag_count :: "nat \<Rightarrow> Stats \<Rightarrow> u64" where
  "tag_count i s = al_tags s ! i"

definition tag_line :: "Stats \<Rightarrow> bytes" where
  "tag_line s =
     foldl (\<lambda>out (i, name). out @ '' '' @ name @ ''='' @ show_nat (unat (tag_count i s))) ''alloctags''
       (zip [0..<length NAMES] NAMES)"

text \<open>\<^verbatim>\<open>usize::BITS - size.leading_zeros()\<close>.\<close>

definition bit_len :: "nat \<Rightarrow> nat" where
  "bit_len n = (if n = 0 then 0 else log2 n + 1)"

definition bucket :: "nat \<Rightarrow> nat" where
  "bucket sz = min (bit_len sz) (HIST_BUCKETS - 1)"

definition hist :: "nat \<Rightarrow> Stats \<Rightarrow> Stats" where
  "hist sz s = s\<lparr>al_hist := bump (bucket sz) (al_hist s)\<rparr>"

definition hist_line :: "Stats \<Rightarrow> bytes" where
  "hist_line s =
     (let used = filter (\<lambda>(i, n). n \<noteq> 0) (zip [0..<length (al_hist s)] (al_hist s));
          out = foldl (\<lambda>out (i, n). out @ '' 2^'' @ show_nat i @ ''='' @ show_nat (unat n)) ''allochist'' used
      in if used = [] then out @ '' (empty)'' else out)"

section \<open>The allocator\<close>

definition count_alloc :: "nat \<Rightarrow> Stats \<Rightarrow> Stats" where
  "count_alloc sz s =
     (let s = hist sz s in
      s\<lparr>al_allocs := al_allocs s + 1, al_bytes := al_bytes s + of_nat sz, al_live := al_live s + of_nat sz\<rparr>)"

definition stat_alloc :: "nat \<Rightarrow> Stats \<Rightarrow> Stats" where
  "stat_alloc sz s = count_alloc sz s"

definition stat_dealloc :: "nat \<Rightarrow> Stats \<Rightarrow> Stats" where
  "stat_dealloc sz s = s\<lparr>al_live := al_live s - of_nat sz\<rparr>"

definition stat_realloc :: "nat \<Rightarrow> nat \<Rightarrow> Stats \<Rightarrow> Stats" where
  "stat_realloc sz new_size s =
     s\<lparr>al_allocs := al_allocs s + 1, al_bytes := al_bytes s + of_nat new_size,
       al_live := al_live s + of_nat new_size - of_nat sz\<rparr>"

definition stat_alloc_zeroed :: "nat \<Rightarrow> Stats \<Rightarrow> Stats" where
  "stat_alloc_zeroed sz s = count_alloc sz s"

text \<open>The two lines of totals and tags and the line of the histogram; \<open>t\<close> is the elapsed time as text.\<close>

definition dump_lines :: "bytes \<Rightarrow> bytes \<Rightarrow> Stats \<Rightarrow> bytes" where
  "dump_lines stage t s =
     ''allocstats stage='' @ stage @ '' allocs='' @ show_nat (unat (al_allocs s)) @ '' bytes='' @ show_nat (unat (al_bytes s)) @
     '' live='' @ show_nat (unat (al_live s)) @ '' t='' @ t @ [LF] @ tag_line s @ [LF] @ hist_line s @ [LF]"

definition untagged :: "Stats \<Rightarrow> nat" where
  "untagged s =
     (let total = sum_list (map (\<lambda>i. tag_count i s) [0..<SITE_COUNT])
      in nat \<bar>sint (al_allocs s - total)\<bar>)"

section \<open>A run of the allocator\<close>

text \<open>
  The blocks that are live with their sizes, the sizes of all requests that went through \<^verbatim>\<open>alloc\<close> and
  \<^verbatim>\<open>alloc_zeroed\<close>, and those of \<^verbatim>\<open>realloc\<close>, with the counters.
\<close>

record Heap =
  hp_blocks :: "nat list"
  hp_fresh :: "nat list"
  hp_moved :: "nat list"
  hp_stats :: Stats

definition heap_new :: Heap where
  "heap_new = \<lparr>hp_blocks = [], hp_fresh = [], hp_moved = [], hp_stats = stats_new\<rparr>"

inductive heap_step :: "Heap \<Rightarrow> Heap \<Rightarrow> bool" where
  alloc: "heap_step h (h\<lparr>hp_blocks := sz # hp_blocks h, hp_fresh := sz # hp_fresh h, hp_stats := stat_alloc sz (hp_stats h)\<rparr>)"
| alloc_zeroed: "heap_step h (h\<lparr>hp_blocks := sz # hp_blocks h, hp_fresh := sz # hp_fresh h, hp_stats := stat_alloc_zeroed sz (hp_stats h)\<rparr>)"
| dealloc: "sz \<in> set (hp_blocks h) \<Longrightarrow>
    heap_step h (h\<lparr>hp_blocks := remove1 sz (hp_blocks h), hp_stats := stat_dealloc sz (hp_stats h)\<rparr>)"
| realloc: "sz \<in> set (hp_blocks h) \<Longrightarrow>
    heap_step h (h\<lparr>hp_blocks := n # remove1 sz (hp_blocks h), hp_moved := n # hp_moved h, hp_stats := stat_realloc sz n (hp_stats h)\<rparr>)"
| tagged: "heap_step h (h\<lparr>hp_stats := tag_site site (hp_stats h)\<rparr>)"

definition heap_ok :: "Heap \<Rightarrow> bool" where
  "heap_ok h \<longleftrightarrow>
     al_live (hp_stats h) = of_nat (sum_list (hp_blocks h)) \<and>
     al_allocs (hp_stats h) = of_nat (length (hp_fresh h) + length (hp_moved h)) \<and>
     al_bytes (hp_stats h) = of_nat (sum_list (hp_fresh h) + sum_list (hp_moved h)) \<and>
     length (al_hist (hp_stats h)) = HIST_BUCKETS \<and>
     (\<forall>b < HIST_BUCKETS. al_hist (hp_stats h) ! b = of_nat (length (filter (\<lambda>sz. bucket sz = b) (hp_fresh h))))"

text \<open>The array of counters has one slot for each site, so a tag never misses it, and the names are as many.\<close>

lemma sites_fill_the_counters:
  "map site_index enum_class.enum = [0..<SITE_COUNT]" "length NAMES = SITE_COUNT" "site_index site < SITE_COUNT"
proof -
  show m: "map site_index enum_class.enum = [0..<SITE_COUNT]" by code_simp
  show "length NAMES = SITE_COUNT" by code_simp
  have "site_index site \<in> set (map site_index enum_class.enum)" by (auto simp: enum_UNIV)
  then show "site_index site < SITE_COUNT" unfolding m by simp
qed

lemmas stat_defs = stat_alloc_def stat_alloc_zeroed_def stat_dealloc_def stat_realloc_def count_alloc_def hist_def bump_def tag_site_def

lemma bucket_less: "bucket sz < HIST_BUCKETS"
  by (simp add: bucket_def HIST_BUCKETS_def)

lemma sum_list_remove1: "x \<in> set xs \<Longrightarrow> sum_list xs = x + sum_list (remove1 x xs)" for x :: nat
  by (induction xs) auto

lemma heap_step_ok: "heap_step h h' \<Longrightarrow> heap_ok h \<Longrightarrow> heap_ok h'"
proof (induction rule: heap_step.induct)
  case (alloc h sz)
  then show ?case using bucket_less [of sz] by (auto simp: heap_ok_def stat_defs Let_def nth_list_update)
next
  case (alloc_zeroed h sz)
  then show ?case using bucket_less [of sz] by (auto simp: heap_ok_def stat_defs Let_def nth_list_update)
next
  case (dealloc sz h)
  then show ?case using sum_list_remove1 [OF dealloc(1)] by (simp add: heap_ok_def stat_defs)
next
  case (realloc sz h n)
  then show ?case using sum_list_remove1 [OF realloc(1)] by (simp add: heap_ok_def stat_defs)
next
  case (tagged h site)
  then show ?case by (simp add: heap_ok_def stat_defs)
qed

lemma heap_new_ok: "heap_ok heap_new"
  by (simp add: heap_ok_def heap_new_def stats_new_def)

interpretation heap: keeps heap_step heap_ok
  by unfold_locales (rule heap_step_ok)

lemma heap_reach_ok: "heap_step\<^sup>*\<^sup>* heap_new h \<Longrightarrow> heap_ok h"
  using heap.reach heap_new_ok by blast

lemma bucket_bounds:
  assumes "0 < sz" "sz < 2 ^ 26"
  shows "2 ^ (bucket sz - 1) \<le> sz \<and> sz < 2 ^ bucket sz \<and> bucket sz \<le> 26"
proof -
  have b: "2 ^ log2 sz \<le> sz" "sz < 2 * 2 ^ log2 sz" using log2_bounds [OF assms(1)] by auto
  then have "(2::nat) ^ log2 sz < 2 ^ 26" using assms(2) by simp
  then have "log2 sz < 26" by (simp only: power_strict_increasing_iff)
  then have "bucket sz = log2 sz + 1" using assms(1) by (simp add: bucket_def bit_len_def HIST_BUCKETS_def)
  with b \<open>log2 sz < 26\<close> show ?thesis by simp
qed

section \<open>Properties\<close>

text \<open>C40. After any run of allocations, reallocations and frees the counters are exact modulo \<^verbatim>\<open>2^64\<close>: the live bytes are
  those of the blocks not freed yet, the two totals count every request including reallocations, and bucket \<open>b\<close> of the
  histogram counts the fresh requests of sizes from \<open>2 ^ (b - 1)\<close> to below \<open>2 ^ b\<close>, but no reallocation.\<close>

theorem alloc_counters_exact:
  assumes "heap_step\<^sup>*\<^sup>* heap_new h"
  shows "al_live (hp_stats h) = of_nat (sum_list (hp_blocks h)) \<and>
    al_allocs (hp_stats h) = of_nat (length (hp_fresh h) + length (hp_moved h)) \<and>
    al_bytes (hp_stats h) = of_nat (sum_list (hp_fresh h) + sum_list (hp_moved h)) \<and>
    (\<forall>b. 0 < b \<and> b \<le> 26 \<longrightarrow> al_hist (hp_stats h) ! b =
       of_nat (length (filter (\<lambda>sz. 2 ^ (b - 1) \<le> sz \<and> sz < 2 ^ b) (hp_fresh h))))"
proof -
  have ok: "heap_ok h" by (rule heap_reach_ok [OF assms])
  have "bucket sz = b \<longleftrightarrow> 2 ^ (b - 1) \<le> sz \<and> sz < 2 ^ b" if b: "0 < b" "b \<le> 26" for sz b
  proof
    assume "bucket sz = b"
    then have "0 < sz" "sz < 2 ^ 26"
    proof -
      show "0 < sz" using b(1) \<open>bucket sz = b\<close> by (cases sz) (auto simp: bucket_def bit_len_def)
      then have "log2 sz + 1 \<le> 26" using b(2) \<open>bucket sz = b\<close> by (auto simp: bucket_def bit_len_def HIST_BUCKETS_def)
      then have "(2::nat) * 2 ^ log2 sz \<le> 2 ^ 26" using power_increasing [of "log2 sz + 1" 26 "2::nat"] by simp
      then show "sz < 2 ^ 26" using log2_bounds [OF \<open>0 < sz\<close>] by linarith
    qed
    with bucket_bounds \<open>bucket sz = b\<close> show "2 ^ (b - 1) \<le> sz \<and> sz < 2 ^ b" by blast
  next
    assume s: "2 ^ (b - 1) \<le> sz \<and> sz < 2 ^ b"
    have "0 < sz" using s by (metis gr0I not_less zero_less_numeral zero_less_power)
    moreover have "sz < 2 ^ 26" using s b(2) power_increasing [of b 26 "2::nat"] by simp
    ultimately have t: "2 ^ (bucket sz - 1) \<le> sz" "sz < 2 ^ bucket sz" using bucket_bounds by blast+
    have "(2::nat) ^ (b - 1) < 2 ^ bucket sz" "(2::nat) ^ (bucket sz - 1) < 2 ^ b" using s t by linarith+
    then have "b - 1 < bucket sz" "bucket sz - 1 < b" by (simp_all only: power_strict_increasing_iff)
    then show "bucket sz = b" using b(1) by linarith
  qed
  then show ?thesis using ok by (auto simp: heap_ok_def HIST_BUCKETS_def)
qed

theorem alloc_counters_exact_witness:
  "\<exists>h. heap_step\<^sup>*\<^sup>* heap_new h \<and> hp_blocks h = [100] \<and> al_live (hp_stats h) = 100"
proof -
  let ?h1 = "heap_new\<lparr>hp_blocks := [40], hp_fresh := [40], hp_stats := stat_alloc 40 stats_new\<rparr>"
  let ?h2 = "?h1\<lparr>hp_blocks := [100], hp_moved := [100], hp_stats := stat_realloc 40 100 (stat_alloc 40 stats_new)\<rparr>"
  have "heap_step heap_new ?h1" using heap_step.alloc [of heap_new 40] by (simp add: heap_new_def)
  moreover have "heap_step ?h1 ?h2" using heap_step.realloc [of 40 ?h1 100] by (simp add: heap_new_def)
  ultimately have r: "heap_step\<^sup>*\<^sup>* heap_new ?h2" by simp
  with alloc_counters_exact [OF r] show ?thesis by (intro exI [of _ ?h2]) simp
qed

end
