(* ===== verification/Process.thy ===== *)
theory Process
  imports Startup Alloc_Stats Proto_Lines
begin

text \<open>
  The server as a process (\<^verbatim>\<open>main\<close> and \<^verbatim>\<open>run\<close> of \<^verbatim>\<open>crates/server/src/main.rs\<close>, \<^verbatim>\<open>usage\<close> of \<^verbatim>\<open>config.rs\<close>, \<^verbatim>\<open>log\<close> of
  \<^verbatim>\<open>net.rs\<close>, \<^verbatim>\<open>dump\<close> and \<^verbatim>\<open>spawn_dumper\<close> of \<^verbatim>\<open>allocstats.rs\<close>): what it prints, which files it writes and removes, and
  its exit code. It refines \<open>run_server\<close>, which says what the run comes to.
\<close>

section \<open>Texts\<close>

datatype Effect =
    Out bytes
  | Err bytes
  | Wrote bytes bytes
  | Appended bytes bytes
  | Removed bytes

definition usage :: "bytes \<Rightarrow> bytes" where
  "usage program =
     concat (map (\<lambda>l. l @ [LF])
       [[],
        ''Usage: '' @ program @ '' [options]'',
        [],
        ''Server Options:'',
        ''    -a, --addr, --net <host>         Bind to host address (default: 0.0.0.0)'',
        ''    -p, --port <port>                Use port for clients (default: 4222)'',
        ''    -n, --name, --server_name <name> Server name (default: auto)'',
        ''    -c, --config <file>              Configuration file'',
        ''    -t                               Test configuration and exit'',
        ''        --ports_file_dir <dir>       Creates a ports file in the specified directory'',
        ''    -v, --version                    Show version'',
        [],
        ''Logging Options:'',
        ''    -D, --debug                      Enable debugging output'',
        ''    -V, --trace                      Trace the raw protocol''])"

text \<open>The format \<^verbatim>\<open>{:<26}\<close>.\<close>

definition pad26 :: "bytes \<Rightarrow> bytes" where
  "pad26 s = s @ replicate (26 - length s) SP"

definition log_line :: "Server \<Rightarrow> bytes \<Rightarrow> Effect list" where
  "log_line sv msg = (if cfg_debug (sv_cfg sv) then [Err (''['' @ pad26 (sv_server_id sv) @ ''] '' @ msg @ [LF])] else [])"

fun show_addr :: "SocketAddr \<Rightarrow> bytes" where
  "show_addr (V4 a b c d p) = addr_ip (V4 a b c d p) @ '':'' @ show_nat (unat p)"
| "show_addr (V6 ip p) = ''['' @ ip @ '']:'' @ show_nat (unat p)"

section \<open>Dumps of the allocator's counters\<close>

text \<open>
  A build with the feature has the name of the file, if one is set, whether it can be opened, and the counters with the
  elapsed time as text at each stage.
\<close>

record Dumper =
  d_file :: "bytes option"
  d_opens :: bool
  d_every :: "bytes option"
  d_stats :: "bytes \<Rightarrow> Stats"
  d_time :: "bytes \<Rightarrow> bytes"

definition dump :: "Dumper option \<Rightarrow> bytes \<Rightarrow> Effect list" where
  "dump D stage =
     (case D of
        None \<Rightarrow> []
      | Some d \<Rightarrow>
          let line = dump_lines stage (d_time d stage) (d_stats d stage) in
          Err line #
          (case d_file d of
             None \<Rightarrow> []
           | Some path \<Rightarrow> if d_opens d then [Appended path line] else []))"

text \<open>\<^verbatim>\<open>spawn_dumper\<close>: the interval of the thread it starts, if it starts one.\<close>

definition spawn_dumper :: "Dumper option \<Rightarrow> nat option" where
  "spawn_dumper D =
     (case D of
        None \<Rightarrow> None
      | Some d \<Rightarrow>
          if d_file d = None then None
          else Some (case Option.bind (d_every d) parse_usize of Some ms \<Rightarrow> ms | None \<Rightarrow> 100))"

section \<open>The process\<close>

text \<open>The end of \<^verbatim>\<open>run\<close>: the handlers cannot be set up, no signal yet, or a signal.\<close>

datatype Signals = NoHandlers bytes | NoSignal | Stopped

definition remove_ports_file :: "bytes option \<Rightarrow> Effect list" where
  "remove_ports_file path = (case path of Some p \<Rightarrow> [Removed p] | None \<Rightarrow> [])"

text \<open>\<^verbatim>\<open>main\<close> on an error of \<^verbatim>\<open>run\<close>.\<close>

definition fail :: "Effect list \<Rightarrow> bytes \<Rightarrow> Effect list \<times> nat option" where
  "fail effs e = (effs @ [Err (PROGRAM @ '': '' @ e @ [LF])], Some 1)"

definition run_listening ::
    "Host \<Rightarrow> Dumper option \<Rightarrow> Signals \<Rightarrow> Effect list \<Rightarrow> Config \<Rightarrow> Effect list \<times> nat option" where
  "run_listening H D sig effs cfg =
     (let effs = effs @ dump D ''start'' in
      case bind_server H (server_new (h_version H) (h_rng H) cfg) of
        Inl e \<Rightarrow> fail effs e
      | Inr (addr, sv) \<Rightarrow>
          (case write_ports_file H sv addr of
             Inl e \<Rightarrow> fail effs e
           | Inr file \<Rightarrow>
               let effs = effs @ (case file of Some p \<Rightarrow> [Wrote p (ports_body addr)] | None \<Rightarrow> []);
                   effs = effs @ (if cfg_debug (sv_cfg sv) then [Err (PROGRAM @ '': listening on '' @ show_addr addr @ [LF])] else [])
               in case sig of
                    NoHandlers e \<Rightarrow> fail effs e
                  | NoSignal \<Rightarrow> (effs, None)
                  | Stopped \<Rightarrow> (effs @ dump D ''exit'' @ remove_ports_file file, Some 0)))"

definition process_main :: "Host \<Rightarrow> Dumper option \<Rightarrow> Signals \<Rightarrow> bytes list \<Rightarrow> Effect list \<times> nat option" where
  "process_main H D sig argv =
     (case parse_args argv PROGRAM of
        Inl e \<Rightarrow> ([Err (e @ [LF]), Out (usage PROGRAM)], Some 1)
      | Inr args \<Rightarrow>
          if arg_version args then ([Out (PROGRAM @ '': v'' @ h_version H @ [LF])], Some 0)
          else if arg_help args then ([Out (usage PROGRAM)], Some 0)
          else case load_config H args of
            Inl e \<Rightarrow> fail [] e
          | Inr (cfg, warnings) \<Rightarrow>
              let effs = map (\<lambda>w. Err (PROGRAM @ '': '' @ w @ [LF])) warnings;
                  cfg = apply_flags args cfg
              in case validate cfg of
                   Inl e \<Rightarrow> fail effs e
                 | Inr _ \<Rightarrow>
                     if arg_test_config args then (effs @ [Out (''configuration OK'' @ [LF])], Some 0)
                     else run_listening H D sig effs cfg)"

section \<open>Files\<close>

fun touch :: "Effect \<Rightarrow> bytes set \<Rightarrow> bytes set" where
  "touch (Wrote p b) fs = insert p fs"
| "touch (Removed p) fs = fs - {p}"
| "touch _ fs = fs"

text \<open>The ports files there are after some effects; the file of the dumps is another one.\<close>

definition files_left :: "Effect list \<Rightarrow> bytes set \<Rightarrow> bytes set" where
  "files_left effs fs = fold touch effs fs"

lemma files_left_append [simp]: "files_left (xs @ ys) fs = files_left ys (files_left xs fs)"
  by (simp add: files_left_def)

lemma files_left_dump [simp]: "files_left (dump D stage) fs = fs"
  by (simp add: dump_def files_left_def Let_def split: option.split)

lemma files_left_prints [simp]: "files_left [] fs = fs" "files_left (Err b # effs) fs = files_left effs fs"
  "files_left (Out b # effs) fs = files_left effs fs" "files_left (Wrote p b # effs) fs = files_left effs (insert p fs)"
  "files_left (Removed p # effs) fs = files_left effs (fs - {p})" "files_left (map (\<lambda>w. Err (f w)) ws) fs = fs"
  by (simp_all add: files_left_def) (induction ws, simp_all)

definition sig_code :: "Signals \<Rightarrow> nat option" where
  "sig_code sig = (case sig of NoHandlers e \<Rightarrow> Some 1 | NoSignal \<Rightarrow> None | Stopped \<Rightarrow> Some 0)"

text \<open>What a run that came to an outcome must have done: its exit code and the ports files it leaves.\<close>

fun lived_up :: "Signals \<Rightarrow> Outcome \<Rightarrow> bytes set \<Rightarrow> Effect list \<times> nat option \<Rightarrow> bool" where
  "lived_up sig (Listening sv addr file) fs (effs, code) \<longleftrightarrow>
     code = sig_code sig \<and>
     files_left effs fs = (case file of None \<Rightarrow> fs | Some p \<Rightarrow> if sig = Stopped then fs - {p} else insert p fs)"
| "lived_up sig r fs (effs, code) \<longleftrightarrow> code = Some (exit_code r) \<and> files_left effs fs = fs"

lemma fail_lived_up: "files_left effs fs = fs \<Longrightarrow> lived_up sig (Failed e) fs (fail effs e')"
  by (simp add: fail_def)

lemma run_listening_lived_up:
  assumes "files_left effs fs = fs"
  shows "lived_up sig (listen_on H cfg) fs (run_listening H D sig effs cfg)"
proof (cases "bind_server H (server_new (h_version H) (h_rng H) cfg)")
  case (Inl e)
  with assms show ?thesis by (simp add: run_listening_def listen_on_def fail_def)
next
  case (Inr r)
  obtain addr sv where r: "r = (addr, sv)" by (rule prod.exhaust)
  show ?thesis
  proof (cases "write_ports_file H sv addr")
    case (Inl e)
    with Inr r assms show ?thesis by (simp add: run_listening_def listen_on_def fail_def)
  next
    case (Inr fl)
    with \<open>bind_server H (server_new (h_version H) (h_rng H) cfg) = Inr r\<close> r assms show ?thesis
      by (cases fl; cases sig) (simp_all add: run_listening_def listen_on_def fail_def sig_code_def remove_ports_file_def Let_def)
  qed
qed

section \<open>Properties\<close>


text \<open>The usage text lists exactly the flags the command line takes, the two for the text itself apart.\<close>

definition usage_flags :: "bytes \<Rightarrow> bytes list" where
  "usage_flags program =
     filter (starts_with ''-'')
       (map (\<lambda>w. if w \<noteq> [] \<and> last w = CHR '','' then butlast w else w) (split_on (\<lambda>b. b = SP \<or> b = LF) (usage program)))"

theorem usage_lists_the_flags:
  "(\<exists>r. parse_flag PROGRAM f (Some ''1'') [] default_args = Inr r) \<longleftrightarrow> f \<in> set (usage_flags PROGRAM) \<union> {''-h'', ''--help''}"
proof -
  let ?fs = "[''-a'', ''--addr'', ''--net'', ''-p'', ''--port'', ''-n'', ''--name'', ''--server_name'', ''-c'', ''--config'',
      ''-t'', ''--ports_file_dir'', ''-v'', ''--version'', ''-D'', ''--debug'', ''-V'', ''--trace'']"
  have u: "usage_flags PROGRAM = ?fs" by code_simp
  have "list_all (\<lambda>f. isl (parse_flag PROGRAM f (Some ''1'') [] default_args) = False) (?fs @ [''-h'', ''--help''])" by code_simp
  then have yes: "\<not> isl (parse_flag PROGRAM f (Some ''1'') [] default_args)" if "f \<in> set (?fs @ [''-h'', ''--help''])"
    using that unfolding list_all_iff by blast
  have no: "isl (parse_flag PROGRAM f (Some ''1'') [] default_args)" if "f \<notin> set (?fs @ [''-h'', ''--help''])"
    using that unfolding parse_flag_def Let_def by auto
  have "set (usage_flags PROGRAM) \<union> {''-h'', ''--help''} = set (?fs @ [''-h'', ''--help''])" unfolding u by (simp only: set_append list.set)
  moreover have "(\<exists>r. parse_flag PROGRAM f (Some ''1'') [] default_args = Inr r) \<longleftrightarrow> \<not> isl (parse_flag PROGRAM f (Some ''1'') [] default_args)"
    by (cases "parse_flag PROGRAM f (Some ''1'') [] default_args") simp_all
  ultimately show ?thesis using yes no by argo
qed

end
