(* ===== verification/Bench_Report.thy ===== *)
theory Bench_Report
  imports Durations "HOL-Library.Word"
begin

text \<open>
  The latency report of the benches (\<^verbatim>\<open>report_latency\<close> of \<^verbatim>\<open>crates/bench/src/lib.rs\<close>): which sample stands for a
  percentile. The index is computed in \<^verbatim>\<open>f64\<close>, which is modelled on natural numbers: a double between 0 and 1 as a
  multiple of \<^verbatim>\<open>2^-53\<close>, and rounding as rounding to 53 significant bits. The conversion to microseconds for printing is
  left out.
\<close>

section \<open>The index of a percentile\<close>

text \<open>The nearest double of a natural number.\<close>

definition fl53 :: "nat \<Rightarrow> nat" where
  "fl53 n = (let e = log2 n in if e \<le> 52 then n else round_half_even n (2 ^ (e - 52)) * 2 ^ (e - 52))"

text \<open>The doubles written 0.50, 0.99 and 0.999, as multiples of \<^verbatim>\<open>2^-53\<close>.\<close>

definition P50 :: nat where "P50 = 4503599627370496"
definition P99 :: nat where "P99 = 8917127262193582"
definition P999 :: nat where "P999 = 8998192055486251"

text \<open>\<^verbatim>\<open>(n as f64 * p).round() as usize\<close>: halves are rounded up.\<close>

definition pct_index :: "nat \<Rightarrow> nat \<Rightarrow> nat" where
  "pct_index n p = (fl53 (fl53 n * p) + 2 ^ 52) div 2 ^ 53"

text \<open>Indexing past the end panics.\<close>

definition pct :: "u64 list \<Rightarrow> nat \<Rightarrow> u64 option" where
  "pct samples p = (let idx = pct_index (length samples - 1) p in if idx < length samples then Some (samples ! idx) else None)"

record Latency =
  l_samples :: nat
  l_p50 :: u64
  l_p99 :: u64
  l_p999 :: u64
  l_max :: u64

definition report_latency :: "u64 list \<Rightarrow> bytes + Latency" where
  "report_latency samples_ns =
     (let samples = sort samples_ns in
      if samples = [] then Inl ''no samples to report''
      else case (pct samples P50, pct samples P99, pct samples P999) of
        (Some a, Some b, Some c) \<Rightarrow>
          Inr \<lparr>l_samples = length samples, l_p50 = a, l_p99 = b, l_p999 = c, l_max = last samples\<rparr>
      | _ \<Rightarrow> Inl ''index out of bounds'')"

section \<open>Rounding\<close>

lemma round_half_even_bounds: "p div q \<le> round_half_even p q" "round_half_even p q \<le> p div q + 1"
  by (auto simp: round_half_even_def Let_def)

lemma round_half_even_mono:
  assumes "p \<le> p'"
  shows "round_half_even p q \<le> round_half_even p' q"
proof (cases "p div q = p' div q")
  case True
  then have "p mod q \<le> p' mod q" using assms by (metis add_le_cancel_left div_mult_mod_eq)
  with True show ?thesis by (auto simp: round_half_even_def Let_def)
next
  case False
  then have "p div q + 1 \<le> p' div q" using div_le_mono [OF assms, of q] by simp
  then show ?thesis using round_half_even_bounds [of p q] round_half_even_bounds [of p' q] by linarith
qed

lemma round_half_even_mult: "q > 0 \<Longrightarrow> round_half_even (k * q) q = k"
  by (simp add: round_half_even_def)

lemma log2_unique: "2 ^ e \<le> n \<Longrightarrow> n < 2 * 2 ^ e \<Longrightarrow> log2 n = e"
proof (rule ccontr)
  assume a: "2 ^ e \<le> n" "n < 2 * 2 ^ e" "log2 n \<noteq> e"
  then have b: "2 ^ log2 n \<le> n" "n < 2 ^ Suc (log2 n)" using log2_bounds [of n] by (cases "n = 0", simp_all)
  consider "Suc e \<le> log2 n" | "Suc (log2 n) \<le> e" using a(3) by linarith
  then show False
  proof cases
    case 1
    then have "(2::nat) ^ Suc e \<le> 2 ^ log2 n" by (rule power_increasing) simp
    then show False using a(2) b(1) by simp
  next
    case 2
    then have "(2::nat) ^ Suc (log2 n) \<le> 2 ^ e" by (rule power_increasing) simp
    then show False using a(1) b(2) by simp
  qed
qed

lemma log2_mono: "m \<le> n \<Longrightarrow> log2 m \<le> log2 n"
proof (rule ccontr)
  assume a: "m \<le> n" "\<not> log2 m \<le> log2 n"
  then have "m \<noteq> 0" by (cases m) (simp_all add: log2.simps [of 0])
  then have b: "2 ^ log2 m \<le> m" "n < 2 ^ Suc (log2 n)" using log2_bounds [of m] log2_bounds [of n] a(1) by simp_all
  have "(2::nat) ^ Suc (log2 n) \<le> 2 ^ log2 m" using a(2) by (intro power_increasing) simp_all
  then show False using a(1) b by simp
qed

text \<open>Doubles are kept, and rounding keeps the order.\<close>

lemma fl53_exact: "n < 2 ^ 53 \<Longrightarrow> fl53 (n * 2 ^ k) = n * 2 ^ k"
proof (cases "n = 0")
  case False
  assume n: "n < 2 ^ 53"
  have b: "2 ^ log2 n \<le> n" "n < 2 * 2 ^ log2 n" using log2_bounds [of n] False by simp_all
  then have "(2::nat) ^ log2 n < 2 ^ 53" using n by linarith
  then have l: "log2 n \<le> 52" by (simp only: power_strict_increasing_iff)
  have e: "log2 (n * 2 ^ k) = log2 n + k" using b by (intro log2_unique) (simp_all add: power_add)
  show ?thesis
  proof (cases "log2 n + k \<le> 52")
    case False
    define j where "j = log2 n + k - 52"
    have "j \<le> k" using l False by (simp add: j_def)
    then have x: "n * 2 ^ k = (n * 2 ^ (k - j)) * 2 ^ j" by (simp add: mult.assoc power_add [symmetric])
    have "round_half_even (n * 2 ^ k) (2 ^ j) * 2 ^ j = n * 2 ^ k" unfolding x by (subst round_half_even_mult) simp_all
    then show ?thesis using False by (simp add: fl53_def e j_def)
  qed (simp add: fl53_def e)
qed (simp add: fl53_def log2.simps [of 0])

lemma fl53_bounds: "n > 0 \<Longrightarrow> 2 ^ log2 n \<le> fl53 n \<and> fl53 n \<le> 2 * 2 ^ log2 n"
proof -
  assume "n > 0"
  then have b: "2 ^ log2 n \<le> n" "n < 2 * 2 ^ log2 n" using log2_bounds [of n] by simp_all
  show ?thesis
  proof (cases "log2 n \<le> 52")
    case False
    define j where "j = log2 n - 52"
    have e: "2 ^ log2 n = (2::nat) ^ 52 * 2 ^ j" unfolding j_def power_add [symmetric] using False by simp
    have "2 ^ 52 \<le> n div 2 ^ j" using b(1) unfolding e by (simp add: less_eq_div_iff_mult_less_eq)
    moreover have "n div 2 ^ j < 2 * 2 ^ 52" using b(2) unfolding e by (simp add: div_less_iff_less_mult)
    ultimately have "2 ^ 52 \<le> round_half_even n (2 ^ j)" "round_half_even n (2 ^ j) \<le> 2 * 2 ^ 52"
      using round_half_even_bounds [of n "2 ^ j"] by linarith+
    then have "2 ^ 52 * 2 ^ j \<le> round_half_even n (2 ^ j) * 2 ^ j" "round_half_even n (2 ^ j) * 2 ^ j \<le> (2 * 2 ^ 52) * 2 ^ j"
      using mult_le_mono1 by blast+
    moreover have "fl53 n = round_half_even n (2 ^ j) * 2 ^ j" using False by (simp add: fl53_def j_def Let_def)
    ultimately show ?thesis unfolding e by simp
  qed (use b in \<open>simp add: fl53_def\<close>)
qed

lemma fl53_mono:
  assumes "m \<le> n"
  shows "fl53 m \<le> fl53 n"
proof -
  consider "m = 0" | "m > 0" "log2 m = log2 n" | "m > 0" "log2 m < log2 n" using log2_mono [OF assms] by linarith
  then show ?thesis
  proof cases
    case 1
    then show ?thesis by (simp add: fl53_def log2.simps [of 0])
  next
    case 2
    then show ?thesis using assms round_half_even_mono [OF assms] by (simp add: fl53_def Let_def)
  next
    case 3
    have "fl53 m \<le> 2 ^ (log2 m + 1)" using fl53_bounds [OF 3(1)] by simp
    also have "\<dots> \<le> 2 ^ log2 n" using 3(2) by (intro power_increasing) simp_all
    also have "\<dots> \<le> fl53 n" using fl53_bounds [of n] 3(1) assms by simp
    finally show ?thesis .
  qed
qed

lemma pct_index_mono: "p \<le> q \<Longrightarrow> pct_index n p \<le> pct_index n q"
  unfolding pct_index_def by (intro div_le_mono add_le_mono1 fl53_mono mult_le_mono2)

lemma pct_index_le:
  assumes "n < 2 ^ 53" "p \<le> 2 ^ 53"
  shows "pct_index n p \<le> n"
proof -
  have "fl53 n = n" using fl53_exact [OF assms(1), of 0] by simp
  then have "fl53 (fl53 n * p) \<le> n * 2 ^ 53"
    using fl53_mono [of "n * p" "n * 2 ^ 53"] fl53_exact [OF assms(1), of 53] assms(2) by simp
  then have "pct_index n p \<le> (n * 2 ^ 53 + 2 ^ 52) div 2 ^ 53" unfolding pct_index_def by (intro div_le_mono add_le_mono1)
  also have "\<dots> = n" by simp
  finally show ?thesis .
qed

section \<open>Properties\<close>

text \<open>The report of any nonempty list of samples (fewer than \<^verbatim>\<open>2^53\<close>) is made without an index out of bounds: it names
  samples, in ascending order, and the last one is the largest.\<close>

theorem percentiles_in_order:
  assumes "samples \<noteq> []" "length samples < 2 ^ 53"
  shows "\<exists>l. report_latency samples = Inr l \<and> l_samples l = length samples \<and>
    {l_p50 l, l_p99 l, l_p999 l} \<subseteq> set samples \<and>
    l_p50 l \<le> l_p99 l \<and> l_p99 l \<le> l_p999 l \<and> l_p999 l \<le> l_max l \<and> l_max l = Max (set samples)"
proof -
  define xs where "xs = sort samples"
  define n where "n = length xs - 1"
  have "length xs = length samples" "sorted xs" "set xs = set samples" by (simp_all add: xs_def)
  moreover from this(1) assms(1) have "xs \<noteq> []" by auto
  ultimately have xs: "sorted xs" "xs \<noteq> []" "set xs = set samples" "length xs = length samples" by blast+
  have n: "n < 2 ^ 53" "n < length xs" using assms xs(2,4) by (simp_all add: n_def)
  have ps: "P50 \<le> P99" "P99 \<le> P999" "P999 \<le> 2 ^ 53" by (simp_all add: P50_def P99_def P999_def)
  have i: "pct_index n P50 \<le> pct_index n P99" "pct_index n P99 \<le> pct_index n P999" "pct_index n P999 \<le> n"
    using pct_index_mono [OF ps(1)] pct_index_mono [OF ps(2)] pct_index_le [OF n(1) ps(3)] by simp_all
  then have r: "pct_index n P50 < length xs" "pct_index n P99 < length xs" "pct_index n P999 < length xs" using n(2) by linarith+
  have l: "last xs = xs ! n" using xs(2) by (simp add: last_conv_nth n_def)
  have "xs ! n = Max (set xs)"
    using xs(1) n by (intro Max_eqI [symmetric]) (auto simp: in_set_conv_nth n_def intro!: sorted_nth_mono)
  moreover have "report_latency samples = Inr \<lparr>l_samples = length xs, l_p50 = xs ! pct_index n P50, l_p99 = xs ! pct_index n P99,
      l_p999 = xs ! pct_index n P999, l_max = xs ! n\<rparr>"
    unfolding report_latency_def xs_def [symmetric] Let_def pct_def n_def [symmetric] using r xs(2) l by simp
  moreover have "{xs ! pct_index n P50, xs ! pct_index n P99, xs ! pct_index n P999} \<subseteq> set xs" using r by simp
  moreover have "xs ! pct_index n P50 \<le> xs ! pct_index n P99" "xs ! pct_index n P99 \<le> xs ! pct_index n P999" "xs ! pct_index n P999 \<le> xs ! n"
    using sorted_nth_mono [OF xs(1)] i r n(2) by simp_all
  ultimately show ?thesis using xs(3,4) by simp
qed

theorem percentiles_in_order_witness:
  "\<exists>l. report_latency [3000, 1000, 4000, 2000] = Inr l \<and> l_max l = 4000 \<and> l_p50 l \<le> l_p99 l"
proof -
  have "Max (set [3000, 1000, 4000, 2000 :: u64]) = 4000" by code_simp
  with percentiles_in_order [of "[3000, 1000, 4000, 2000]"] show ?thesis by auto
qed

end
