(* ===== verification/Subject_Hash.thy ===== *)
theory Subject_Hash
  imports Nats_Prelude
begin

text \<open>
  The hasher of the subject map (\<^verbatim>\<open>SubjectHasher\<close> of \<^verbatim>\<open>crates/server/src/routing.rs\<close>) on 64-bit words. The
  registry's maps do not depend on it; what matters is that a write keeps short subjects apart.
\<close>

unbundle bit_operations_syntax

section \<open>The hasher\<close>

definition mix :: "u64 \<Rightarrow> u64 \<Rightarrow> u64" where
  "mix h w = (word_rotl 11 h XOR w) * 0x517cc1b727220a95"

text \<open>\<^verbatim>\<open>u64::from_le_bytes\<close> of up to eight bytes; missing ones are zero.\<close>

fun le_nat :: "bytes \<Rightarrow> nat" where
  "le_nat [] = 0"
| "le_nat (b # bs) = of_char b + 256 * le_nat bs"

definition from_le_bytes :: "bytes \<Rightarrow> u64" where
  "from_le_bytes bs = of_nat (le_nat bs)"

text \<open>The loop over whole words; \<open>n\<close> is the length of the whole key.\<close>

fun hash_words :: "nat \<Rightarrow> bytes \<Rightarrow> u64 \<Rightarrow> u64" where
  "hash_words n b h =
     (if length b \<ge> 8 then hash_words n (drop 8 b) (mix h (from_le_bytes (take 8 b)))
      else if b \<noteq> [] then mix h (from_le_bytes b XOR push_bit 56 (of_nat n))
      else h)"

declare hash_words.simps [simp del]

definition hash_write :: "bytes \<Rightarrow> u64 \<Rightarrow> u64" where
  "hash_write bs h = hash_words (length bs) bs h"

definition hash_finish :: "u64 \<Rightarrow> u64" where
  "hash_finish h =
     (let z = h;
          z = (z XOR drop_bit 30 z) * 0xbf58476d1ce4e5b9
      in (z XOR drop_bit 27 z) * 0x94d049bb133111eb XOR drop_bit 31 z)"

section \<open>Each step can be undone\<close>

lemma unat_of_nat_u64: "n < 2 ^ 64 \<Longrightarrow> unat (of_nat n :: u64) = n"
  by (simp add: unsigned_of_nat take_bit_nat_eq_self)

lemma times_odd_inj:
  fixes c d x y :: u64
  assumes "c * d = 1" "x * c = y * c"
  shows "x = y"
proof -
  have "x * c * d = y * c * d" using assms(2) by simp
  then show ?thesis unfolding mult.assoc assms(1) by simp
qed

lemma of_char_less: "(of_char b :: nat) < 256"
  using of_char_mod_256 [of b, where 'a = nat] by (metis mod_less_divisor zero_less_numeral)

lemma mix_inj: "mix h v = mix h w \<Longrightarrow> v = w"
proof -
  assume "mix h v = mix h w"
  moreover have "(0x517cc1b727220a95 :: u64) * 0x2040003d780970bd = 1" by simp
  ultimately have "word_rotl 11 h XOR v = word_rotl 11 h XOR w" unfolding mix_def by (rule times_odd_inj [rotated])
  then have "word_rotl 11 h XOR (word_rotl 11 h XOR v) = word_rotl 11 h XOR (word_rotl 11 h XOR w)" by simp
  then show "v = w" by (simp add: xor.assoc [symmetric])
qed

lemma le_nat_less: "le_nat bs < 256 ^ length bs"
proof (induction bs)
  case (Cons b bs)
  have "of_char b + 256 * le_nat bs < 256 + 256 * le_nat bs" using of_char_less [of b] by simp
  also have "\<dots> = 256 * (1 + le_nat bs)" by simp
  also have "\<dots> \<le> 256 * 256 ^ length bs" using Cons by (intro mult_le_mono2) simp
  finally show ?case by simp
qed simp

lemma le_nat_inj: "length s = length t \<Longrightarrow> le_nat s = le_nat t \<Longrightarrow> s = t"
proof (induction s t rule: list_induct2)
  case (Cons b s c t)
  have "le_nat (b # s) mod 256 = of_char b" "le_nat (c # t) mod 256 = of_char c"
    "le_nat (b # s) div 256 = le_nat s" "le_nat (c # t) div 256 = le_nat t"
    using of_char_less [of b] of_char_less [of c] by simp_all
  with Cons.prems have "(of_char b :: nat) = of_char c" "le_nat s = le_nat t" by metis+
  then show ?case using Cons.IH by simp
qed simp

text \<open>The last word of a key with fewer than eight bytes left: the bytes below, the length above.\<close>

lemma tail_word:
  assumes "length s \<le> 7" "n < 256"
  shows "le_nat s < 2 ^ 56" "from_le_bytes s XOR push_bit 56 (of_nat n) = of_nat (le_nat s + n * 2 ^ 56)"
proof -
  have "(256::nat) ^ length s \<le> 256 ^ 7" using assms(1) by (intro power_increasing) simp_all
  then show s: "le_nat s < 2 ^ 56" using le_nat_less [of s] by simp
  then have t: "take_bit 56 (from_le_bytes s) = from_le_bytes s"
    unfolding from_le_bytes_def by (simp add: take_bit_of_nat take_bit_nat_eq_self)
  have "take_bit 56 (from_le_bytes s) AND push_bit 56 (of_nat n) = 0" by (rule bit_eqI) (simp add: bit_simps)
  then have "from_le_bytes s XOR push_bit 56 (of_nat n) = from_le_bytes s + push_bit 56 (of_nat n)"
    unfolding t by (rule disjunctive_add_eq_xor [symmetric])
  then show "from_le_bytes s XOR push_bit 56 (of_nat n) = of_nat (le_nat s + n * 2 ^ 56)"
    by (simp add: from_le_bytes_def push_bit_eq_mult)
qed

lemma tail_word_inj:
  assumes "length s \<le> 7" "length t \<le> 7"
    "from_le_bytes s XOR push_bit 56 (of_nat (length s)) = from_le_bytes t XOR push_bit 56 (of_nat (length t))"
  shows "s = t"
proof -
  define x where "x = le_nat s + length s * 2 ^ 56"
  define y where "y = le_nat t + length t * 2 ^ 56"
  have l: "length s < 256" "length t < 256" using assms(1,2) by simp_all
  note st = tail_word(1) [OF assms(1) l(1)] tail_word(1) [OF assms(2) l(2)]
  have "(of_nat x :: u64) = of_nat y"
    using assms(3) unfolding tail_word(2) [OF assms(1) l(1)] tail_word(2) [OF assms(2) l(2)] x_def y_def .
  moreover have "x < 2 ^ 64" "y < 2 ^ 64" using st assms(1,2) by (simp_all add: x_def y_def)
  ultimately have xy: "x = y" by (metis unat_of_nat_u64)
  have "x mod 2 ^ 56 = le_nat s" "y mod 2 ^ 56 = le_nat t" "x div 2 ^ 56 = length s" "y div 2 ^ 56 = length t"
    using st by (simp_all add: x_def y_def)
  with xy have "length s = length t" "le_nat s = le_nat t" by metis+
  then show ?thesis by (rule le_nat_inj)
qed

section \<open>Properties\<close>

text \<open>A write keeps subjects of up to seven bytes apart: from the same state two different ones lead to different states,
  also when one is the other with zero bytes appended, because the length goes into the word.\<close>

theorem short_subjects_stay_apart:
  assumes "s \<noteq> t" "s \<noteq> []" "t \<noteq> []" "length s \<le> 7" "length t \<le> 7"
  shows "hash_write s h \<noteq> hash_write t h"
proof
  assume "hash_write s h = hash_write t h"
  then have "mix h (from_le_bytes s XOR push_bit 56 (of_nat (length s))) = mix h (from_le_bytes t XOR push_bit 56 (of_nat (length t)))"
    using assms(2-5) by (simp add: hash_write_def hash_words.simps [of _ s] hash_words.simps [of _ t])
  from mix_inj [OF this] have "s = t" by (rule tail_word_inj [OF assms(4,5)])
  with assms(1) show False by simp
qed

theorem short_subjects_stay_apart_witness: "hash_write ''foo'' 7 \<noteq> hash_write (''foo'' @ [CHR 0x00]) 7"
  by (rule short_subjects_stay_apart) simp_all

end
