(* ===== verification/Spec2Isabelle.thy ===== *)
theory Spec2Isabelle
  imports Wire_Client Subjects Node Ordering Launch Flood_Threads Parsebench Process Bench_Report Subject_Hash
begin

text \<open>
  Verification of the message server of this repository: a broker for the NATS client protocol
  (\<^verbatim>\<open>src/crates/server\<close>), the helpers of its integration suite (\<^verbatim>\<open>src/crates/core-it\<close>,
  \<^verbatim>\<open>src/crates/harness\<close>) and its benches (\<^verbatim>\<open>src/crates/bench\<close>, \<^verbatim>\<open>src/crates/server/examples\<close>).

  \<^bold>\<open>The program.\<close> A process reads its command line and configuration file, binds a listener and accepts connections. Each
  connection has two tasks. The reader parses the client's bytes into operations and runs them on the objects all
  connections share: the subscription registry and the other connections' outbound queues. The writer takes frames from
  its connection's queue and writes them to the socket. A publish is routed to the matching subscriptions, one member per
  queue group; a publisher whose subscriber falls behind waits for room; a subscriber that falls too far behind is
  closed.

  \<^bold>\<open>How code is represented.\<close> A byte string is a list of characters; a \<^verbatim>\<open>u64\<close> or \<^verbatim>\<open>usize\<close> counter that can wrap is a word,
  positions inside one buffer are natural numbers; a \<^verbatim>\<open>Result\<close> is a sum with the error on the left; a \<^verbatim>\<open>&mut\<close>
  argument is returned updated; a \<^verbatim>\<open>HashMap\<close> is an association list with distinct keys. Shared objects live in a
  \<open>World\<close> under their addresses. Tasks are step relations, and what the operating system answers (bytes read, bytes taken,
  errors, expired timers) are inputs of the steps or lists of events. The crates \<^verbatim>\<open>bytes\<close>, \<^verbatim>\<open>tokio::sync\<close> and
  \<^verbatim>\<open>serde_json\<close> are a record of functions \<open>E\<close> with the laws \<open>deps_ok E\<close>; \<open>list_deps\<close> is an instance of them.

  \<^bold>\<open>Theories.\<close>
  \<^item> \<^verbatim>\<open>Nats_Prelude\<close>: bytes, the pieces of the standard library several parts use, decimal numbers. \<^verbatim>\<open>Transition\<close>: the
    contracts of step relations and of readers of frames, as locales. \<^verbatim>\<open>Deps\<close>: the third-party crates.
  \<^item> \<^verbatim>\<open>Subjects\<close> (\<^verbatim>\<open>subjects.rs\<close>): validation and wildcard matching, each with its declarative meaning.
  \<^item> \<^verbatim>\<open>Proto\<close>, \<^verbatim>\<open>Proto_Lines\<close>, \<^verbatim>\<open>Proto_Stream\<close> (\<^verbatim>\<open>proto.rs\<close>): \<open>parse_line\<close> and \<open>feed_into\<close>; the meaning of every verb
    line; the invariant of the state machine, its bounds, its errors, and that read boundaries do not show.
  \<^item> \<^verbatim>\<open>Frames\<close> (\<^verbatim>\<open>arena.rs\<close> and the frame builders of \<^verbatim>\<open>client.rs\<close> and \<^verbatim>\<open>routing.rs\<close>): what the server sends, and that it
    decodes. \<^verbatim>\<open>Nuid\<close> (\<^verbatim>\<open>nuid.rs\<close>): random numbers and identifiers. \<^verbatim>\<open>Options\<close> (\<^verbatim>\<open>client.rs\<close>): \<^verbatim>\<open>CONNECT\<close>.
  \<^item> \<^verbatim>\<open>Outbox\<close> (\<^verbatim>\<open>Outbox\<close> of \<^verbatim>\<open>client.rs\<close>): the byte-accounted queue, shown to be a bounded queue (locale
    \<open>bounded_queue\<close>), and its verdict on every branch.
  \<^item> \<^verbatim>\<open>Registry\<close>, \<^verbatim>\<open>Registry_Laws\<close>, \<^verbatim>\<open>Interest_Cache\<close>, \<^verbatim>\<open>Queue_Groups\<close>, \<^verbatim>\<open>Subject_Hash\<close> (\<^verbatim>\<open>routing.rs\<close>): subscriptions,
    resolution, the generation counter that validates caches (locale \<open>versioned\<close>), the choice per queue group, and the
    hasher of the subject map.
  \<^item> \<^verbatim>\<open>Config\<close>, \<^verbatim>\<open>Durations\<close>, \<^verbatim>\<open>Config_File\<close> (\<^verbatim>\<open>config.rs\<close>): options, command line, the file and its value parsers.
  \<^item> \<^verbatim>\<open>Broker\<close>, \<^verbatim>\<open>Delivery\<close>, \<^verbatim>\<open>World_Inv\<close> (\<^verbatim>\<open>Conn\<close>, \<^verbatim>\<open>handle\<close> of \<^verbatim>\<open>client.rs\<close>, \<^verbatim>\<open>route\<close> of \<^verbatim>\<open>routing.rs\<close>, \<^verbatim>\<open>lib.rs\<close>): what each
    operation does to the world, to whom a message goes, and the invariant of the world.
  \<^item> \<^verbatim>\<open>Client\<close> (\<^verbatim>\<open>read_loop\<close>), \<^verbatim>\<open>Writer\<close> (\<^verbatim>\<open>write_loop\<close>), \<^verbatim>\<open>Stall\<close> (\<^verbatim>\<open>wait_for_space\<close>), \<^verbatim>\<open>System\<close> (\<^verbatim>\<open>spawn\<close> and the interleaving
    of all tasks): \<open>reader_step\<close>, \<open>writer_step\<close>, \<open>stall_step\<close>, \<open>sys_step\<close> with their invariants and liveness.
    \<^verbatim>\<open>Ordering\<close>: what a batch of publishes leaves in another connection's queue.
  \<^item> \<^verbatim>\<open>Info\<close> (\<^verbatim>\<open>info.rs\<close>), \<^verbatim>\<open>Listener\<close> (\<^verbatim>\<open>lib.rs\<close>, \<^verbatim>\<open>serve\<close> of \<^verbatim>\<open>net.rs\<close>), \<^verbatim>\<open>Node\<close> (\<^verbatim>\<open>accept_loop\<close>), \<^verbatim>\<open>Startup\<close> (\<^verbatim>\<open>main.rs\<close>): the
    greeting, binding, the connection limit, and the way from the command line to the ports file. The accept loop refines
    \<open>sys_step\<close> (locale \<open>simulates_keeping\<close>).
  \<^item> \<^verbatim>\<open>Alloc_Stats\<close> (\<^verbatim>\<open>allocstats.rs\<close>): the counters of the instrumented allocator. \<^verbatim>\<open>Process\<close> (\<^verbatim>\<open>main.rs\<close>, \<^verbatim>\<open>usage\<close> of
    \<^verbatim>\<open>config.rs\<close>, \<^verbatim>\<open>log\<close> of \<^verbatim>\<open>net.rs\<close>, \<^verbatim>\<open>dump\<close> of \<^verbatim>\<open>allocstats.rs\<close>): what the process prints, writes and removes, and its
    exit code, as a refinement of \<open>run_server\<close>.
  \<^item> \<^verbatim>\<open>Wire\<close>, \<^verbatim>\<open>Wire_Client\<close> (\<^verbatim>\<open>core-it/src/wire.rs\<close>), \<^verbatim>\<open>Harness\<close>, \<^verbatim>\<open>Launch\<close> (\<^verbatim>\<open>harness/src/lib.rs\<close>): the client side of the
    suite; its encoders are the inverse of the parser (locale \<open>frame_reader\<close>), its barrier and body reader work on what the
    server sends, and the harness finds the server it starts and
    leaves no process behind.
  \<^item> \<^verbatim>\<open>Flood\<close>, \<^verbatim>\<open>Flood_Threads\<close> (\<^verbatim>\<open>floodpubsub.rs\<close>), \<^verbatim>\<open>Floodpub\<close> (\<^verbatim>\<open>floodpub.rs\<close>), \<^verbatim>\<open>Bench_Report\<close> (\<^verbatim>\<open>bench/src/lib.rs\<close>),
    \<^verbatim>\<open>Parsebench\<close> (\<^verbatim>\<open>parsebench.rs\<close>): what the benches count is what was sent; the three threads of the delivery bench as the
    step relation \<open>bench_step\<close>; which sample stands for a percentile.

  This theory composes them: \<open>publish_end_to_end\<close> follows a batch of publishes from a client's bytes through parser,
  handler and routing, in order, into a subscriber's queue and to the count of a client that reads it;
  \<open>suite_meets_the_server\<close> follows a client of the suite from the greeting to its barrier and back into the parser.

  \<^bold>\<open>Fuel and partiality.\<close> The loops of the server are total functions with a termination proof. Partial functions occur in two
  places only, \<open>scan_frames\<close> and \<open>bench_drain\<close>, whose loops could spin in the code; the properties state that they
  return. \<open>run_batch\<close> has a step count for evaluation only. \<open>read_members\<close>, the reader of the greeting's object used in
  statements, gets the length of its input as fuel, more than it has members. Lists of socket events are as long as the
  run they describe.

  \<^bold>\<open>Limits of what is shown.\<close> Read boundaries are invisible as long as no body is spread over three reads, and the
  byte pipe is first-in first-out as long as a lone buffer is written whole: outside of that the code
  loses or reorders bytes (\<open>body_reassembly\<close>, \<open>short_write_loses_bytes\<close>, \<open>cancelled_write_loses_the_frame\<close>).
  One delivery per queue group needs that the random start of the probe does not wrap (\<open>probe_can_miss_a_member\<close>). A
  cached resolution is right as long as fewer than \<^verbatim>\<open>2^64\<close> changes happen while it is held. Further places where the code
  and its comments disagree are \<open>spent_sid_stays_taken\<close>, \<open>closed_connection_subscribes\<close>, \<open>no_responder_sizes\<close>,
  \<open>absorb_ping_bytes_never\<close>, \<open>localhost_is_refused\<close>, \<open>durations_add_up\<close>, \<open>expect_pong_answers_again\<close>,
  \<open>floodpub_gate_opens_early\<close>, \<open>refused_subscriber_hangs_the_bench\<close> and \<open>subscriber_error_unreported\<close>.

  \<^bold>\<open>Not modelled.\<close> The runtime and the kernel (task scheduling, sockets, timers, signals), which appear as inputs; weak memory: every
  operation on the shared objects is one atomic step, except where \<^verbatim>\<open>Stall\<close>, \<^verbatim>\<open>Writer\<close> and \<^verbatim>\<open>Node\<close> split it; the
  benches \<^verbatim>\<open>fanout\<close>, \<^verbatim>\<open>latency\<close> and \<^verbatim>\<open>pubsub\<close>, which are sequences of calls of a client library between two readings of the
  clock; progress lines and the averages the benches print; the system allocator behind the counters and the thread that
  dumps them. Lengths in the benches are natural numbers except where a definition says otherwise. IPv6 addresses are read by an
  argument of the model.
\<close>

section \<open>From publishes to their deliveries\<close>

fun with_headers :: "client_pub \<Rightarrow> bool" where
  "with_headers (CPub s r body) \<longleftrightarrow> False"
| "with_headers (CHpub s r hdr body) \<longleftrightarrow> True"

text \<open>A read of whole publishes leaves exactly their operations to run.\<close>

lemma read_publishes:
  assumes "list_all (client_fits (limits_of (w_cfg w))) ps" "rd_parser rd = Line" "rd_buf rd = []"
    and "on_read E p (concat (map client_frame ps)) rd w = (rd1, w1)"
  shows "w1 = w" "rd_events rd1 = concat (map client_events ps)" "rd_interest rd1 = rd_interest rd" "rd_done rd1 = rd_done rd"
  using feed_client_frames [OF assms(1), of "[]"] assms(2-4)
  by (auto simp: on_read_def Let_def split: prod.splits)

lemma client_events_run:
  assumes "list_all (client_fits lim) ps" "\<forall>q\<in>set ps. with_headers q \<longrightarrow> headers"
  shows "list_all (pub_event headers) (concat (map client_events ps))"
  using assms
proof (induction ps)
  case (Cons q ps)
  then show ?case by (cases q) (auto simp: pub_fits_def hpub_fits_def plain_def)
qed simp

lemma client_msgs_plain:
  assumes "list_all (client_fits lim) ps" "m \<in> set (concat (map event_msgs (concat (map client_events ps))))" "plain sid"
  shows "msg_plain sid m"
  using assms
proof (induction ps)
  case (Cons q ps)
  then show ?case
    by (cases q) (auto simp: pub_fits_def hpub_fits_def msg_plain_def msg_of_def pred_option_def elim: option.set_cases)
qed simp

text \<open>The frames queued for a connection, as the bench knows them.\<close>

definition deliveries :: "('e, 'j) Deps \<Rightarrow> 'ch World \<Rightarrow> nat \<Rightarrow> Msg list \<Rightarrow> Sent list" where
  "deliveries E w c msgs =
     concat (map (\<lambda>m. map (\<lambda>s. Delivery (arena_new E) (supports_headers w c) (s_sid s) m)
       (filter (\<lambda>s. matches (s_subject s) (m_subject m)) (subs_of c (r_inner (w_registry w))))) msgs)"

lemma deliveries_frames: "map (sent_bytes E) (deliveries E w c msgs) = concat (map (frames_of w c) msgs)"
proof (induction msgs)
  case (Cons m msgs)
  have "sent_bytes E (Delivery (arena_new E) (supports_headers w c) (s_sid s) m) = sub_frame w s m"
    if "s \<in> set (subs_of c (r_inner (w_registry w)))" for s
    using that by (simp add: build_frame_bytes arena_new_def sub_frame_def subs_of_def)
  then have "map (sent_bytes E) (map (\<lambda>s. Delivery (arena_new E) (supports_headers w c) (s_sid s) m)
       (filter (\<lambda>s. matches (s_subject s) (m_subject m)) (subs_of c (r_inner (w_registry w))))) = frames_of w c m"
    by (simp add: frames_of_def)
  with Cons.IH show ?case by (simp add: deliveries_def)
qed (simp add: deliveries_def)

lemma deliveries_counted:
  assumes "\<And>m s. m \<in> set msgs \<Longrightarrow> s \<in> set (subs_of c (r_inner (w_registry w))) \<Longrightarrow> msg_plain (s_sid s) m"
    and "list_all (\<lambda>f. length f \<le> subscriber_cap rb) (concat (map (frames_of w c) msgs))" "rb < 2 ^ 64"
    and "length (concat (map (frames_of w c) msgs)) < unat n" "concat cs = concat (concat (map (frames_of w c) msgs))"
  shows "\<exists>st. subscriber_run n (subscriber_cap rb) (map (\<lambda>b. (GotBytes b, False)) cs) ([], sub_thread_new) = Some ([], st) \<and>
    st_delivered st = of_nat (length (concat (map (frames_of w c) msgs))) \<and> \<not> st_failed st"
proof -
  define ss where "ss = deliveries list_deps w c msgs"
  have b: "map (sent_bytes list_deps) ss = concat (map (frames_of w c) msgs)" unfolding ss_def by (rule deliveries_frames)
  have "filter is_delivery ss = ss" unfolding ss_def deliveries_def by (intro filter_True) auto
  moreover have "length ss = length (concat (map (frames_of w c) msgs))" unfolding b [symmetric] by simp
  moreover have "list_all sent_plain ss"
    using assms(1) by (auto simp: ss_def deliveries_def list_all_iff arena_new_def)
  moreover have "list_all (\<lambda>s. length (sent_bytes list_deps s) \<le> subscriber_cap rb) ss"
    using assms(2) unfolding b [symmetric] by (simp add: list_all_iff)
  ultimately show ?thesis
    using subscriber_counts [of list_deps rb ss cs n] assms(3-5) b by (auto simp: list_all_iff)
qed

section \<open>Properties across components\<close>


text \<open>A world with one subscription, of connection 2.\<close>

definition one_sub :: "(bool \<times> bytes list) World" where
  "one_sub =
     (let sub = sub_new 0 ''foo.*'' None ''9'' 2; w = world_new list_deps default_config (rng_new 5)
      in add_sub sub (snd (insert_sub sub (w_registry w))) w)"

lemma one_sub_facts:
  "world_wf {} one_sub" "subs_of 2 (r_inner (w_registry one_sub)) = [sub_new 0 ''foo.*'' None ''9'' 2]"
  "gen_room 3 (w_registry one_sub)" "reg_size one_sub = 1" "w_cfg one_sub = default_config"
  "served list_deps 0 19 2 one_sub" "queued list_deps (c_out (w_conns one_sub 2)) = []"
proof -
  let ?sub = "sub_new 0 ''foo.*'' None ''9'' 2"
  define w where "w = world_new list_deps default_config (rng_new 5)"
  obtain ok r where i: "insert_sub ?sub (w_registry w) = (ok, r)" by (rule prod.exhaust)
  have w: "one_sub = add_sub ?sub r w" using i by (simp add: one_sub_def w_def)
  have "w_registry w = registry_new (rng_new 5)" by (simp add: w_def world_new_def)
  then have r: "r = snd (insert_sub ?sub (registry_new (rng_new 5)))" using i by (simp add: prod_eq_iff)
  have c: "subs_of 2 (r_inner r) = [?sub]" "r_generation r = 1" "length (all_subs (r_inner r)) = 1" unfolding r by code_simp+
  show subs: "subs_of 2 (r_inner (w_registry one_sub)) = [?sub]" using c(1) by (simp add: w add_sub_def)
  show "gen_room 3 (w_registry one_sub)" "reg_size one_sub = 1" using c by (simp_all add: gen_room_def reg_size_def w add_sub_def)
  show "w_cfg one_sub = default_config" by (simp add: w add_sub_def w_def world_new_def)
  show "world_wf {} one_sub"
    unfolding w
  proof (rule add_sub_wf [OF _ _ _ _ i])
    show "sub_ok ?sub" by (rule sub_new_ok) code_simp
  qed (simp_all add: w_def world_new_wf, simp_all add: sub_new_def world_new_def table_def conn_new_def)
  have out: "c_out (w_conns one_sub 2) = c_out (conn_new list_deps default_config 2)" "c_closed (w_conns one_sub 2) = False"
    by (simp_all add: w add_sub_def w_def world_new_def sub_new_def conn_new_def)
  have "conn_room list_deps 0 19 (conn_new list_deps default_config 2)"
    by (rule conn_new_room [OF deps_ok_list]) (simp_all add: default_config_def CFG_MAX_PENDING_def)
  then have "conn_room list_deps 0 19 (w_conns one_sub 2)" using out by (simp add: conn_room_def)
  moreover have "limit (w_cells one_sub 0) = 0" by (simp add: w add_sub_def w_def world_new_def cell_new_def)
  ultimately show "served list_deps 0 19 2 one_sub" using subs by (simp add: served_def sub_new_def)
  show "queued list_deps (c_out (w_conns one_sub 2)) = []"
    using out by (simp add: conn_new_def outbox_new_def queued_def list_deps_def)
qed


text \<open>C27. The suite's client meets the server: it reads the greeting the server wrote, whatever the configured name holds,
  and finds all of its members in it; after its \<^verbatim>\<open>CONNECT\<close> the barrier passes up to 63 acknowledgements and any number of
  keepalives and leaves what follows the \<open>PONG\<close>; and what it sent on the way is, for the server's parser, exactly the
  \<^verbatim>\<open>CONNECT\<close>, one \<^verbatim>\<open>PING\<close> and one \<^verbatim>\<open>PONG\<close> for each keepalive.\<close>

theorem suite_meets_the_server:
  assumes "obj \<noteq> []" "\<not> is_blank (hd obj)" "CR \<notin> set obj" "length obj + 8 \<le> max_control_line lim" "length ks \<le> 63"
  shows "\<exists>json c c'. wire_connect (map RByte (info_json_line i cid ip) @ rs) = Some (Inr (json, c, rs)) \<and>
    read_info (''INFO '' @ json) = Some (info_members i cid ip) \<and>
    barrier (barrier_turns ks k) (connect_opts obj c) (map RByte (barrier_stream ks k) @ rs') = Some (Inr (c', rs')) \<and>
    feed_into lim Line (wc_sent c') [] = (Line, [], [Connect obj, Ping] @ replicate (sum_list ks + k) Pong, Inr ())"
proof -
  obtain l where l: "info_json_line i cid ip = l @ [CR, LF]" "CR \<notin> set l" "take 5 l = ''INFO ''" using info_one_line by blast
  let ?c = "\<lparr>wc_buf = [], wc_auto_pong = True, wc_sent = []\<rparr>"
  let ?c' = "connect_opts obj ?c\<lparr>wc_sent := wc_sent (connect_opts obj ?c) @ ping_line @ concat (replicate (sum_list ks + k) pong_line)\<rparr>"
  have m: "4 \<le> max_control_line lim" using assms(4) by simp
  have sent: "wc_sent ?c' = ''CONNECT '' @ obj @ CRLF @ ''PING'' @ CRLF @ concat (replicate (sum_list ks + k) pong_line) @ []"
    by (simp add: connect_opts_def wire_send_def ping_line_def)
  have "''INFO '' @ drop 5 l @ [CR, LF] = l @ [CR, LF]" using append_take_drop_id [of 5 l] l(3) by (metis append.assoc)
  then have "read_info (''INFO '' @ drop 5 l @ [CR, LF]) = Some (info_members i cid ip)"
    using info_line_read [of i cid ip] unfolding l(1) by (rule ssubst)
  moreover have "barrier (barrier_turns ks k) (connect_opts obj ?c) (map RByte (barrier_stream ks k) @ rs') = Some (Inr (?c', rs'))"
    using assms(5) by (intro barrier_passes) (simp_all add: connect_opts_def wire_send_def)
  moreover have "feed_into lim Line (wc_sent ?c') [] = (Line, [], [Connect obj, Ping] @ replicate (sum_list ks + k) Pong, Inr ())"
    unfolding sent feed_connect [OF assms(1-4)] feed_ping [OF m] feed_pongs [OF m] by (simp add: feed_into_empty)
  moreover have "wire_connect (map RByte (info_json_line i cid ip) @ rs) = Some (Inr (drop 5 l @ [CR, LF], ?c, rs))"
    unfolding l(1) by (rule connect_reads_info [OF l(2,3)])
  ultimately show ?thesis by blast
qed

theorem suite_meets_the_server_witness:
  "\<exists>json c c'. wire_connect (map RByte (info_json_line \<lparr>i_server_id = ''X'', i_server_name = ''n'' @ CRLF, i_version = ''1'', i_host = ''h'',
       i_port = 4222, i_max_payload = 9\<rparr> 3 ''::1'') @ []) = Some (Inr (json, c, [])) \<and>
     barrier (barrier_turns [0, 1] 1) (connect_opts NO_VERBOSE c) (map RByte (barrier_stream [0, 1] 1) @ [RTimeout]) = Some (Inr (c', [RTimeout])) \<and>
     feed_into default_limits Line (wc_sent c') [] = (Line, [], [Connect NO_VERBOSE, Ping, Pong, Pong], Inr ())"
proof -
  have "NO_VERBOSE \<noteq> []" "\<not> is_blank (hd NO_VERBOSE)" "CR \<notin> set NO_VERBOSE" "length NO_VERBOSE + 8 \<le> max_control_line default_limits"
    by (simp_all add: NO_VERBOSE_def is_blank_def default_limits_def)
  note e = suite_meets_the_server [OF this, of "[0, 1]"]
  have p: "replicate (sum_list [0, 1] + 1) Pong = [Pong, Pong]" "length [0, 1 :: nat] \<le> 63" by (simp_all add: numeral_2_eq_2)
  show ?thesis
    using e [OF p(2), of "\<lparr>i_server_id = ''X'', i_server_name = ''n'' @ CRLF, i_version = ''1'', i_host = ''h'', i_port = 4222, i_max_payload = 9\<rparr>" 3 "''::1''" "[]" 1 "[RTimeout]"]
    unfolding p(1) append.simps by blast
qed

end
